(* ===== verification/Prelude.thy ===== *)
theory Prelude
  imports Main "HOL-Library.Word" "HOL-Library.Monad_Syntax"
begin

text \<open>
  Shared vocabulary of the development: the names of the simulator's scalar types, the
  assertion operation of the option monad (\<open>None\<close> is an execution that stops in
  \<open>assert\<close>, \<open>panic\<close> or \<open>fatal\<close>), and the generic lemmas on lists, option binds and
  counting that the component theories use.
\<close>

section \<open>Types and assertions\<close>

type_synonym ThreadID = nat
type_synonym InstSeqNum = nat
type_synonym Addr = "64 word"

text \<open>
  The simulator's \<open>assert(b)\<close> and \<open>panic_if(!b)\<close>: execution continues only when the
  condition holds.
\<close>

definition assert_that :: "bool \<Rightarrow> unit option" where
  "assert_that b = (if b then Some () else None)"

lemma assert_that_simps [simp]:
  "assert_that True = Some ()"
  "assert_that False = None"
  "(assert_that b = Some u) = b"
  "(assert_that b = None) = (\<not> b)"
  by (auto simp: assert_that_def)

lemma bind_assert_eq_Some [simp]:
  "(Option.bind (assert_that b) f = Some r) = (b \<and> f () = Some r)"
  by (cases b) auto

section \<open>Loops over a list that may stop\<close>

text \<open>
  A \<open>for\<close> loop over a list whose body updates a state and may fail.
\<close>

fun foldM :: "('a \<Rightarrow> 's \<Rightarrow> 's option) \<Rightarrow> 'a list \<Rightarrow> 's \<Rightarrow> 's option" where
  "foldM f [] s = Some s"
| "foldM f (x # xs) s = Option.bind (f x s) (foldM f xs)"

lemma foldM_append [simp]:
  "foldM f (xs @ ys) s = Option.bind (foldM f xs s) (foldM f ys)"
  by (induction xs arbitrary: s) (auto split: bind_splits)

text \<open>An invariant that every iteration keeps holds after the loop.\<close>

lemma foldM_invariant:
  assumes "foldM f xs s = Some t" and "P s"
    and "\<And>x s t. x \<in> set xs \<Longrightarrow> f x s = Some t \<Longrightarrow> P s \<Longrightarrow> P t"
  shows "P t"
  using assms
proof (induction xs arbitrary: s)
  case Nil
  then show ?case by simp
next
  case (Cons x xs)
  then obtain s' where "f x s = Some s'" and rest: "foldM f xs s' = Some t"
    by (auto simp: bind_eq_Some_conv)
  with Cons.prems have "P s'" by auto
  with rest show ?case using Cons.IH Cons.prems(3) by fastforce
qed

text \<open>A relation between the state before and after each iteration composes.\<close>

lemma foldM_relation:
  assumes "foldM f xs s = Some t"
    and "\<And>s. R s s" and "\<And>s t u. R s t \<Longrightarrow> R t u \<Longrightarrow> R s u"
    and "\<And>x s t. x \<in> set xs \<Longrightarrow> f x s = Some t \<Longrightarrow> R s t"
  shows "R s t"
  by (rule foldM_invariant [where P = "R s" and f = f and xs = xs, OF assms(1)])
    (use assms in blast)+

section \<open>Counting list elements\<close>

abbreviation count_if :: "('a \<Rightarrow> bool) \<Rightarrow> 'a list \<Rightarrow> nat" where
  "count_if P xs \<equiv> length (filter P xs)"

lemma count_if_cong:
  "(\<And>x. x \<in> set xs \<Longrightarrow> P x = Q x) \<Longrightarrow> count_if P xs = count_if Q xs"
  by (induction xs) auto

lemma count_if_0_iff: "(count_if P xs = 0) = (\<forall>x\<in>set xs. \<not> P x)"
  by (auto simp: filter_empty_conv)

text \<open>Turning the predicate off at one place of a duplicate-free list.\<close>

lemma count_if_flip:
  assumes "distinct xs" and "a \<in> set xs" and "P a" and "\<not> Q a"
    and "\<And>x. x \<in> set xs \<Longrightarrow> x \<noteq> a \<Longrightarrow> Q x = P x"
  shows "count_if P xs = Suc (count_if Q xs)"
  using assms
proof (induction xs)
  case Nil
  then show ?case by simp
next
  case (Cons x xs)
  show ?case
  proof (cases "x = a")
    case True
    with Cons.prems have "count_if P xs = count_if Q xs"
      by (intro count_if_cong) auto
    with True Cons.prems show ?thesis by simp
  next
    case False
    with Cons show ?thesis by auto
  qed
qed

section \<open>Reading an updated list\<close>

lemma nth_update: "xs[i := v] ! j = (if j = i \<and> i < length xs then v else xs ! j)"
  by (cases "i < length xs") (auto simp: nth_list_update list_update_beyond)

section \<open>Small numbers as words\<close>

lemma unat_Addr_of_nat: "n < 2 ^ 31 \<Longrightarrow> unat (word_of_nat n :: Addr) = n"
  by (simp add: unat_of_nat)

section \<open>Sorted sequence numbers\<close>

lemma sorted_wrt_less_distinct:
  "sorted_wrt (\<lambda>x y. f x < (f y :: 'b :: linorder)) xs \<Longrightarrow> distinct xs"
  by (induction xs) auto

lemma sorted_wrt_cases: "sorted_wrt R l \<Longrightarrow> p \<in> set l \<Longrightarrow> q \<in> set l \<Longrightarrow> p = q \<or> R p q \<or> R q p"
  by (induction l) auto

lemma sorted_wrt_snoc:
  "sorted_wrt R (xs @ [x]) = (sorted_wrt R xs \<and> (\<forall>y\<in>set xs. R y x))"
  by (simp add: sorted_wrt_append)

end
