(* ===== verification/DynInst.thy ===== *)
theory DynInst
  imports Prelude
begin

text \<open>
  Dynamic instructions (\<open>cpu/base_dyn_inst.hh\<close>, \<open>cpu/base_dyn_inst_impl.hh\<close>), the part of
  the static instruction they read (\<open>cpu/static_inst.hh\<close>) and register identifiers
  (\<open>cpu/reg_class.hh\<close>, \<open>cpu/o3/comm.hh\<close>).

  The pipeline structures hold reference-counted pointers to dynamic instructions, so a
  status bit set by one structure is seen by all the others. The model keeps that aliasing:
  a pointer is a number, and the instructions are the values of a store
  \<open>inst_ptr \<Rightarrow> dyn_inst\<close>.
\<close>

section \<open>Registers\<close>

datatype RegClass = IntRegClass | FloatRegClass | VecRegClass | VecElemClass
  | CCRegClass | MiscRegClass

text \<open>
  \<open>RegId\<close>: class, index and element index. The element index of a register that is not a
  vector element is the constructor's \<open>-1\<close> converted to the 16-bit index type.
  The taint bit \<open>isNonSpec\<close> is the only mutable part of a physical register identifier; it
  lives in a set of tainted registers, so that the identifier itself is a value that stands
  for the pointer to it.
\<close>

record RegId =
  regClass :: RegClass
  regIdx :: nat
  elemIdx :: nat

record PhysRegId = RegId +
  flatIdx :: nat

text \<open>The constants of the ISA the simulator is built for.\<close>

record isa_params =
  ZeroReg :: nat
  isAlpha :: bool
  NumVecElemPerVecReg :: nat

definition no_elem :: nat where
  "no_elem = 65535"

definition isRenameable :: "'a RegId_scheme \<Rightarrow> bool" where
  "isRenameable r \<longleftrightarrow> regClass r \<noteq> MiscRegClass"

definition isFixedMapping :: "PhysRegId \<Rightarrow> bool" where
  "isFixedMapping r \<longleftrightarrow> \<not> isRenameable r"

definition isZeroReg :: "isa_params \<Rightarrow> 'a RegId_scheme \<Rightarrow> bool" where
  "isZeroReg isa r \<longleftrightarrow>
     (regClass r = IntRegClass \<and> regIdx r = ZeroReg isa) \<or>
     (isAlpha isa \<and> regClass r = FloatRegClass \<and> regIdx r = ZeroReg isa)"

definition flatIndex :: "isa_params \<Rightarrow> RegId \<Rightarrow> nat" where
  "flatIndex isa r =
     (case regClass r of
        VecElemClass \<Rightarrow> NumVecElemPerVecReg isa * regIdx r + elemIdx r
      | _ \<Rightarrow> regIdx r)"

definition setSecureSpec :: "isa_params \<Rightarrow> PhysRegId \<Rightarrow> PhysRegId set \<Rightarrow> PhysRegId set" where
  "setSecureSpec isa r taint = (if \<not> isZeroReg isa r then insert r taint else taint)"

definition clearSecureSpec :: "PhysRegId \<Rightarrow> PhysRegId set \<Rightarrow> PhysRegId set" where
  "clearSecureSpec r taint = taint - {r}"

section \<open>Static instructions\<close>

datatype SFlag = IsNop | IsInteger | IsFloating | IsCC | IsVector | IsVectorElem | IsMemRef
  | IsLoad | IsStore | IsAtomic | IsStoreConditional | IsInstPrefetch | IsDataPrefetch
  | IsControl | IsDirectControl | IsIndirectControl | IsCondControl | IsUncondControl
  | IsCall | IsReturn | IsSerializing | IsSerializeBefore | IsSerializeAfter
  | IsMemBarrier | IsWriteBarrier | IsNonSpeculative | IsQuiesce | IsIprAccess | IsMicroop
  | IsDelayedCommit | IsLastMicroop | IsFirstMicroop | IsSquashAfter | IsUnimplemented

record StaticInst =
  sflags :: "SFlag set"
  sopClass :: nat
  snumSrcRegs :: nat
  snumDestRegs :: nat
  snumDests :: "RegClass \<Rightarrow> nat"
  sSrcRegIdx :: "nat \<Rightarrow> RegId"
  sDestRegIdx :: "nat \<Rightarrow> RegId"

section \<open>Dynamic instructions\<close>

datatype Status = IqEntry | RobEntry | LsqEntry | Completed | ResultReady | CanIssue | Issued
  | Executing | Executed | WritebackDone | CanCommit | AtCommit | Committed | Squashed
  | SquashedInIQ | SquashedInLSQ | SquashedInROB | RecoverInst | BlockingInst
  | ThreadsyncWait | SerializeBefore | SerializeAfter | SerializeHandled
  | MaySquashOthers | Unsafe | ResolvedAtDecode | BranchPrequisite | Runahead
  | SatisfiedFromMemory | SecureSpec

datatype Flags = NotAnInst | TranslationStarted | TranslationCompleted
  | PossibleLoadViolation | HitExternalSnoop | EffAddrValid | RecordResult | Predicate
  | PredTaken | IsStrictlyOrdered | ReqMade | MemOpDone

text \<open>
  The bit sets \<open>status\<close> and \<open>instFlags\<close> are sets; the register arrays are functions of the
  operand index; \<open>fault\<close> is \<open>None\<close> for \<open>NoFault\<close>. Debugging and statistics fields (trace
  records, time stamps, recorded results) are left out.
\<close>

record dyn_inst =
  seqNum :: InstSeqNum
  threadNumber :: ThreadID
  instAddr :: Addr
  staticInst :: StaticInst
  status :: "Status set"
  instFlags :: "Flags set"
  readySrcRegIdx :: "nat set"
  readyRegs :: nat
  fault :: "nat option"
  srcRegIdx :: "nat \<Rightarrow> PhysRegId"
  destRegIdx :: "nat \<Rightarrow> PhysRegId"
  prevDestRegIdx :: "nat \<Rightarrow> PhysRegId"
  flatDestRegIdx :: "nat \<Rightarrow> RegId"

type_synonym inst_ptr = nat
type_synonym inst_store = "inst_ptr \<Rightarrow> dyn_inst"

named_theorems inst_defs

text \<open>Setting, clearing and testing one status bit.\<close>

definition set_status :: "Status \<Rightarrow> dyn_inst \<Rightarrow> dyn_inst" where
  "set_status b i = i\<lparr>status := insert b (status i)\<rparr>"

definition reset_status :: "Status \<Rightarrow> dyn_inst \<Rightarrow> dyn_inst" where
  "reset_status b i = i\<lparr>status := status i - {b}\<rparr>"

definition set_flag :: "Flags \<Rightarrow> bool \<Rightarrow> dyn_inst \<Rightarrow> dyn_inst" where
  "set_flag b v i = i\<lparr>instFlags := (if v then insert b (instFlags i) else instFlags i - {b})\<rparr>"

lemmas [inst_defs] = set_status_def reset_status_def set_flag_def

abbreviation has :: "dyn_inst \<Rightarrow> Status \<Rightarrow> bool" where
  "has i b \<equiv> b \<in> status i"

abbreviation sflag :: "dyn_inst \<Rightarrow> SFlag \<Rightarrow> bool" where
  "sflag i b \<equiv> b \<in> sflags (staticInst i)"

definition setSquashedInIQ :: "dyn_inst \<Rightarrow> dyn_inst" where
  "setSquashedInIQ i = set_status Squashed (set_status SquashedInIQ i)"

definition canCauseMisprediction :: "dyn_inst \<Rightarrow> bool" where
  "canCauseMisprediction i \<longleftrightarrow> sflag i IsControl"

abbreviation numSrcRegs :: "dyn_inst \<Rightarrow> nat" where
  "numSrcRegs i \<equiv> snumSrcRegs (staticInst i)"

abbreviation numDestRegs :: "dyn_inst \<Rightarrow> nat" where
  "numDestRegs i \<equiv> snumDestRegs (staticInst i)"

text \<open>The renamed destinations and sources, in operand order.\<close>

definition dest_regs :: "dyn_inst \<Rightarrow> PhysRegId list" where
  "dest_regs i = map (destRegIdx i) [0..<numDestRegs i]"

definition src_regs :: "dyn_inst \<Rightarrow> PhysRegId list" where
  "src_regs i = map (srcRegIdx i) [0..<numSrcRegs i]"

text \<open>\<open>initVars\<close>: the state every constructor starts an instruction in.\<close>

definition initVars :: "dyn_inst \<Rightarrow> dyn_inst" where
  "initVars i = i\<lparr>status := {}, instFlags := {RecordResult, Predicate}, readyRegs := 0,
                  threadNumber := 0, fault := None\<rparr>"

text \<open>
  \<open>BaseDynInst\<close> constructed from a binary instruction. The ready bits of the sources are a
  default-constructed (empty) bit set; the register arrays are not initialised and keep what
  the argument \<open>raw\<close> has.
\<close>

definition BaseDynInst :: "dyn_inst \<Rightarrow> StaticInst \<Rightarrow> Addr \<Rightarrow> InstSeqNum \<Rightarrow> dyn_inst" where
  "BaseDynInst raw si pc sn = initVars (raw\<lparr>staticInst := si, instAddr := pc, seqNum := sn,
                                     readySrcRegIdx := {}\<rparr>)"

text \<open>
  \<open>markSrcRegReady()\<close>: one more source is ready; the instruction becomes ready to issue when
  the count reaches the number of sources, and more ready sources than sources is a panic.
  The counter is an 8-bit unsigned integer.
\<close>

definition markSrcRegReady :: "dyn_inst \<Rightarrow> dyn_inst option" where
  "markSrcRegReady i =
     (let i = i\<lparr>readyRegs := (readyRegs i + 1) mod 256\<rparr>;
          i = (if readyRegs i = numSrcRegs i then set_status CanIssue i else i)
      in if readyRegs i > numSrcRegs i then None else Some i)"

definition markSrcRegReady_idx :: "nat \<Rightarrow> dyn_inst \<Rightarrow> dyn_inst option" where
  "markSrcRegReady_idx idx i = markSrcRegReady (i\<lparr>readySrcRegIdx := insert idx (readySrcRegIdx i)\<rparr>)"

definition eaSrcsReady :: "dyn_inst \<Rightarrow> bool" where
  "eaSrcsReady i \<longleftrightarrow> list_all (\<lambda>k. k \<in> readySrcRegIdx i) [1..<numSrcRegs i]"

definition isTranslationDelayed :: "dyn_inst \<Rightarrow> bool" where
  "isTranslationDelayed i \<longleftrightarrow> TranslationStarted \<in> instFlags i \<and> TranslationCompleted \<notin> instFlags i"

definition renameDestReg :: "nat \<Rightarrow> PhysRegId \<Rightarrow> PhysRegId \<Rightarrow> dyn_inst \<Rightarrow> dyn_inst" where
  "renameDestReg idx renamed_dest previous_rename i =
     i\<lparr>destRegIdx := (destRegIdx i)(idx := renamed_dest),
       prevDestRegIdx := (prevDestRegIdx i)(idx := previous_rename)\<rparr>"

definition renameSrcReg :: "nat \<Rightarrow> PhysRegId \<Rightarrow> dyn_inst \<Rightarrow> dyn_inst" where
  "renameSrcReg idx renamed_src i = i\<lparr>srcRegIdx := (srcRegIdx i)(idx := renamed_src)\<rparr>"

definition flattenDestReg :: "nat \<Rightarrow> RegId \<Rightarrow> dyn_inst \<Rightarrow> dyn_inst" where
  "flattenDestReg idx r i = i\<lparr>flatDestRegIdx := (flatDestRegIdx i)(idx := r)\<rparr>"

text \<open>
  \<open>markDestRegsAsSecureSpec\<close> taints every destination; \<open>isSrcRegsSecureSpec\<close> looks for a
  tainted source that is not exempted. The exemption mask is a field of the x86 static
  instruction and \<open>rbp\<close> the index of the frame-pointer register.
\<close>

definition markDestRegsAsSecureSpec ::
  "isa_params \<Rightarrow> dyn_inst \<Rightarrow> PhysRegId set \<Rightarrow> PhysRegId set" where
  "markDestRegsAsSecureSpec isa i taint = fold (setSecureSpec isa) (dest_regs i) taint"

definition isSrcRegsSecureSpec ::
  "(nat \<Rightarrow> bool) \<Rightarrow> nat \<Rightarrow> PhysRegId set \<Rightarrow> dyn_inst \<Rightarrow> bool" where
  "isSrcRegsSecureSpec ignoreTaintMask rbp taint i \<longleftrightarrow>
     list_ex (\<lambda>k. srcRegIdx i k \<in> taint \<and>
                  \<not> (ignoreTaintMask k \<or> regClass (srcRegIdx i k) = CCRegClass \<or>
                     regIdx (sSrcRegIdx (staticInst i) k) = rbp))
             [0..<numSrcRegs i]"

text \<open>
  \<open>runaheadZeroOutputRegs\<close>: the list of the operand indices whose register is written with
  zero, or a panic when a destination is of a class the switch does not handle. The loop
  starts at operand 1, as in the source.
\<close>

definition zeroable_class :: "RegClass \<Rightarrow> bool" where
  "zeroable_class c \<longleftrightarrow> c = IntRegClass \<or> c = FloatRegClass \<or> c = CCRegClass"

fun zero_outputs :: "dyn_inst \<Rightarrow> nat list \<Rightarrow> nat list option" where
  "zero_outputs i [] = Some []"
| "zero_outputs i (idx # idxs) =
     (if zeroable_class (regClass (destRegIdx i idx))
      then map_option ((#) idx) (zero_outputs i idxs)
      else None)"

definition runaheadZeroOutputRegs :: "dyn_inst \<Rightarrow> nat list option" where
  "runaheadZeroOutputRegs i = zero_outputs i [1..<numDestRegs i]"

section \<open>Configuration\<close>

text \<open>
  The debug flags that select the speculation defences, tested in the source with
  \<open>DTRACE(...)\<close>.
\<close>

record cd_flags =
  CD_Allow_NonLoads_AfterBranch :: bool
  CD_Clear_DirectUnconditionalBranches_AtDecode :: bool
  CD_Clear_MaySquash_AtExec :: bool
  CD_LimitWakeDependandsToWBWidth :: bool
  CD_MarkBranchPrequisites :: bool
  CD_MarkUnsafeIf_AfterBranch :: bool
  CD_MarkUnsafeIf_LoadtInstruction :: bool
  CD_Prioritize_Branch_Execution :: bool
  CD_Runahead_QuickOutputPropagation :: bool
  CD_Runahead_SquashInSingleCycle :: bool
  CD_Runahead_ifBranchLoadIsStalling :: bool
  CD_Runahead_ifMoreThanNBranches :: bool
  CD_SquashInSingleCycle :: bool

section \<open>Updating the store\<close>

definition upd_inst :: "inst_ptr \<Rightarrow> (dyn_inst \<Rightarrow> dyn_inst) \<Rightarrow> inst_store \<Rightarrow> inst_store" where
  "upd_inst p f h = h(p := f (h p))"

definition updM_inst ::
  "inst_ptr \<Rightarrow> (dyn_inst \<Rightarrow> dyn_inst option) \<Rightarrow> inst_store \<Rightarrow> inst_store option" where
  "updM_inst p f h = map_option (\<lambda>i. h(p := i)) (f (h p))"

lemma upd_inst_apply: "upd_inst p f h q = (if q = p then f (h p) else h q)"
  by (simp add: upd_inst_def)

section \<open>Sample instructions\<close>

text \<open>Concrete instructions for the examples of the component theories.\<close>

definition sample_reg :: "nat \<Rightarrow> PhysRegId" where
  "sample_reg n = \<lparr>regClass = IntRegClass, regIdx = n, elemIdx = no_elem, flatIdx = n\<rparr>"

definition sample_inst :: "InstSeqNum \<Rightarrow> SFlag set \<Rightarrow> Status set \<Rightarrow> dyn_inst" where
  "sample_inst sn fl st =
     \<lparr>seqNum = sn, threadNumber = 0, instAddr = word_of_nat (4 * sn),
      staticInst = \<lparr>sflags = fl, sopClass = 1, snumSrcRegs = 1, snumDestRegs = 1, snumDests = (\<lambda>c. if c = IntRegClass then 1 else 0),
                    sSrcRegIdx = (\<lambda>_. RegId.truncate (sample_reg 2)),
                    sDestRegIdx = (\<lambda>_. RegId.truncate (sample_reg 3))\<rparr>,
      status = st, instFlags = {}, readySrcRegIdx = {}, readyRegs = 0, fault = None,
      srcRegIdx = (\<lambda>_. sample_reg 2), destRegIdx = (\<lambda>_. sample_reg 3),
      prevDestRegIdx = (\<lambda>_. sample_reg 4), flatDestRegIdx = (\<lambda>_. RegId.truncate (sample_reg 3))\<rparr>"

lemma sample_inst_simps [simp]:
  "seqNum (sample_inst sn fl st) = sn" "threadNumber (sample_inst sn fl st) = 0"
  "sflags (staticInst (sample_inst sn fl st)) = fl" "status (sample_inst sn fl st) = st"
  "sopClass (staticInst (sample_inst sn fl st)) = 1"
  "numSrcRegs (sample_inst sn fl st) = 1" "numDestRegs (sample_inst sn fl st) = 1"
  "readyRegs (sample_inst sn fl st) = 0"
  "dest_regs (sample_inst sn fl st) = [sample_reg 3]" "src_regs (sample_inst sn fl st) = [sample_reg 2]"
  by (simp_all add: sample_inst_def dest_regs_def src_regs_def)

lemma sample_regs [simp]:
  "srcRegIdx (set_status a i) = srcRegIdx i" "srcRegIdx (sample_inst sn fl st) = (\<lambda>_. sample_reg 2)"
  "dest_regs ((sample_inst sn fl st)\<lparr>destRegIdx := f\<rparr>) = [f 0]"
  by (simp_all add: set_status_def sample_inst_def dest_regs_def)

end
