(* ===== verification/Rob.thy ===== *)
theory Rob
  imports DynInst
begin

text \<open>
  The reorder buffer (\<open>cpu/o3/rob.hh\<close>, \<open>cpu/o3/rob_impl.hh\<close>), which in this core also decides
  when a speculative instruction is safe. Branches that may still squash others carry the
  status bit \<^const>\<open>MaySquashOthers\<close> and are counted per thread; an instruction inserted while
  the count is positive is \<^const>\<open>Unsafe\<close>, and its result is withheld from its dependents until
  the reorder buffer finds that no older branch can squash it. When too many branches are
  unresolved the buffer enters runahead mode.

  The buffer calls the instruction queue and the scoreboard only to wake the dependents of an
  instruction that has become safe. That call is the parameter \<open>wake\<close> of the operations, on a
  state of an arbitrary type.
\<close>

section \<open>State\<close>

datatype ROBStatus = Running | Idle | ROBSquashing
datatype ROBPolicy = RobDynamic | RobPartitioned | RobThreshold

text \<open>
  The list iterators \<open>head\<close>, \<open>tail\<close> and \<open>squashIt\<close> are the instruction they point to, \<open>None\<close> at
  the end of the list: an instruction is in its thread's list once.
\<close>

record ROB =
  rob_instList :: "ThreadID \<Rightarrow> inst_ptr list"
  numInstsInROB :: int
  threadEntries :: "ThreadID \<Rightarrow> int"
  rob_numEntries :: int
  rob_maxEntries :: "ThreadID \<Rightarrow> int"
  squashWidth :: nat
  rob_head :: "inst_ptr option"
  rob_tail :: "inst_ptr option"
  squashIt :: "ThreadID \<Rightarrow> inst_ptr option"
  inRunaheadMode :: "ThreadID \<Rightarrow> bool"
  runaheadROBThreshold :: nat
  runaheadLoadAgeThreshhold :: nat
  numInstThatMayCauseSquash :: "ThreadID \<Rightarrow> int"
  rob_squashedSeqNum :: "ThreadID \<Rightarrow> InstSeqNum"
  doneSquashing :: "ThreadID \<Rightarrow> bool"
  robStatus :: "ThreadID \<Rightarrow> ROBStatus"
  robPolicy :: ROBPolicy
  rob_numThreads :: nat

type_synonym 'e wake_fun = "inst_ptr \<Rightarrow> inst_store \<times> 'e \<Rightarrow> (inst_store \<times> 'e) option"

section \<open>Capacity\<close>

text \<open>The free-entry counts are unsigned, so they wrap at 32 bits.\<close>

definition rob_resetState :: "ROB \<Rightarrow> ROB" where
  "rob_resetState b =
     (let T = rob_numThreads b in
      b\<lparr>doneSquashing := (\<lambda>t. if t < T then True else doneSquashing b t),
        threadEntries := (\<lambda>t. if t < T then 0 else threadEntries b t),
        squashIt := (\<lambda>t. if t < T then None else squashIt b t),
        rob_squashedSeqNum := (\<lambda>t. if t < T then 0 else rob_squashedSeqNum b t),
        numInstThatMayCauseSquash := (\<lambda>t. if t < T then 0 else numInstThatMayCauseSquash b t),
        numInstsInROB := 0, rob_head := None, rob_tail := None\<rparr>)"

text \<open>
  The constructor for a policy string already decoded (an unknown string fails its
  assertion); \<open>thr\<close> is the threshold parameter.
\<close>

definition ROB_new :: "ROBPolicy \<Rightarrow> int \<Rightarrow> nat \<Rightarrow> nat \<Rightarrow> int \<Rightarrow> nat \<Rightarrow> nat \<Rightarrow> ROB" where
  "ROB_new policy entries width threads thr raThr raAge =
     rob_resetState
       \<lparr>rob_instList = (\<lambda>_. []), numInstsInROB = 0, threadEntries = (\<lambda>_. 0), rob_numEntries = entries,
        rob_maxEntries = (\<lambda>_. case policy of RobDynamic \<Rightarrow> entries
                                | RobPartitioned \<Rightarrow> entries div int threads | RobThreshold \<Rightarrow> thr),
        squashWidth = width, rob_head = None, rob_tail = None, squashIt = (\<lambda>_. None),
        inRunaheadMode = (\<lambda>_. False), runaheadROBThreshold = raThr, runaheadLoadAgeThreshhold = raAge,
        numInstThatMayCauseSquash = (\<lambda>_. 0), rob_squashedSeqNum = (\<lambda>_. 0), doneSquashing = (\<lambda>_. True),
        robStatus = (\<lambda>_. Running), robPolicy = policy, rob_numThreads = threads\<rparr>"

definition rob_entryAmount :: "ThreadID \<Rightarrow> ROB \<Rightarrow> int" where
  "rob_entryAmount num_threads b =
     (if robPolicy b = RobPartitioned then rob_numEntries b div int num_threads else 0)"

definition rob_resetEntries :: "ThreadID list \<Rightarrow> ROB \<Rightarrow> ROB" where
  "rob_resetEntries activeThreads b =
     (if robPolicy b \<noteq> RobDynamic \<or> rob_numThreads b > 1
      then let active = int (length activeThreads) in
        fold (\<lambda>tid b.
          if robPolicy b = RobPartitioned
          then b\<lparr>rob_maxEntries := (rob_maxEntries b)(tid := rob_numEntries b div active)\<rparr>
          else if robPolicy b = RobThreshold \<and> active = 1
          then b\<lparr>rob_maxEntries := (rob_maxEntries b)(tid := rob_numEntries b)\<rparr>
          else b) activeThreads b
      else b)"

definition rob_countInsts_tid :: "ThreadID \<Rightarrow> ROB \<Rightarrow> nat" where
  "rob_countInsts_tid tid b = length (rob_instList b tid)"

definition rob_countInsts :: "ROB \<Rightarrow> nat" where
  "rob_countInsts b = (\<Sum>tid\<leftarrow>[0..<rob_numThreads b]. rob_countInsts_tid tid b)"

definition rob_numFreeEntries :: "ROB \<Rightarrow> int" where
  "rob_numFreeEntries b = (rob_numEntries b - numInstsInROB b) mod 2 ^ 32"

definition rob_numFreeEntries_tid :: "ThreadID \<Rightarrow> ROB \<Rightarrow> int" where
  "rob_numFreeEntries_tid tid b = (rob_maxEntries b tid - threadEntries b tid) mod 2 ^ 32"

definition rob_isEmpty :: "ThreadID \<Rightarrow> ROB \<Rightarrow> bool" where
  "rob_isEmpty tid b \<longleftrightarrow> threadEntries b tid = 0"

section \<open>Head, tail and lookup\<close>

text \<open>The loops keep the candidate found so far; \<open>None\<close> is \<open>first_valid\<close>.\<close>

fun head_loop :: "inst_store \<Rightarrow> (ThreadID \<Rightarrow> inst_ptr list) \<Rightarrow> ThreadID list \<Rightarrow> inst_ptr option \<Rightarrow> inst_ptr option" where
  "head_loop h l [] best = best"
| "head_loop h l (t # ts) best =
     (case l t of
        [] \<Rightarrow> head_loop h l ts best
      | p # _ \<Rightarrow>
          head_loop h l ts (case best of
                              None \<Rightarrow> Some p
                            | Some b \<Rightarrow> if seqNum (h p) < seqNum (h b) then Some p else Some b))"

definition updateHead :: "ThreadID list \<Rightarrow> inst_store \<Rightarrow> ROB \<Rightarrow> ROB" where
  "updateHead activeThreads h b = b\<lparr>rob_head := head_loop h (rob_instList b) activeThreads None\<rparr>"

fun tail_loop :: "inst_store \<Rightarrow> (ThreadID \<Rightarrow> inst_ptr list) \<Rightarrow> ThreadID list \<Rightarrow> inst_ptr option \<Rightarrow> inst_ptr option" where
  "tail_loop h l [] best = best"
| "tail_loop h l (t # ts) best =
     (if l t = [] then tail_loop h l ts best
      else let p = last (l t) in
        tail_loop h l ts (case best of
                            None \<Rightarrow> Some p
                          | Some b \<Rightarrow> if seqNum (h p) > seqNum (h b) then Some p else Some b))"

definition updateTail :: "ThreadID list \<Rightarrow> inst_store \<Rightarrow> ROB \<Rightarrow> ROB" where
  "updateTail activeThreads h b = b\<lparr>rob_tail := tail_loop h (rob_instList b) activeThreads None\<rparr>"

text \<open>\<open>readHeadInst\<close> gives the dummy instruction, here \<open>None\<close> inside \<open>Some\<close>, on an empty thread.\<close>

definition readHeadInst :: "ThreadID \<Rightarrow> inst_store \<Rightarrow> ROB \<Rightarrow> inst_ptr option option" where
  "readHeadInst tid h b =
     (if threadEntries b tid \<noteq> 0
      then (case rob_instList b tid of
              [] \<Rightarrow> None
            | p # _ \<Rightarrow> do { assert_that (has (h p) RobEntry); Some (Some p) })
      else Some None)"

definition findInst :: "ThreadID \<Rightarrow> InstSeqNum \<Rightarrow> inst_store \<Rightarrow> ROB \<Rightarrow> inst_ptr option" where
  "findInst tid sn h b = find (\<lambda>p. seqNum (h p) = sn) (rob_instList b tid)"

definition isHeadReady :: "ThreadID \<Rightarrow> inst_store \<Rightarrow> ROB \<Rightarrow> bool" where
  "isHeadReady tid h b \<longleftrightarrow>
     threadEntries b tid \<noteq> 0 \<and> rob_instList b tid \<noteq> [] \<and> has (h (hd (rob_instList b tid))) CanCommit"

definition rob_canCommit :: "ThreadID list \<Rightarrow> inst_store \<Rightarrow> ROB \<Rightarrow> bool" where
  "rob_canCommit activeThreads h b \<longleftrightarrow> list_ex (\<lambda>tid. isHeadReady tid h b) activeThreads"

section \<open>Safety marking\<close>

definition leaveRunaheadMode :: "ThreadID \<Rightarrow> ROB \<Rightarrow> ROB option" where
  "leaveRunaheadMode tid b =
     do {
       assert_that (inRunaheadMode b tid);
       Some (b\<lparr>inRunaheadMode := (inRunaheadMode b)(tid := False)\<rparr>)
     }"

text \<open>
  The counter is a signed and the threshold an unsigned integer: the comparison is on
  unsigned values. \<open>lsq_age\<close> is the load/store queue's age of the eldest load a branch waits
  for.
\<close>

definition ShouldEnterRunaheadMode :: "cd_flags \<Rightarrow> nat \<Rightarrow> ThreadID \<Rightarrow> ROB \<Rightarrow> bool" where
  "ShouldEnterRunaheadMode fl lsq_age tid b \<longleftrightarrow>
     (CD_Runahead_ifMoreThanNBranches fl \<and>
        numInstThatMayCauseSquash b tid mod 2 ^ 32 > int (runaheadROBThreshold b)) \<or>
     (CD_Runahead_ifBranchLoadIsStalling fl \<and> lsq_age > runaheadLoadAgeThreshhold b)"

definition unsafe_until_retirement :: "cd_flags \<Rightarrow> dyn_inst \<Rightarrow> bool" where
  "unsafe_until_retirement fl i \<longleftrightarrow> CD_MarkUnsafeIf_LoadtInstruction fl \<and> sflag i IsLoad"

text \<open>
  The loop over a range of the list: \<open>n\<close> counts the instructions woken so far, and the walk
  ends at the first instruction that may squash others.
\<close>

fun markFollowingInstructionsAsSafe ::
  "cd_flags \<Rightarrow> 'e wake_fun \<Rightarrow> nat \<Rightarrow> inst_ptr list \<Rightarrow> nat \<Rightarrow> inst_store \<times> 'e \<Rightarrow>
     (nat \<times> inst_store \<times> 'e) option" where
  "markFollowingInstructionsAsSafe fl wake mx [] n s = Some (n, s)"
| "markFollowingInstructionsAsSafe fl wake mx (p # ps) n (h, e) =
     (if \<not> n < mx then Some (n, h, e)
      else do {
        (n, h, e) \<leftarrow>
          (if \<not> has (h p) Squashed \<and> has (h p) Unsafe \<and> \<not> unsafe_until_retirement fl (h p)
           then let h = upd_inst p (reset_status Unsafe) h in
             if has (h p) WritebackDone
             then do { (h, e) \<leftarrow> wake p (h, e); Some (n + 1, h, e) }
             else Some (n, h, e)
           else Some (n, h, e));
        if has (h p) MaySquashOthers then Some (n, h, e)
        else markFollowingInstructionsAsSafe fl wake mx ps n (h, e)
      })"

definition reduceNumMaySquashOthers ::
  "cd_flags \<Rightarrow> 'e wake_fun \<Rightarrow> ThreadID \<Rightarrow> int \<Rightarrow> nat \<Rightarrow> inst_store \<times> 'e \<times> ROB \<Rightarrow>
     (nat \<times> inst_store \<times> 'e \<times> ROB) option" where
  "reduceNumMaySquashOthers fl wake tid cleared mx s =
     (case s of (h, e, b) \<Rightarrow> do {
        let b = (if cleared > 0
                 then b\<lparr>numInstThatMayCauseSquash := (numInstThatMayCauseSquash b)
                          (tid := numInstThatMayCauseSquash b tid - cleared)\<rparr>
                 else b);
        (n, h, e) \<leftarrow> markFollowingInstructionsAsSafe fl wake mx (rob_instList b tid) 0 (h, e);
        Some (n, h, e, b)
      })"

section \<open>Insert and retire\<close>

text \<open>The status bits \<open>insertInst\<close> gives a new instruction, before the branch bookkeeping.\<close>

definition mark_new :: "cd_flags \<Rightarrow> int \<Rightarrow> bool \<Rightarrow> dyn_inst \<Rightarrow> dyn_inst" where
  "mark_new fl branches runahead i =
     (let i = set_status RobEntry i;
          i = (if branches > 0
               then if \<not> (CD_Allow_NonLoads_AfterBranch fl \<and> \<not> sflag i IsLoad)
                    then set_status Unsafe i else i
               else if CD_MarkUnsafeIf_LoadtInstruction fl \<and> sflag i IsLoad
               then set_status Unsafe i else i)
      in if runahead \<and> has i Unsafe then set_status Runahead i else i)"

definition push_inst :: "ThreadID \<Rightarrow> inst_ptr \<Rightarrow> ROB \<Rightarrow> ROB option" where
  "push_inst tid p b =
     (let b = b\<lparr>rob_instList := (rob_instList b)(tid := rob_instList b tid @ [p])\<rparr> in do {
        assert_that (numInstsInROB b = 0 \<longrightarrow> hd (rob_instList b tid) = p);
        Some (b\<lparr>rob_head := (if numInstsInROB b = 0 then Some (hd (rob_instList b tid)) else rob_head b),
                rob_tail := Some p\<rparr>)
      })"

text \<open>The branch bookkeeping: in runahead mode a new branch is not tracked.\<close>

definition note_branch :: "cd_flags \<Rightarrow> nat \<Rightarrow> ThreadID \<Rightarrow> inst_ptr \<Rightarrow> inst_store \<times> ROB \<Rightarrow> inst_store \<times> ROB" where
  "note_branch fl lsq_age tid p s =
     (case s of (h, b) \<Rightarrow>
        if has (h p) MaySquashOthers
        then if inRunaheadMode b tid
             then (upd_inst p (reset_status MaySquashOthers) h, b)
             else let b = b\<lparr>numInstThatMayCauseSquash := (numInstThatMayCauseSquash b)
                              (tid := numInstThatMayCauseSquash b tid + 1)\<rparr>
                  in if ShouldEnterRunaheadMode fl lsq_age tid b
                     then (upd_inst p (set_status Runahead) h,
                           b\<lparr>inRunaheadMode := (inRunaheadMode b)(tid := True)\<rparr>)
                     else (h, b)
        else (h, b))"

definition rob_insertInst ::
  "cd_flags \<Rightarrow> nat \<Rightarrow> inst_ptr \<Rightarrow> inst_store \<times> ROB \<Rightarrow> (inst_store \<times> ROB) option" where
  "rob_insertInst fl lsq_age p s =
     (case s of (h, b) \<Rightarrow>
        let tid = threadNumber (h p) in do {
          assert_that (numInstsInROB b \<noteq> rob_numEntries b);
          b \<leftarrow> push_inst tid p b;
          let h = upd_inst p (mark_new fl (numInstThatMayCauseSquash b tid) (inRunaheadMode b tid)) h;
          let (h, b) = note_branch fl lsq_age tid p (h, b);
          Some (h, b\<lparr>numInstsInROB := numInstsInROB b + 1,
                     threadEntries := (threadEntries b)(tid := threadEntries b tid + 1)\<rparr>)
        })"

text \<open>
  Retirement: a head that is still unsafe becomes safe and wakes its dependents; a head that
  may still squash others no longer counts.
\<close>

definition retire_unsafe :: "'e wake_fun \<Rightarrow> inst_ptr \<Rightarrow> inst_store \<times> 'e \<Rightarrow> (inst_store \<times> 'e) option" where
  "retire_unsafe wake p s =
     (case s of (h, e) \<Rightarrow>
        if has (h p) Unsafe \<and> \<not> has (h p) Squashed
        then wake p (upd_inst p (reset_status Unsafe) h, e)
        else Some (h, e))"

definition retire_branch ::
  "cd_flags \<Rightarrow> 'e wake_fun \<Rightarrow> ThreadID \<Rightarrow> inst_ptr \<Rightarrow> inst_store \<times> 'e \<times> ROB \<Rightarrow> (inst_store \<times> 'e \<times> ROB) option" where
  "retire_branch fl wake tid p s =
     (case s of (h, e, b) \<Rightarrow>
        if has (h p) MaySquashOthers
        then do {
          assert_that (\<not> has (h p) Squashed);
          (n, h, e) \<leftarrow> markFollowingInstructionsAsSafe fl wake 1 [p] 0
                         (upd_inst p (reset_status MaySquashOthers) h, e);
          Some (h, e, b\<lparr>numInstThatMayCauseSquash := (numInstThatMayCauseSquash b)
                          (tid := numInstThatMayCauseSquash b tid - 1)\<rparr>)
        }
        else Some (h, e, b))"

definition retireHead ::
  "cd_flags \<Rightarrow> 'e wake_fun \<Rightarrow> ThreadID list \<Rightarrow> ThreadID \<Rightarrow> inst_store \<times> 'e \<times> ROB \<Rightarrow>
     (inst_store \<times> 'e \<times> ROB) option" where
  "retireHead fl wake activeThreads tid s =
     (case s of (h, e, b) \<Rightarrow>
        (case rob_instList b tid of
           [] \<Rightarrow> None
         | p # rest \<Rightarrow> do {
             assert_that (numInstsInROB b > 0);
             assert_that (has (h p) CanCommit);
             let b = b\<lparr>numInstsInROB := numInstsInROB b - 1,
                       threadEntries := (threadEntries b)(tid := threadEntries b tid - 1)\<rparr>;
             let h = upd_inst p (set_status Committed \<circ> reset_status RobEntry) h;
             (h, e) \<leftarrow> retire_unsafe wake p (h, e);
             (h, e, b) \<leftarrow> retire_branch fl wake tid p (h, e, b);
             Some (h, e, updateHead activeThreads h
                           (b\<lparr>rob_instList := (rob_instList b)(tid := rest)\<rparr>))
           }))"

section \<open>Squash\<close>

text \<open>
  The instruction at the squash iterator: it may drain out of the pipeline, and if it may
  squash others it is resolved, which ends runahead mode if it started it. The last
  component counts the branches resolved.
\<close>

definition resolve_branch :: "ThreadID \<Rightarrow> inst_ptr \<Rightarrow> inst_store \<times> ROB \<times> int \<Rightarrow> (inst_store \<times> ROB \<times> int) option" where
  "resolve_branch tid p s =
     (case s of (h, b, c) \<Rightarrow>
        if has (h p) MaySquashOthers
        then let h = upd_inst p (reset_status MaySquashOthers) h in
          if has (h p) Runahead
          then do {
            b \<leftarrow> leaveRunaheadMode tid b;
            Some (upd_inst p (reset_status Runahead) h, b, c + 1)
          }
          else Some (h, b, c + 1)
        else Some (h, b, c))"

definition squash_inst :: "ThreadID \<Rightarrow> inst_ptr \<Rightarrow> inst_store \<times> ROB \<times> int \<Rightarrow> (inst_store \<times> ROB \<times> int) option" where
  "squash_inst tid p s =
     (case s of (h, b, c) \<Rightarrow>
        resolve_branch tid p (upd_inst p (set_status CanCommit \<circ> set_status Squashed) h, b, c))"

text \<open>
  The loop from the iterator towards the head: the list is the instruction at the iterator
  and the older ones. The Boolean results say whether the loop reached the head of the list
  (the jump to \<open>out\<close>) and whether the thread's tail was squashed on the way.
\<close>

fun rob_squash_loop ::
  "ThreadID \<Rightarrow> bool \<Rightarrow> nat \<Rightarrow> inst_ptr list \<Rightarrow> bool \<Rightarrow> inst_store \<times> ROB \<times> int \<Rightarrow>
     (bool \<times> bool \<times> inst_store \<times> ROB \<times> int) option" where
  "rob_squash_loop tid single n [] tu s = None"
| "rob_squash_loop tid single n (p # older) tu (h, b, c) =
     (if (n < squashWidth b \<or> single) \<and> seqNum (h p) > rob_squashedSeqNum b tid
      then do {
        (h, b, c) \<leftarrow> squash_inst tid p (h, b, c);
        (case older of
           [] \<Rightarrow> Some (True, tu, h,
                       b\<lparr>squashIt := (squashIt b)(tid := None),
                         doneSquashing := (doneSquashing b)(tid := True)\<rparr>, c)
         | r # _ \<Rightarrow>
             rob_squash_loop tid single (n + 1) older (tu \<or> p = last (rob_instList b tid))
               (h, b\<lparr>squashIt := (squashIt b)(tid := Some r)\<rparr>, c))
      }
      else Some (False, tu, h, b, c))"

text \<open>The instruction at the iterator and everything older, youngest first.\<close>

definition from_iterator :: "inst_ptr \<Rightarrow> inst_ptr list \<Rightarrow> inst_ptr list" where
  "from_iterator p l = p # rev (takeWhile (\<lambda>x. x \<noteq> p) l)"

definition check_done ::
  "ThreadID \<Rightarrow> inst_store \<times> ROB \<times> int \<Rightarrow> (inst_store \<times> ROB \<times> int) option" where
  "check_done tid s =
     (case s of (h, b, c) \<Rightarrow> do {
        p \<leftarrow> squashIt b tid;
        if seqNum (h p) \<le> rob_squashedSeqNum b tid
        then do {
          (h, b, c) \<leftarrow> (if seqNum (h p) = rob_squashedSeqNum b tid
                        then resolve_branch tid p (h, b, c) else Some (h, b, c));
          Some (h, b\<lparr>squashIt := (squashIt b)(tid := None),
                     doneSquashing := (doneSquashing b)(tid := True)\<rparr>, c)
        }
        else Some (h, b, c)
      })"

definition rob_doSquash ::
  "cd_flags \<Rightarrow> 'e wake_fun \<Rightarrow> ThreadID list \<Rightarrow> bool \<Rightarrow> ThreadID \<Rightarrow> inst_store \<times> 'e \<times> ROB \<Rightarrow>
     (inst_store \<times> 'e \<times> ROB) option" where
  "rob_doSquash fl wake activeThreads single tid s =
     (case s of (h, e, b) \<Rightarrow> do {
        p \<leftarrow> squashIt b tid;
        if seqNum (h p) < rob_squashedSeqNum b tid
        then Some (h, e, b\<lparr>squashIt := (squashIt b)(tid := None),
                           doneSquashing := (doneSquashing b)(tid := True)\<rparr>)
        else do {
          (out, tu, h, b, c) \<leftarrow>
            rob_squash_loop tid single 0 (from_iterator p (rob_instList b tid)) False (h, b, 0);
          (h, b, c) \<leftarrow> (if out then Some (h, b, c)
                        else do {
                          (h, b, c) \<leftarrow> check_done tid (h, b, c);
                          Some (h, if tu then updateTail activeThreads h b else b, c)
                        });
          let mx = (if CD_LimitWakeDependandsToWBWidth fl then 0 else nat (rob_maxEntries b tid));
          (_, h, e, b) \<leftarrow> reduceNumMaySquashOthers fl wake tid c mx (h, e, b);
          Some (h, e, b)
        }
      })"

definition rob_squash ::
  "cd_flags \<Rightarrow> 'e wake_fun \<Rightarrow> ThreadID list \<Rightarrow> InstSeqNum \<Rightarrow> ThreadID \<Rightarrow> bool \<Rightarrow> inst_store \<times> 'e \<times> ROB \<Rightarrow>
     (inst_store \<times> 'e \<times> ROB) option" where
  "rob_squash fl wake activeThreads squash_num tid single s =
     (case s of (h, e, b) \<Rightarrow>
        if rob_isEmpty tid b then Some (h, e, b)
        else let b = b\<lparr>robStatus := (robStatus b)(tid := ROBSquashing),
                       doneSquashing := (doneSquashing b)(tid := False),
                       rob_squashedSeqNum := (rob_squashedSeqNum b)(tid := squash_num)\<rparr> in
          if rob_instList b tid \<noteq> []
          then rob_doSquash fl wake activeThreads single tid
                 (h, e, b\<lparr>squashIt := (squashIt b)(tid := Some (last (rob_instList b tid)))\<rparr>)
          else Some (h, e, b))"

section \<open>Interface to the wakeup\<close>

text \<open>
  What the buffer and its clients read of an instruction: everything the instruction queue
  leaves alone.
\<close>

definition rob_view :: "dyn_inst \<Rightarrow> InstSeqNum \<times> ThreadID \<times> StaticInst \<times> PhysRegId list \<times> Status set" where
  "rob_view i = (seqNum i, threadNumber i, staticInst i, dest_regs i, status i - {CanIssue, IqEntry})"

lemma status_frame [simp]:
  "seqNum (set_status b i) = seqNum i" "seqNum (reset_status b i) = seqNum i"
  "threadNumber (set_status b i) = threadNumber i" "threadNumber (reset_status b i) = threadNumber i"
  "staticInst (set_status b i) = staticInst i" "staticInst (reset_status b i) = staticInst i"
  "dest_regs (set_status b i) = dest_regs i" "dest_regs (reset_status b i) = dest_regs i"
  "status (set_status b i) = insert b (status i)" "status (reset_status b i) = status i - {b}"
  by (simp_all add: set_status_def reset_status_def dest_regs_def)

text \<open>\<open>renames i k\<close>: the register with flat index \<open>k\<close> is a renamed destination of \<open>i\<close>.\<close>

definition renames :: "dyn_inst \<Rightarrow> nat \<Rightarrow> bool" where
  "renames i k \<longleftrightarrow> (\<exists>r\<in>set (dest_regs i). \<not> isFixedMapping r \<and> flatIdx r = k)"

lemma rob_viewD:
  assumes "rob_view i = rob_view j"
  shows "seqNum i = seqNum j" and "threadNumber i = threadNumber j" and "staticInst i = staticInst j"
    and "dest_regs i = dest_regs j" and "renames i k = renames j k" and "b \<noteq> CanIssue \<Longrightarrow> b \<noteq> IqEntry \<Longrightarrow> has i b = has j b"
  using assms by (auto simp: rob_view_def renames_def)

text \<open>
  The wakeup of an instruction's dependents: it changes no more of an instruction than
  whether it can issue, and makes exactly the renamed destinations of the instruction ready.
\<close>

locale waker =
  fixes wake :: "inst_ptr \<Rightarrow> inst_store \<times> 'e \<Rightarrow> (inst_store \<times> 'e) option"
    and ready :: "'e \<Rightarrow> nat \<Rightarrow> bool"
  assumes wake_view: "wake p (h, e) = Some (h', e') \<Longrightarrow> rob_view (h' q) = rob_view (h q)"
    and wake_ready: "wake p (h, e) = Some (h', e') \<Longrightarrow> ready e' k = (ready e k \<or> renames (h p) k)"

section \<open>Safety marking is exact\<close>

text \<open>The instructions up to and including the first that may squash others.\<close>

fun unshadowed :: "inst_store \<Rightarrow> inst_ptr list \<Rightarrow> inst_ptr list" where
  "unshadowed h [] = []"
| "unshadowed h (p # ps) = (if has (h p) MaySquashOthers then [p] else p # unshadowed h ps)"

lemma unshadowed_subset: "set (unshadowed h l) \<subseteq> set l"
  by (induction l) auto

lemma unshadowed_cong:
  "(\<And>q. has (h' q) MaySquashOthers = has (h q) MaySquashOthers) \<Longrightarrow> unshadowed h' l = unshadowed h l"
  by (induction l) auto

text \<open>The effect of the walk on an instruction: only the unsafe mark goes.\<close>

definition safe_step :: "inst_store \<Rightarrow> inst_store \<Rightarrow> bool" where
  "safe_step h h' \<longleftrightarrow> (\<forall>q. rob_view (reset_status Unsafe (h' q)) = rob_view (reset_status Unsafe (h q)) \<and>
                           (has (h' q) Unsafe \<longrightarrow> has (h q) Unsafe))"

lemma safe_stepD:
  assumes "safe_step h h'"
  shows "seqNum (h' q) = seqNum (h q)" and "threadNumber (h' q) = threadNumber (h q)"
    and "staticInst (h' q) = staticInst (h q)" and "dest_regs (h' q) = dest_regs (h q)"
    and "renames (h' q) k = renames (h q) k"
    and "b \<noteq> CanIssue \<Longrightarrow> b \<noteq> IqEntry \<Longrightarrow> b \<noteq> Unsafe \<Longrightarrow> has (h' q) b = has (h q) b"
    and "has (h' q) Unsafe \<Longrightarrow> has (h q) Unsafe"
proof -
  have v: "rob_view (reset_status Unsafe (h' q)) = rob_view (reset_status Unsafe (h q))"
    using assms by (simp add: safe_step_def)
  then show "seqNum (h' q) = seqNum (h q)" "threadNumber (h' q) = threadNumber (h q)"
    "staticInst (h' q) = staticInst (h q)" "dest_regs (h' q) = dest_regs (h q)" "renames (h' q) k = renames (h q) k"
    by (simp_all add: rob_view_def renames_def)
  show "has (h' q) b = has (h q) b" if "b \<noteq> CanIssue" "b \<noteq> IqEntry" "b \<noteq> Unsafe"
    using v that by (auto simp: rob_view_def)
  show "has (h' q) Unsafe \<Longrightarrow> has (h q) Unsafe" using assms by (simp add: safe_step_def)
qed

lemma safe_step_refl: "safe_step h h"
  by (simp add: safe_step_def)

lemma safe_step_trans: "safe_step h1 h2 \<Longrightarrow> safe_step h2 h3 \<Longrightarrow> safe_step h1 h3"
  by (simp add: safe_step_def)

lemma safe_step_clear: "safe_step h (upd_inst p (reset_status Unsafe) h)"
  by (simp add: safe_step_def upd_inst_apply rob_view_def)

text \<open>
  The outcome of the walk. Marks go only from unsquashed instructions before the shadow of
  the first branch; if the wakeup budget suffices, all of them go; and the registers
  that become ready are those of the instructions that lose the mark after their writeback.
\<close>

fun marked ::
  "('e \<Rightarrow> nat \<Rightarrow> bool) \<Rightarrow> cd_flags \<Rightarrow> nat \<Rightarrow> inst_ptr list \<Rightarrow> nat \<times> inst_store \<times> 'e \<Rightarrow> nat \<times> inst_store \<times> 'e \<Rightarrow> bool" where
  "marked ready fl mx l (n, h, e) (n', h', e') \<longleftrightarrow>
    safe_step h h' \<and> n \<le> n' \<and> n' \<le> max n mx \<and>
    (\<forall>q. has (h q) Unsafe \<and> \<not> has (h' q) Unsafe \<longrightarrow>
       q \<in> set (unshadowed h l) \<and> \<not> has (h q) Squashed \<and> \<not> unsafe_until_retirement fl (h q)) \<and>
    (n' < mx \<or> n + length l \<le> mx \<longrightarrow> (\<forall>q\<in>set (unshadowed h l). has (h' q) Unsafe \<longrightarrow>
       has (h q) Squashed \<or> unsafe_until_retirement fl (h q))) \<and>
    (\<forall>k. ready e' k = (ready e k \<or>
       (\<exists>q. has (h q) Unsafe \<and> \<not> has (h' q) Unsafe \<and> has (h q) WritebackDone \<and> renames (h q) k)))"

lemma markedD:
  assumes "marked ready fl mx l (n, h, e) (n', h', e')"
  shows "safe_step h h'" and "n \<le> n'" and "n' \<le> max n mx"
    and "has (h q) Unsafe \<Longrightarrow> \<not> has (h' q) Unsafe \<Longrightarrow>
       q \<in> set (unshadowed h l) \<and> \<not> has (h q) Squashed \<and> \<not> unsafe_until_retirement fl (h q)"
    and "n' < mx \<or> n + length l \<le> mx \<Longrightarrow> q \<in> set (unshadowed h l) \<Longrightarrow> has (h' q) Unsafe \<Longrightarrow>
       has (h q) Squashed \<or> unsafe_until_retirement fl (h q)"
    and "ready e' k = (ready e k \<or>
       (\<exists>q. has (h q) Unsafe \<and> \<not> has (h' q) Unsafe \<and> has (h q) WritebackDone \<and> renames (h q) k))"
  using assms unfolding marked.simps by blast+

text \<open>What the walk does at one instruction.\<close>

fun marked_one ::
  "('e \<Rightarrow> nat \<Rightarrow> bool) \<Rightarrow> cd_flags \<Rightarrow> inst_ptr \<Rightarrow> nat \<times> inst_store \<times> 'e \<Rightarrow> nat \<times> inst_store \<times> 'e \<Rightarrow> bool" where
  "marked_one ready fl p (n, h, e) (n', h', e') \<longleftrightarrow>
    safe_step h h' \<and> n \<le> n' \<and> n' \<le> n + 1 \<and>
    (\<forall>q. has (h' q) Unsafe = (has (h q) Unsafe \<and>
       (q = p \<longrightarrow> has (h p) Squashed \<or> unsafe_until_retirement fl (h p)))) \<and>
    (\<forall>k. ready e' k = (ready e k \<or>
       (has (h p) Unsafe \<and> \<not> has (h' p) Unsafe \<and> has (h p) WritebackDone \<and> renames (h p) k)))"

lemma marked_oneD:
  assumes "marked_one ready fl p (n, h, e) (n', h', e')"
  shows "safe_step h h'" and "n \<le> n'" and "n' \<le> n + 1"
    and "has (h' q) Unsafe = (has (h q) Unsafe \<and>
       (q = p \<longrightarrow> has (h p) Squashed \<or> unsafe_until_retirement fl (h p)))"
    and "ready e' k = (ready e k \<or>
       (has (h p) Unsafe \<and> \<not> has (h' p) Unsafe \<and> has (h p) WritebackDone \<and> renames (h p) k))"
  using assms unfolding marked_one.simps by blast+

text \<open>The walk stops at an instruction that may squash others.\<close>

lemma marked_stop:
  assumes m: "marked_one ready fl p (n, h, e) (n', h', e')" and n: "n < mx" and b: "has (h p) MaySquashOthers"
  shows "marked ready fl mx (p # ps) (n, h, e) (n', h', e')"
proof -
  note M = marked_oneD [OF m]
  have u: "set (unshadowed h (p # ps)) = {p}" using b by simp
  have "n' \<le> max n mx" using M(3) n by simp
  moreover have "ready e' k = (ready e k \<or>
       (\<exists>q. has (h q) Unsafe \<and> \<not> has (h' q) Unsafe \<and> has (h q) WritebackDone \<and> renames (h q) k))" for k
    using M(4,5) by blast
  ultimately show ?thesis unfolding marked.simps u using M(1,2,4) by blast
qed

text \<open>Past an instruction that may not, the walk goes on from the state it left.\<close>

lemma marked_go:
  assumes m: "marked_one ready fl p (n, h, e) (n1, h1, e1)" and n: "n < mx"
    and b: "\<not> has (h p) MaySquashOthers" and r: "marked ready fl mx ps (n1, h1, e1) (n', h', e')"
  shows "marked ready fl mx (p # ps) (n, h, e) (n', h', e')"
proof -
  note M = marked_oneD [OF m] and R = markedD [OF r] and S = safe_stepD [OF marked_oneD(1) [OF m]]
  have same: "has (h1 q) Squashed = has (h q) Squashed" "has (h1 q) WritebackDone = has (h q) WritebackDone"
    "unsafe_until_retirement fl (h1 q) = unsafe_until_retirement fl (h q)" "renames (h1 q) k = renames (h q) k" for q k
    using S by (simp_all add: unsafe_until_retirement_def)
  have ps: "unshadowed h1 ps = unshadowed h ps" by (rule unshadowed_cong) (simp add: S)
  have u: "set (unshadowed h (p # ps)) = insert p (set (unshadowed h ps))" using b by simp
  have mono: "has (h' q) Unsafe \<Longrightarrow> has (h1 q) Unsafe" for q using safe_stepD(7) [OF R(1)] .
  have "ready e' k = (ready e k \<or>
       (\<exists>q. has (h q) Unsafe \<and> \<not> has (h' q) Unsafe \<and> has (h q) WritebackDone \<and> renames (h q) k))" for k
    using R(6) [of k] M(5) [of k] M(4) mono unfolding same by blast
  moreover have "q \<in> set (unshadowed h (p # ps)) \<and> \<not> has (h q) Squashed \<and> \<not> unsafe_until_retirement fl (h q)"
    if "has (h q) Unsafe" "\<not> has (h' q) Unsafe" for q
    using that R(4) [of q] M(4) [of q] unfolding same ps u by blast
  moreover have "has (h q) Squashed \<or> unsafe_until_retirement fl (h q)"
    if "n' < mx \<or> n + length (p # ps) \<le> mx" "q \<in> set (unshadowed h (p # ps))" "has (h' q) Unsafe" for q
  proof -
    have "n' < mx \<or> n1 + length ps \<le> mx" using that(1) M(3) by auto
    then show ?thesis using that(2,3) R(5) [of q] M(4) [of q] mono [of q] unfolding same ps u by blast
  qed
  moreover have "n \<le> n'" "n' \<le> max n mx" using M(2,3) R(2,3) n by auto
  ultimately show ?thesis unfolding marked.simps using safe_step_trans [OF M(1) R(1)] by blast
qed

context waker
begin

lemma wake_safe_step: "wake p (h, e) = Some (h', e') \<Longrightarrow> safe_step h h'"
proof -
  assume "wake p (h, e) = Some (h', e')"
  then have v: "rob_view (h' q) = rob_view (h q)" for q by (rule wake_view)
  have "rob_view (reset_status Unsafe (h' q)) = rob_view (reset_status Unsafe (h q))" for q
    using v [of q] by (auto simp: rob_view_def)
  moreover have "has (h' q) Unsafe = has (h q) Unsafe" for q using rob_viewD(6) [OF v] by simp
  ultimately show ?thesis by (simp add: safe_step_def)
qed

lemma mark_one:
  assumes "(if \<not> has (h p) Squashed \<and> has (h p) Unsafe \<and> \<not> unsafe_until_retirement fl (h p)
           then let h = upd_inst p (reset_status Unsafe) h in
             if has (h p) WritebackDone
             then do { (h, e) \<leftarrow> wake p (h, e); Some (n + 1, h, e) }
             else Some (n, h, e)
           else Some (n :: nat, h, e)) = Some (n', h', e')"
  shows "marked_one ready fl p (n, h, e) (n', h', e')"
proof (cases "\<not> has (h p) Squashed \<and> has (h p) Unsafe \<and> \<not> unsafe_until_retirement fl (h p)")
  case True
  let ?h = "upd_inst p (reset_status Unsafe) h"
  have c: "safe_step h ?h" by (rule safe_step_clear)
  have wd: "has (?h p) WritebackDone = has (h p) WritebackDone" by (rule safe_stepD(6) [OF c]) auto
  have un: "has (?h q) Unsafe = (has (h q) Unsafe \<and> q \<noteq> p)" for q by (simp add: upd_inst_apply)
  show ?thesis
  proof (cases "has (h p) WritebackDone")
    case w: True
    with True wd assms have wk: "wake p (?h, e) = Some (h', e')" and n: "n' = n + 1"
      by (auto simp: Let_def bind_eq_Some_conv)
    have v: "has (h' q) Unsafe = has (?h q) Unsafe" for q using rob_viewD(6) [OF wake_view [OF wk]] by simp
    have "ready e' k = (ready e k \<or> renames (h p) k)" for k
      using wake_ready [OF wk] safe_stepD(5) [OF c] by simp
    with v True w n un show ?thesis using safe_step_trans [OF c wake_safe_step [OF wk]] by simp
  next
    case False
    with True wd assms show ?thesis using c un by (auto simp: Let_def)
  qed
next
  case False
  with assms show ?thesis by (auto simp: safe_step_refl)
qed

lemma mark_spec:
  assumes "markFollowingInstructionsAsSafe fl wake mx l n (h, e) = Some (n', h', e')"
  shows "marked ready fl mx l (n, h, e) (n', h', e')"
  using assms
proof (induction l arbitrary: n h e)
  case Nil
  then show ?case by (auto simp: safe_step_refl)
next
  case (Cons p ps)
  show ?case
  proof (cases "n < mx")
    case False
    with Cons.prems show ?thesis by (auto simp: safe_step_refl)
  next
    case True
    then obtain n1 h1 e1 where one: "(if \<not> has (h p) Squashed \<and> has (h p) Unsafe \<and> \<not> unsafe_until_retirement fl (h p)
           then let h = upd_inst p (reset_status Unsafe) h in
             if has (h p) WritebackDone
             then do { (h, e) \<leftarrow> wake p (h, e); Some (n + 1, h, e) }
             else Some (n, h, e)
           else Some (n, h, e)) = Some (n1, h1, e1)"
      and rest: "(if has (h1 p) MaySquashOthers then Some (n1, h1, e1)
         else markFollowingInstructionsAsSafe fl wake mx ps n1 (h1, e1)) = Some (n', h', e')"
      using Cons.prems by (auto simp: bind_eq_Some_conv simp del: if_split)
    note m = mark_one [OF one]
    have may: "has (h1 p) MaySquashOthers = has (h p) MaySquashOthers"
      using safe_stepD(6) [OF marked_oneD(1) [OF m]] by simp
    show ?thesis
    proof (cases "has (h p) MaySquashOthers")
      case b: True
      with rest may have "n1 = n'" "h1 = h'" "e1 = e'" by auto
      with marked_stop [OF m True b] show ?thesis by simp
    next
      case False
      with rest may have "marked ready fl mx ps (n1, h1, e1) (n', h', e')" using Cons.IH by simp
      then show ?thesis by (rule marked_go [OF m True False])
    qed
  qed
qed

end

end
