(* ===== verification/Iew.thy ===== *)
theory Iew
  imports Rob
begin

text \<open>
  The issue/execute/writeback stage (\<open>cpu/o3/iew.hh\<close>, \<open>cpu/o3/iew_impl.hh\<close>), the part that
  decides when results become visible: the resolution of a branch after its execution, the
  squash signals to commit, writeback, and the per-cycle call that lets the reorder buffer
  mark instructions safe.

  The functional result of executing an instruction (whether it was mispredicted, whether
  the load/store queue found an ordering violation, whether the accessed address is
  protected) is an argument. As in the reorder buffer, the wakeup of dependents is a
  parameter on a state of an arbitrary type; \<open>violate\<close> is the call that tells the dependence
  predictor of a violation.
\<close>

section \<open>State\<close>

text \<open>
  The signals to commit are the fields of the slot of the time buffer written this cycle.
  \<open>zeroedOutputs\<close> is the log of the writes that \<open>runaheadZeroOutputRegs\<close> makes to the
  register file: the instruction and the destination operands written with zero.
\<close>

record IEW =
  fetchRedirect :: "ThreadID \<Rightarrow> bool"
  tc_squash :: "ThreadID \<Rightarrow> bool"
  tc_squashedSeqNum :: "ThreadID \<Rightarrow> InstSeqNum"
  tc_mispredictInst :: "ThreadID \<Rightarrow> inst_ptr option"
  tc_includeSquashInst :: "ThreadID \<Rightarrow> bool"
  numWokenInstructions :: nat
  numClearedMaySquashOthers :: "ThreadID \<Rightarrow> int"
  wbWidth :: nat
  zeroedOutputs :: "(inst_ptr \<times> nat list) list"

section \<open>Squash signals\<close>

definition squashDueToBranch :: "inst_ptr \<Rightarrow> ThreadID \<Rightarrow> inst_store \<Rightarrow> IEW \<Rightarrow> IEW" where
  "squashDueToBranch p tid h w =
     (if \<not> tc_squash w tid \<or> seqNum (h p) < tc_squashedSeqNum w tid
      then w\<lparr>tc_squash := (tc_squash w)(tid := True),
             tc_squashedSeqNum := (tc_squashedSeqNum w)(tid := seqNum (h p)),
             tc_mispredictInst := (tc_mispredictInst w)(tid := Some p),
             tc_includeSquashInst := (tc_includeSquashInst w)(tid := False)\<rparr>
      else w)"

definition squashDueToMemOrder :: "inst_ptr \<Rightarrow> ThreadID \<Rightarrow> inst_store \<Rightarrow> IEW \<Rightarrow> IEW" where
  "squashDueToMemOrder p tid h w =
     (if \<not> tc_squash w tid \<or> seqNum (h p) \<le> tc_squashedSeqNum w tid
      then w\<lparr>tc_squash := (tc_squash w)(tid := True),
             tc_squashedSeqNum := (tc_squashedSeqNum w)(tid := seqNum (h p)),
             tc_mispredictInst := (tc_mispredictInst w)(tid := None),
             tc_includeSquashInst := (tc_includeSquashInst w)(tid := True)\<rparr>
      else w)"

section \<open>Branch resolution\<close>

text \<open>
  The end of the loop body of \<open>executeInsts\<close>: a misprediction or an ordering violation asks
  commit for a squash; a branch that resolves correctly ends runahead mode if it started
  it, and otherwise stops shadowing others.
\<close>

definition resolve_executed ::
  "cd_flags \<Rightarrow> (inst_ptr \<Rightarrow> inst_ptr \<Rightarrow> inst_store \<times> 'e \<Rightarrow> (inst_store \<times> 'e) option) \<Rightarrow>
     inst_ptr \<times> bool \<times> inst_ptr option \<Rightarrow> inst_store \<times> 'e \<times> IEW \<Rightarrow> (inst_store \<times> 'e \<times> IEW) option" where
  "resolve_executed fl violate ev s =
     (case ev of (p, mispredicted, violator) \<Rightarrow>
      case s of (h, e, w) \<Rightarrow>
        let tid = threadNumber (h p);
            redirected = w\<lparr>fetchRedirect := (fetchRedirect w)(tid := True)\<rparr>;
            loadNotExecuted = (\<not> has (h p) Executed \<and> sflag (h p) IsLoad)
        in
        if \<not> fetchRedirect w tid \<or> \<not> tc_squash w tid \<or> tc_squashedSeqNum w tid > seqNum (h p)
        then if mispredicted \<and> \<not> loadNotExecuted
             then Some (h, e, squashDueToBranch p tid h redirected)
             else (case violator of
                Some v \<Rightarrow> do {
                  assert_that (sflag (h p) IsMemRef);
                  (h, e) \<leftarrow> violate p v (h, e);
                  Some (h, e, squashDueToMemOrder v tid h redirected)
                }
              | None \<Rightarrow>
                  if has (h p) MaySquashOthers
                  then if has (h p) Runahead
                       then Some (h, e, squashDueToBranch p tid h redirected)
                       else if CD_Clear_MaySquash_AtExec fl
                       then Some (upd_inst p (reset_status MaySquashOthers) h, e,
                                  w\<lparr>numClearedMaySquashOthers := (numClearedMaySquashOthers w)
                                      (tid := numClearedMaySquashOthers w tid + 1)\<rparr>)
                       else Some (h, e, w)
                  else Some (h, e, w))
        else do {
          assert_that (violator \<noteq> None \<longrightarrow> sflag (h p) IsMemRef);
          Some (h, e, w)
        })"

text \<open>
  Taint tracking under \<open>SS_DefendMemRegion\<close>: \<open>secureAddr\<close> says whether the instruction's
  effective address is protected. Outputs derived from protected data are tainted; an
  unsafe instruction that touches none becomes safe.
\<close>

definition checkIfOutputIsSpeculativelySecure ::
  "isa_params \<Rightarrow> (nat \<Rightarrow> bool) \<Rightarrow> nat \<Rightarrow> bool \<Rightarrow> inst_ptr \<Rightarrow> inst_store \<times> PhysRegId set \<Rightarrow>
     inst_store \<times> PhysRegId set" where
  "checkIfOutputIsSpeculativelySecure isa ignoreTaintMask rbp secureAddr p s =
     (case s of (h, taint) \<Rightarrow>
        let srcAddressIsSecureMem = (sflag (h p) IsLoad \<and> secureAddr);
            srcRegsAreTainted = isSrcRegsSecureSpec ignoreTaintMask rbp taint (h p)
        in if srcAddressIsSecureMem \<or> srcRegsAreTainted
           then let h = upd_inst p (set_status SecureSpec) h in
             if sflag (h p) IsLoad
             then if srcAddressIsSecureMem then (h, markDestRegsAsSecureSpec isa (h p) taint) else (h, taint)
             else (h, markDestRegsAsSecureSpec isa (h p) taint)
           else if has (h p) Unsafe then (upd_inst p (reset_status Unsafe) h, taint)
           else (h, taint))"

section \<open>Writeback\<close>

definition iew_wakeDependents :: "'e wake_fun \<Rightarrow> inst_ptr \<Rightarrow> inst_store \<times> 'e \<times> IEW \<Rightarrow> (inst_store \<times> 'e \<times> IEW) option" where
  "iew_wakeDependents wake p s =
     (case s of (h, e, w) \<Rightarrow> do {
        (h, e) \<leftarrow> wake p (h, e);
        Some (h, e, w\<lparr>numWokenInstructions := numWokenInstructions w + 1\<rparr>)
      })"

definition zero_and_wake :: "'e wake_fun \<Rightarrow> inst_ptr \<Rightarrow> inst_store \<times> 'e \<times> IEW \<Rightarrow> (inst_store \<times> 'e \<times> IEW) option" where
  "zero_and_wake wake p s =
     (case s of (h, e, w) \<Rightarrow> do {
        zeroed \<leftarrow> runaheadZeroOutputRegs (h p);
        iew_wakeDependents wake p (h, e, w\<lparr>zeroedOutputs := zeroedOutputs w @ [(p, zeroed)]\<rparr>)
      })"

definition writeback_inst ::
  "cd_flags \<Rightarrow> 'e wake_fun \<Rightarrow> inst_ptr \<Rightarrow> inst_store \<times> 'e \<times> IEW \<Rightarrow> (inst_store \<times> 'e \<times> IEW) option" where
  "writeback_inst fl wake p s =
     (case s of (h, e, w) \<Rightarrow>
        if \<not> has (h p) Squashed \<and> has (h p) Executed \<and> fault (h p) = None
        then do {
          (h, e, w) \<leftarrow>
            (if \<not> has (h p) Unsafe then iew_wakeDependents wake p (h, e, w)
             else if has (h p) Runahead
             then if CD_Runahead_QuickOutputPropagation fl \<and> sflag (h p) IsLoad then Some (h, e, w)
                  else zero_and_wake wake p (h, e, w)
             else Some (h, e, w));
          Some (upd_inst p (set_status WritebackDone) h, e, w)
        }
        else if CD_Runahead_QuickOutputPropagation fl \<and> \<not> has (h p) Squashed \<and> \<not> has (h p) Executed \<and>
                has (h p) Runahead \<and> sflag (h p) IsLoad
        then do {
          assert_that (\<not> has (h p) WritebackDone);
          zero_and_wake wake p (h, e, w)
        }
        else Some (h, e, w))"

text \<open>\<open>toCommit\<close> lists the instructions in the slot; at most \<open>wbWidth\<close> of them are handled.\<close>

definition writebackInsts ::
  "cd_flags \<Rightarrow> 'e wake_fun \<Rightarrow> inst_ptr list \<Rightarrow> inst_store \<times> 'e \<times> IEW \<Rightarrow> (inst_store \<times> 'e \<times> IEW) option" where
  "writebackInsts fl wake toCommit s =
     (case s of (h, e, w) \<Rightarrow> foldM (writeback_inst fl wake) (take (wbWidth w) toCommit) (h, e, w))"

section \<open>Safety update and cycle\<close>

definition update_thread ::
  "cd_flags \<Rightarrow> 'e wake_fun \<Rightarrow> ThreadID \<Rightarrow> inst_store \<times> 'e \<times> ROB \<times> IEW \<Rightarrow> (inst_store \<times> 'e \<times> ROB \<times> IEW) option" where
  "update_thread fl wake tid s =
     (case s of (h, e, b, w) \<Rightarrow> do {
        assert_that (CD_LimitWakeDependandsToWBWidth fl \<longrightarrow> wbWidth w \<ge> numWokenInstructions w);
        let maxWakeups = (if CD_LimitWakeDependandsToWBWidth fl
                          then wbWidth w - numWokenInstructions w else nat (rob_maxEntries b tid));
        (n, h, e, b) \<leftarrow> reduceNumMaySquashOthers fl wake tid (numClearedMaySquashOthers w tid) maxWakeups (h, e, b);
        Some (h, e, b, w\<lparr>numWokenInstructions := numWokenInstructions w + n\<rparr>)
      })"

definition updateMaySquashStatusInROB ::
  "cd_flags \<Rightarrow> 'e wake_fun \<Rightarrow> ThreadID list \<Rightarrow> inst_store \<times> 'e \<times> ROB \<times> IEW \<Rightarrow>
     (inst_store \<times> 'e \<times> ROB \<times> IEW) option" where
  "updateMaySquashStatusInROB fl wake activeThreads s = foldM (update_thread fl wake) activeThreads s"

text \<open>
  The cycle: the counters and the signals start fresh, the executed instructions resolve in
  their order of execution, results are written back, and the reorder buffer marks
  instructions safe.
\<close>

definition iew_begin :: "ThreadID list \<Rightarrow> IEW \<Rightarrow> IEW" where
  "iew_begin activeThreads w =
     w\<lparr>numWokenInstructions := 0,
       numClearedMaySquashOthers :=
         (\<lambda>t. if t \<in> set activeThreads then 0 else numClearedMaySquashOthers w t),
       fetchRedirect := (\<lambda>t. if t \<in> set activeThreads then False else fetchRedirect w t),
       tc_squash := (\<lambda>_. False)\<rparr>"

definition iew_tick ::
  "cd_flags \<Rightarrow> 'e wake_fun \<Rightarrow> (inst_ptr \<Rightarrow> inst_ptr \<Rightarrow> inst_store \<times> 'e \<Rightarrow> (inst_store \<times> 'e) option) \<Rightarrow>
     ThreadID list \<Rightarrow> (inst_ptr \<times> bool \<times> inst_ptr option) list \<Rightarrow> inst_ptr list \<Rightarrow>
     inst_store \<times> 'e \<times> ROB \<times> IEW \<Rightarrow> (inst_store \<times> 'e \<times> ROB \<times> IEW) option" where
  "iew_tick fl wake violate activeThreads executed toCommit s =
     (case s of (h, e, b, w) \<Rightarrow> do {
        (h, e, w) \<leftarrow> foldM (resolve_executed fl violate) executed (h, e, iew_begin activeThreads w);
        (h, e, w) \<leftarrow> writebackInsts fl wake toCommit (h, e, w);
        updateMaySquashStatusInROB fl wake activeThreads (h, e, b, w)
      })"

section \<open>Commit's answer to a squash signal\<close>

text \<open>
  The part of \<open>commit()\<close> that handles the signal of a thread (\<open>cpu/o3/commit_impl.hh\<close>), when
  it is not overridden by an older squash: leave runahead mode if its initiator asks for the
  squash, then squash the reorder buffer.
\<close>

definition commit_squash ::
  "cd_flags \<Rightarrow> 'e wake_fun \<Rightarrow> ThreadID list \<Rightarrow> ThreadID \<Rightarrow> IEW \<Rightarrow> inst_store \<times> 'e \<times> ROB \<Rightarrow>
     (inst_store \<times> 'e \<times> ROB) option" where
  "commit_squash fl wake activeThreads tid w s =
     (case s of (h, e, b) \<Rightarrow> do {
        (h, b, single) \<leftarrow>
          (case tc_mispredictInst w tid of
             Some p \<Rightarrow>
               if has (h p) Runahead \<and> has (h p) MaySquashOthers
               then do {
                 b \<leftarrow> leaveRunaheadMode tid b;
                 Some (upd_inst p (reset_status Runahead) h, b, CD_Runahead_SquashInSingleCycle fl)
               }
               else Some (h, b, CD_SquashInSingleCycle fl)
           | None \<Rightarrow> Some (h, b, False));
        let sn = tc_squashedSeqNum w tid - (if tc_includeSquashInst w tid then 1 else 0);
        rob_squash fl wake activeThreads sn tid single (h, e, b)
      })"

text \<open>\<open>squashAll\<close>: everything from the head on; \<open>lastCommitted\<close> is used for an empty buffer.\<close>

definition squashAll ::
  "cd_flags \<Rightarrow> 'e wake_fun \<Rightarrow> ThreadID list \<Rightarrow> ThreadID \<Rightarrow> InstSeqNum \<Rightarrow> inst_store \<times> 'e \<times> ROB \<Rightarrow>
     (inst_store \<times> 'e \<times> ROB) option" where
  "squashAll fl wake activeThreads tid lastCommitted s =
     (case s of (h, e, b) \<Rightarrow> do {
        sn \<leftarrow> (if rob_isEmpty tid b then Some lastCommitted
               else do {
                 hd_inst \<leftarrow> readHeadInst tid h b;
                 p \<leftarrow> hd_inst;
                 Some (seqNum (h p) - 1)
               });
        rob_squash fl wake activeThreads sn tid False (h, e, b)
      })"

text \<open>\<open>markCompletedInsts\<close>: the instructions that arrive from the execute stage can commit.\<close>

definition mark_completed :: "cd_flags \<Rightarrow> inst_ptr \<Rightarrow> inst_store \<Rightarrow> inst_store" where
  "mark_completed fl p h =
     (if CD_Runahead_QuickOutputPropagation fl \<and> has (h p) Runahead \<and> \<not> has (h p) Executed then h
      else if \<not> has (h p) Squashed then upd_inst p (set_status CanCommit) h
      else h)"

definition markCompletedInsts :: "cd_flags \<Rightarrow> inst_ptr list \<Rightarrow> inst_store \<Rightarrow> inst_store" where
  "markCompletedInsts fl ps h = fold (mark_completed fl) ps h"

end
