(* ===== verification/Nda.thy ===== *)
theory Nda
  imports Iew
begin

text \<open>
  The speculation defence as a whole: reorder buffer, execute stage and commit as one state
  machine. Its steps are the operations of \<open>Rob\<close> and \<open>Iew\<close>; the invariant says that every
  instruction behind an unresolved branch is marked unsafe and that the results of unsafe
  instructions are not visible in any ready table.
\<close>

section \<open>Invariant\<close>

definition exempt :: "cd_flags \<Rightarrow> dyn_inst \<Rightarrow> bool" where
  "exempt fl i \<longleftrightarrow> CD_Allow_NonLoads_AfterBranch fl \<and> \<not> sflag i IsLoad"

text \<open>An unsquashed instruction behind a branch that may squash others is unsafe or exempt.\<close>

definition shadow_ok :: "cd_flags \<Rightarrow> inst_store \<Rightarrow> inst_ptr \<Rightarrow> inst_ptr \<Rightarrow> bool" where
  "shadow_ok fl h q i \<longleftrightarrow>
     (has (h q) MaySquashOthers \<and> \<not> has (h i) Squashed \<longrightarrow> has (h i) Unsafe \<or> exempt fl (h i))"

text \<open>The branch that started runahead mode.\<close>

definition initiator :: "dyn_inst \<Rightarrow> bool" where
  "initiator i \<longleftrightarrow> has i Runahead \<and> has i MaySquashOthers"

abbreviation branches :: "inst_store \<Rightarrow> inst_ptr list \<Rightarrow> nat" where
  "branches h l \<equiv> count_if (\<lambda>p. has (h p) MaySquashOthers) l"

definition ids_ok :: "inst_store \<Rightarrow> (ThreadID \<Rightarrow> inst_ptr list) \<Rightarrow> bool" where
  "ids_ok h L \<longleftrightarrow> (\<forall>t. sorted_wrt (\<lambda>p q. seqNum (h p) < seqNum (h q)) (L t) \<and> (\<forall>p\<in>set (L t). threadNumber (h p) = t))"

definition disjoint_ok :: "inst_store \<Rightarrow> (ThreadID \<Rightarrow> inst_ptr list) \<Rightarrow> bool" where
  "disjoint_ok h L \<longleftrightarrow> (\<forall>t t' p q k. p \<in> set (L t) \<and> q \<in> set (L t') \<and> renames (h p) k \<and> renames (h q) k \<longrightarrow> p = q)"

text \<open>
  Isolation, for the dispatched instructions \<open>d\<close> except those whose outputs were zeroed in
  runahead mode, \<open>z\<close>.
\<close>

definition isolated :: "('e \<Rightarrow> nat \<Rightarrow> bool) \<Rightarrow> inst_ptr set \<Rightarrow> inst_ptr set \<Rightarrow> inst_store \<Rightarrow> 'e \<Rightarrow> (ThreadID \<Rightarrow> inst_ptr list) \<Rightarrow> bool" where
  "isolated ready d z h e L \<longleftrightarrow>
     (\<forall>t. \<forall>p\<in>set (L t). p \<in> d \<and> p \<notin> z \<and> has (h p) Unsafe \<and> \<not> has (h p) Squashed \<longrightarrow>
        (\<forall>k. renames (h p) k \<longrightarrow> \<not> ready e k))"

text \<open>
  \<open>cl\<close> counts, per thread, the branches resolved since the counter was last updated.
\<close>

definition counter_ok :: "(ThreadID \<Rightarrow> int) \<Rightarrow> inst_store \<Rightarrow> ROB \<Rightarrow> bool" where
  "counter_ok cl h b \<longleftrightarrow>
     (\<forall>t. numInstThatMayCauseSquash b t = int (branches h (rob_instList b t)) + cl t \<and> 0 \<le> cl t)"

definition runahead_ok :: "inst_store \<Rightarrow> ROB \<Rightarrow> bool" where
  "runahead_ok h b \<longleftrightarrow>
     (\<forall>t. inRunaheadMode b t = (\<exists>p\<in>set (rob_instList b t). initiator (h p)) \<and>
          sorted_wrt (\<lambda>q i. initiator (h q) \<longrightarrow> \<not> has (h i) MaySquashOthers) (rob_instList b t))"

definition iterator_ok :: "ROB \<Rightarrow> bool" where
  "iterator_ok b \<longleftrightarrow> (\<forall>t p. squashIt b t = Some p \<longrightarrow> p \<in> set (rob_instList b t))"

definition nda_ok ::
  "cd_flags \<Rightarrow> ('e \<Rightarrow> nat \<Rightarrow> bool) \<Rightarrow> (ThreadID \<Rightarrow> int) \<Rightarrow> inst_ptr set \<Rightarrow> inst_ptr set \<Rightarrow> inst_store \<Rightarrow> 'e \<Rightarrow> ROB \<Rightarrow> bool" where
  "nda_ok fl ready cl d z h e b \<longleftrightarrow>
     ids_ok h (rob_instList b) \<and> disjoint_ok h (rob_instList b) \<and>
     (\<forall>t. sorted_wrt (shadow_ok fl h) (rob_instList b t)) \<and>
     isolated ready d z h e (rob_instList b) \<and> counter_ok cl h b \<and> runahead_ok h b \<and> iterator_ok b"

lemma nda_okD:
  assumes "nda_ok fl ready cl d z h e b"
  shows "ids_ok h (rob_instList b)" and "disjoint_ok h (rob_instList b)"
    and "sorted_wrt (shadow_ok fl h) (rob_instList b t)"
    and "isolated ready d z h e (rob_instList b)" and "counter_ok cl h b" and "runahead_ok h b"
    and "iterator_ok b"
  using assms by (auto simp: nda_ok_def)

lemma nda_okI:
  assumes "ids_ok h (rob_instList b)" and "disjoint_ok h (rob_instList b)"
    and "\<And>t. sorted_wrt (shadow_ok fl h) (rob_instList b t)"
    and "isolated ready d z h e (rob_instList b)" and "counter_ok cl h b" and "runahead_ok h b"
    and "iterator_ok b"
  shows "nda_ok fl ready cl d z h e b"
  using assms by (simp add: nda_ok_def)

lemma ids_ok_distinct: "ids_ok h L \<Longrightarrow> distinct (L t)"
  using sorted_wrt_less_distinct [of "\<lambda>p. seqNum (h p)"] by (auto simp: ids_ok_def)

lemma ids_ok_thread: "ids_ok h L \<Longrightarrow> p \<in> set (L t) \<Longrightarrow> p \<in> set (L t') \<Longrightarrow> t' = t"
  unfolding ids_ok_def by metis

section \<open>Steps that only calm the state\<close>

text \<open>
  Most operations keep what identifies an instruction, set its squash mark or clear its
  unsafe, branch and runahead marks.
\<close>

definition calmer :: "inst_store \<Rightarrow> inst_store \<Rightarrow> bool" where
  "calmer h h' \<longleftrightarrow> (\<forall>q. seqNum (h' q) = seqNum (h q) \<and> threadNumber (h' q) = threadNumber (h q) \<and>
      staticInst (h' q) = staticInst (h q) \<and> dest_regs (h' q) = dest_regs (h q) \<and>
      (has (h q) Squashed \<longrightarrow> has (h' q) Squashed) \<and> (has (h' q) Unsafe \<longrightarrow> has (h q) Unsafe) \<and>
      (has (h' q) MaySquashOthers \<longrightarrow> has (h q) MaySquashOthers) \<and> (has (h' q) Runahead \<longrightarrow> has (h q) Runahead))"

lemma calmerD:
  assumes "calmer h h'"
  shows "seqNum (h' q) = seqNum (h q)" and "threadNumber (h' q) = threadNumber (h q)"
    and "staticInst (h' q) = staticInst (h q)" and "dest_regs (h' q) = dest_regs (h q)"
    and "renames (h' q) k = renames (h q) k" and "exempt fl (h' q) = exempt fl (h q)"
    and "has (h q) Squashed \<Longrightarrow> has (h' q) Squashed" and "has (h' q) Unsafe \<Longrightarrow> has (h q) Unsafe"
    and "has (h' q) MaySquashOthers \<Longrightarrow> has (h q) MaySquashOthers"
    and "has (h' q) Runahead \<Longrightarrow> has (h q) Runahead"
  using assms by (auto simp: calmer_def renames_def exempt_def)

lemma calmer_refl: "calmer h h"
  by (simp add: calmer_def)

lemma calmer_trans: "calmer h h1 \<Longrightarrow> calmer h1 h2 \<Longrightarrow> calmer h h2"
  by (simp add: calmer_def)

lemma calmer_safe_step: "safe_step h h' \<Longrightarrow> calmer h h'"
  using safe_stepD [of h h'] by (simp add: calmer_def)

lemma calmer_set:
  "b \<notin> {Unsafe, MaySquashOthers, Runahead} \<Longrightarrow> calmer h (upd_inst p (set_status b) h)"
  by (auto simp: calmer_def upd_inst_apply)

lemma calmer_reset: "b \<noteq> Squashed \<Longrightarrow> calmer h (upd_inst p (reset_status b) h)"
  by (auto simp: calmer_def upd_inst_apply)

lemma calmer_ids: "calmer h h' \<Longrightarrow> ids_ok h L \<Longrightarrow> ids_ok h' L"
  by (simp add: ids_ok_def calmerD)

lemma calmer_disjoint: "calmer h h' \<Longrightarrow> disjoint_ok h L \<Longrightarrow> disjoint_ok h' L"
  by (simp add: disjoint_ok_def calmerD(5))

lemma calmer_isolated: "calmer h h' \<Longrightarrow> isolated ready d z h e L \<Longrightarrow> isolated ready d z h' e L"
  using calmerD(5,7,8) [of h h'] unfolding isolated_def by blast

lemma calmer_shadow:
  assumes c: "calmer h h'" and s: "sorted_wrt (shadow_ok fl h) l"
    and u: "\<And>i. i \<in> set l \<Longrightarrow> has (h i) Unsafe \<Longrightarrow> \<not> has (h' i) Unsafe \<Longrightarrow> has (h' i) Squashed"
  shows "sorted_wrt (shadow_ok fl h') l"
proof (rule sorted_wrt_mono_rel [OF _ s])
  fix q i assume "q \<in> set l" "i \<in> set l" "shadow_ok fl h q i"
  then show "shadow_ok fl h' q i"
    using u [of i] calmerD(6,7,9) [OF c] unfolding shadow_ok_def by blast
qed

text \<open>A step that changes none of the marks the invariant reads.\<close>

definition marks_same :: "inst_store \<Rightarrow> inst_store \<Rightarrow> bool" where
  "marks_same h h' \<longleftrightarrow> (\<forall>q. \<forall>b\<in>{Unsafe, MaySquashOthers, Runahead}. has (h' q) b = has (h q) b)"

lemma nda_ok_same_marks:
  assumes ok: "nda_ok fl ready cl d z h e b" and c: "calmer h h'" and m: "marks_same h h'"
  shows "nda_ok fl ready cl d z h' e b"
proof (rule nda_okI)
  show "sorted_wrt (shadow_ok fl h') (rob_instList b t)" for t
    by (rule calmer_shadow [OF c nda_okD(3) [OF ok]]) (use m in \<open>simp add: marks_same_def\<close>)
  show "counter_ok cl h' b" using nda_okD(5) [OF ok] m by (simp add: counter_ok_def marks_same_def)
  show "runahead_ok h' b" using nda_okD(6) [OF ok] m by (simp add: runahead_ok_def initiator_def marks_same_def)
qed (use ok c in \<open>auto intro: calmer_ids calmer_disjoint calmer_isolated simp: nda_ok_def\<close>)

section \<open>Resolving a branch\<close>

lemma branches_clear:
  assumes "distinct l" and "p \<in> set l" and "has (h p) MaySquashOthers"
    and "\<not> has (h' p) MaySquashOthers" and "\<And>q. q \<noteq> p \<Longrightarrow> has (h' q) MaySquashOthers = has (h q) MaySquashOthers"
  shows "branches h l = Suc (branches h' l)"
  by (rule count_if_flip [of _ p]) (use assms in auto)

lemma branches_other: "p \<notin> set l \<Longrightarrow> (\<And>q. q \<noteq> p \<Longrightarrow> has (h' q) b = has (h q) b) \<Longrightarrow>
    count_if (\<lambda>p. has (h' p) b) l = count_if (\<lambda>p. has (h p) b) l"
  by (rule count_if_cong) metis

lemma counter_ok_clear:
  assumes c: "counter_ok cl h b" and i: "ids_ok h (rob_instList b)" and p: "p \<in> set (rob_instList b t)"
    and m: "has (h p) MaySquashOthers" "\<not> has (h' p) MaySquashOthers"
      "\<And>q. q \<noteq> p \<Longrightarrow> has (h' q) MaySquashOthers = has (h q) MaySquashOthers"
    and b: "rob_instList b' = rob_instList b" "numInstThatMayCauseSquash b' = numInstThatMayCauseSquash b"
  shows "counter_ok (cl(t := cl t + 1)) h' b'"
  unfolding counter_ok_def b
proof (intro allI conjI)
  fix t'
  show "numInstThatMayCauseSquash b t' = int (branches h' (rob_instList b t')) + (cl(t := cl t + 1)) t'"
  proof (cases "t' = t")
    case True
    then show ?thesis
      using c branches_clear [of _ p h h', OF ids_ok_distinct [OF i] p m] by (simp add: counter_ok_def)
  next
    case False
    then have "p \<notin> set (rob_instList b t')" using ids_ok_thread [OF i p] by blast
    then show ?thesis
      using False c branches_other [where p = p and l = "rob_instList b t'" and h' = h' and h = h and b = MaySquashOthers] m(3)
      by (simp add: counter_ok_def)
  qed
  show "0 \<le> (cl(t := cl t + 1)) t'" using c by (simp add: counter_ok_def)
qed

lemma initiator_unique:
  assumes r: "runahead_ok h b" and i: "ids_ok h (rob_instList b)"
    and p: "p \<in> set (rob_instList b t)" "initiator (h p)" and q: "q \<in> set (rob_instList b t)" "initiator (h q)"
  shows "q = p"
proof -
  have s: "sorted_wrt (\<lambda>q i. initiator (h q) \<longrightarrow> \<not> has (h i) MaySquashOthers) (rob_instList b t)"
    using r by (simp add: runahead_ok_def)
  obtain k where k: "k < length (rob_instList b t)" "rob_instList b t ! k = p" using p(1) by (metis in_set_conv_nth)
  obtain l where l: "l < length (rob_instList b t)" "rob_instList b t ! l = q" using q(1) by (metis in_set_conv_nth)
  have may: "has (h p) MaySquashOthers" "has (h q) MaySquashOthers" using p q by (auto simp: initiator_def)
  show ?thesis
  proof (cases k l rule: linorder_cases)
    case less
    then show ?thesis using sorted_wrt_nth_less [OF s less l(1)] k l p(2) may by simp
  next
    case greater
    then show ?thesis using sorted_wrt_nth_less [OF s greater k(1)] k l q(2) may by simp
  next
    case equal
    then show ?thesis using k l by simp
  qed
qed

text \<open>Clearing the runahead mark of the initiator while leaving runahead mode.\<close>

lemma runahead_ok_leave:
  assumes r: "runahead_ok h b" and i: "ids_ok h (rob_instList b)"
    and p: "p \<in> set (rob_instList b t)" "initiator (h p)" and c: "calmer h h'" and n: "\<not> initiator (h' p)"
    and o: "\<And>q. q \<noteq> p \<Longrightarrow> initiator (h' q) = initiator (h q)"
    and b: "rob_instList b' = rob_instList b" "inRunaheadMode b' = (inRunaheadMode b)(t := False)"
  shows "runahead_ok h' b'"
  unfolding runahead_ok_def b
proof (intro allI conjI)
  fix t'
  have "sorted_wrt (\<lambda>q i. initiator (h q) \<longrightarrow> \<not> has (h i) MaySquashOthers) (rob_instList b t')"
    using r by (simp add: runahead_ok_def)
  then show "sorted_wrt (\<lambda>q i. initiator (h' q) \<longrightarrow> \<not> has (h' i) MaySquashOthers) (rob_instList b t')"
  proof (rule sorted_wrt_mono_rel [rotated])
    fix q i assume "initiator (h q) \<longrightarrow> \<not> has (h i) MaySquashOthers"
    then show "initiator (h' q) \<longrightarrow> \<not> has (h' i) MaySquashOthers"
      using n o calmerD(9) [OF c] by metis
  qed
  have "(\<exists>q\<in>set (rob_instList b t). initiator (h' q)) = False"
    using initiator_unique [OF r i p] n o by metis
  moreover have "(\<exists>q\<in>set (rob_instList b t'). initiator (h' q)) = (\<exists>q\<in>set (rob_instList b t'). initiator (h q))"
    if "t' \<noteq> t" using o ids_ok_thread [OF i p(1)] that by metis
  ultimately show "((inRunaheadMode b)(t := False)) t' = (\<exists>q\<in>set (rob_instList b t'). initiator (h' q))"
    using r by (simp add: runahead_ok_def)
qed

lemma runahead_ok_same:
  assumes r: "runahead_ok h b" and c: "calmer h h'" and o: "\<And>q. initiator (h' q) = initiator (h q)"
    and b: "rob_instList b' = rob_instList b" "inRunaheadMode b' = inRunaheadMode b"
  shows "runahead_ok h' b'"
  unfolding runahead_ok_def b o
proof (intro allI conjI)
  fix t
  have "sorted_wrt (\<lambda>q i. initiator (h q) \<longrightarrow> \<not> has (h i) MaySquashOthers) (rob_instList b t)"
    using r by (simp add: runahead_ok_def)
  then show "sorted_wrt (\<lambda>q i. initiator (h q) \<longrightarrow> \<not> has (h' i) MaySquashOthers) (rob_instList b t)"
    by (rule sorted_wrt_mono_rel [rotated]) (use calmerD(9) [OF c] in blast)
qed (use r in \<open>simp add: runahead_ok_def\<close>)

section \<open>Squashing keeps the invariant\<close>

text \<open>\<open>c\<close> more branches of thread \<open>t\<close> resolved and not yet counted.\<close>

definition bump :: "(ThreadID \<Rightarrow> int) \<Rightarrow> ThreadID \<Rightarrow> int \<Rightarrow> ThreadID \<Rightarrow> int" where
  "bump cl t c = cl(t := cl t + c)"

lemma bump_0 [simp]: "bump cl t 0 = cl"
  by (simp add: bump_def)

lemma leaveRunaheadMode_Some:
  "leaveRunaheadMode t b = Some b' \<longleftrightarrow>
     inRunaheadMode b t \<and> b' = b\<lparr>inRunaheadMode := (inRunaheadMode b)(t := False)\<rparr>"
  by (auto simp: leaveRunaheadMode_def)

lemma nda_ok_fields:
  assumes ok: "nda_ok fl ready cl d z h e b" and "rob_instList b' = rob_instList b"
    and "numInstThatMayCauseSquash b' = numInstThatMayCauseSquash b" and "inRunaheadMode b' = inRunaheadMode b"
    and "\<And>t p. squashIt b' t = Some p \<Longrightarrow> p \<in> set (rob_instList b t)"
  shows "nda_ok fl ready cl d z h e b'"
  using ok assms(2-) by (simp add: nda_ok_def counter_ok_def runahead_ok_def iterator_ok_def)

text \<open>What the squash operations leave of the buffer.\<close>

definition rob_frame :: "ROB \<Rightarrow> ROB \<Rightarrow> bool" where
  "rob_frame b b' \<longleftrightarrow> rob_instList b' = rob_instList b \<and>
     numInstThatMayCauseSquash b' = numInstThatMayCauseSquash b \<and> rob_maxEntries b' = rob_maxEntries b \<and>
     squashWidth b' = squashWidth b \<and> rob_squashedSeqNum b' = rob_squashedSeqNum b \<and>
     threadEntries b' = threadEntries b \<and> numInstsInROB b' = numInstsInROB b \<and>
     robStatus b' = robStatus b"

lemma rob_frame_refl: "rob_frame b b"
  by (simp add: rob_frame_def)

lemma rob_frame_trans: "rob_frame b b1 \<Longrightarrow> rob_frame b1 b2 \<Longrightarrow> rob_frame b b2"
  by (simp add: rob_frame_def)

lemma resolve_branch_ok:
  assumes r: "resolve_branch t p (h, b, c) = Some (h', b', c')" and p: "p \<in> set (rob_instList b t)"
    and ok: "nda_ok fl ready (bump cl t c) d z h e b"
  shows "nda_ok fl ready (bump cl t c') d z h' e b' \<and> calmer h h' \<and> rob_frame b b' \<and>
    squashIt b' = squashIt b \<and> c \<le> c'"
proof (cases "has (h p) MaySquashOthers")
  case False
  with r ok show ?thesis by (auto simp: resolve_branch_def calmer_refl rob_frame_refl)
next
  case True
  let ?h = "upd_inst p (reset_status MaySquashOthers) h"
  have cm: "calmer h ?h" by (rule calmer_reset) simp
  note i = nda_okD(1) [OF ok] and K = nda_okD(2-4) [OF ok] and ru = nda_okD(6) [OF ok]
  define h2 where "h2 = (if has (h p) Runahead then upd_inst p (reset_status Runahead) ?h else ?h)"
  define b2 where "b2 = (if has (h p) Runahead then b\<lparr>inRunaheadMode := (inRunaheadMode b)(t := False)\<rparr> else b)"
  have eq: "h' = h2" "b' = b2" "c' = c + 1"
    using r True by (auto simp: resolve_branch_def Let_def upd_inst_apply h2_def b2_def leaveRunaheadMode_Some
        bind_eq_Some_conv split: if_splits)
  have c2: "calmer h h2" using calmer_trans [OF cm calmer_reset [of Runahead ?h p]] cm by (simp add: h2_def)
  have st: "status (h2 q) = (if q = p then status (h p) - {MaySquashOthers, Runahead} else status (h q))" for q
    using True by (auto simp: h2_def upd_inst_apply)
  have bs: "rob_instList b2 = rob_instList b" "numInstThatMayCauseSquash b2 = numInstThatMayCauseSquash b"
    "squashIt b2 = squashIt b" by (simp_all add: b2_def)
  have "counter_ok ((bump cl t c)(t := (bump cl t c) t + 1)) h2 b2"
    by (rule counter_ok_clear [OF nda_okD(5) [OF ok] i p True]) (auto simp: st bs)
  then have co: "counter_ok (bump cl t (c + 1)) h2 b2" by (simp add: add.assoc bump_def)
  have ra: "runahead_ok h2 b2"
  proof (cases "has (h p) Runahead")
    case ru': True
    show ?thesis
      by (rule runahead_ok_leave [OF ru i p _ c2, of b2])
        (use True ru' in \<open>auto simp: initiator_def st b2_def\<close>)
  next
    case False
    show ?thesis
      by (rule runahead_ok_same [OF ru c2, of b2]) (use False in \<open>auto simp: initiator_def st b2_def\<close>)
  qed
  have "nda_ok fl ready (bump cl t (c + 1)) d z h2 e b2"
  proof (rule nda_okI)
    show "sorted_wrt (shadow_ok fl h2) (rob_instList b2 t')" for t'
      unfolding bs by (rule calmer_shadow [OF c2 K(2)]) (simp add: st split: if_splits)
    show "iterator_ok b2" using nda_okD(7) [OF ok] by (simp add: iterator_ok_def bs)
  qed (use i K co ra calmer_ids [OF c2] calmer_disjoint [OF c2] calmer_isolated [OF c2] in \<open>simp_all add: bs\<close>)
  then show ?thesis unfolding eq using c2 by (simp add: rob_frame_def bs b2_def)
qed

lemma squash_inst_ok:
  assumes r: "squash_inst t p (h, b, c) = Some (h', b', c')" and p: "p \<in> set (rob_instList b t)"
    and ok: "nda_ok fl ready (bump cl t c) d z h e b"
  shows "nda_ok fl ready (bump cl t c') d z h' e b' \<and> calmer h h' \<and> rob_frame b b' \<and>
    squashIt b' = squashIt b \<and> c \<le> c'"
proof -
  let ?h = "upd_inst p (set_status CanCommit \<circ> set_status Squashed) h"
  have c: "calmer h ?h" and m: "marks_same h ?h"
    by (auto simp: calmer_def marks_same_def upd_inst_apply)
  have "nda_ok fl ready (bump cl t c) d z ?h e b" by (rule nda_ok_same_marks [OF ok c m])
  moreover have "resolve_branch t p (?h, b, c) = Some (h', b', c')" using r by (simp add: squash_inst_def)
  ultimately show ?thesis using resolve_branch_ok [of t p ?h b c h' b' c' fl ready cl d z e] p calmer_trans [OF c, of h'] by blast
qed

lemma rob_squash_loop_ok:
  assumes "rob_squash_loop t single n l tu (h, b, c) = Some (out, tu', h', b', c')"
    and "set l \<subseteq> set (rob_instList b t)" and "nda_ok fl ready (bump cl t c) d z h e b"
  shows "nda_ok fl ready (bump cl t c') d z h' e b' \<and> calmer h h' \<and> rob_frame b b' \<and> c \<le> c'"
  using assms
proof (induction l arbitrary: n tu h b c)
  case Nil
  then show ?case by simp
next
  case (Cons p older)
  show ?case
  proof (cases "(n < squashWidth b \<or> single) \<and> seqNum (h p) > rob_squashedSeqNum b t")
    case False
    with Cons.prems show ?thesis by (auto simp: calmer_refl rob_frame_refl)
  next
    case True
    with Cons.prems(1) obtain h1 b1 c1 where s: "squash_inst t p (h, b, c) = Some (h1, b1, c1)"
      and rest: "(case older of [] \<Rightarrow> Some (True, tu, h1, b1\<lparr>squashIt := (squashIt b1)(t := None),
                         doneSquashing := (doneSquashing b1)(t := True)\<rparr>, c1)
         | r # _ \<Rightarrow> rob_squash_loop t single (n + 1) older (tu \<or> p = last (rob_instList b1 t))
               (h1, b1\<lparr>squashIt := (squashIt b1)(t := Some r)\<rparr>, c1)) = Some (out, tu', h', b', c')"
      by (auto simp: bind_eq_Some_conv)
    have 1: "nda_ok fl ready (bump cl t c1) d z h1 e b1" "calmer h h1" "rob_frame b b1" "c \<le> c1"
      using squash_inst_ok [OF s _ Cons.prems(3)] Cons.prems(2) by auto
    have L: "rob_instList b1 = rob_instList b" using 1(3) by (simp add: rob_frame_def)
    have it: "squashIt b1 t' = Some q \<Longrightarrow> q \<in> set (rob_instList b1 t')" for t' q
      using nda_okD(7) [OF 1(1)] by (simp add: iterator_ok_def)
    show ?thesis
    proof (cases older)
      case Nil
      have "nda_ok fl ready (bump cl t c1) d z h1 e (b1\<lparr>squashIt := (squashIt b1)(t := None),
                         doneSquashing := (doneSquashing b1)(t := True)\<rparr>)"
        by (rule nda_ok_fields [OF 1(1)]) (auto dest: it split: if_splits)
      moreover have "rob_frame b (b1\<lparr>squashIt := (squashIt b1)(t := None),
                         doneSquashing := (doneSquashing b1)(t := True)\<rparr>)"
        using 1(3) by (simp add: rob_frame_def)
      ultimately show ?thesis using rest Nil 1(2,4) by auto
    next
      case (Cons r rs)
      let ?b = "b1\<lparr>squashIt := (squashIt b1)(t := Some r)\<rparr>"
      have "nda_ok fl ready (bump cl t c1) d z h1 e ?b"
        by (rule nda_ok_fields [OF 1(1)]) (use Cons Cons.prems(2) L in \<open>auto dest: it split: if_splits\<close>)
      moreover have "rob_squash_loop t single (n + 1) older (tu \<or> p = last (rob_instList b1 t)) (h1, ?b, c1)
          = Some (out, tu', h', b', c')" using rest Cons by simp
      moreover have "set older \<subseteq> set (rob_instList ?b t)" using Cons.prems(2) L by simp
      ultimately have "nda_ok fl ready (bump cl t c') d z h' e b' \<and> calmer h1 h' \<and> rob_frame ?b b' \<and> c1 \<le> c'"
        by (rule Cons.IH [rotated 2])
      moreover have "rob_frame b ?b" using 1(3) by (simp add: rob_frame_def)
      ultimately show ?thesis using 1(2,4) calmer_trans rob_frame_trans by fastforce
    qed
  qed
qed

lemma check_done_ok:
  assumes r: "check_done t (h, b, c) = Some (h', b', c')" and ok: "nda_ok fl ready (bump cl t c) d z h e b"
  shows "nda_ok fl ready (bump cl t c') d z h' e b' \<and> calmer h h' \<and> rob_frame b b' \<and> c \<le> c'"
proof -
  from r obtain p where p: "squashIt b t = Some p" by (auto simp: check_done_def bind_eq_Some_conv)
  have pin: "p \<in> set (rob_instList b t)" using nda_okD(7) [OF ok] p by (simp add: iterator_ok_def)
  show ?thesis
  proof (cases "seqNum (h p) \<le> rob_squashedSeqNum b t")
    case False
    with r p ok show ?thesis by (auto simp: check_done_def calmer_refl rob_frame_refl)
  next
    case True
    then obtain h1 b1 c1 where
      1: "(if seqNum (h p) = rob_squashedSeqNum b t then resolve_branch t p (h, b, c) else Some (h, b, c)) = Some (h1, b1, c1)"
      and eq: "h' = h1" "c' = c1" "b' = b1\<lparr>squashIt := (squashIt b1)(t := None), doneSquashing := (doneSquashing b1)(t := True)\<rparr>"
      using r p by (auto simp: check_done_def bind_eq_Some_conv)
    have 2: "nda_ok fl ready (bump cl t c1) d z h1 e b1 \<and> calmer h h1 \<and> rob_frame b b1 \<and> c \<le> c1"
    proof (cases "seqNum (h p) = rob_squashedSeqNum b t")
      case True
      with 1 show ?thesis using resolve_branch_ok [OF _ pin ok] by simp
    next
      case False
      with 1 ok show ?thesis by (simp add: calmer_refl rob_frame_refl)
    qed
    have "nda_ok fl ready (bump cl t c1) d z h1 e b'" unfolding eq
      by (rule nda_ok_fields) (use 2 in \<open>auto simp: nda_ok_def iterator_ok_def split: if_splits\<close>)
    with 2 eq show ?thesis by (simp add: rob_frame_def)
  qed
qed

section \<open>Safety marking keeps the invariant\<close>

lemma mark_shadow:
  assumes c: "safe_step h h'" and d: "distinct l"
    and u: "\<And>q. q \<in> set l \<Longrightarrow> has (h q) Unsafe \<Longrightarrow> \<not> has (h' q) Unsafe \<Longrightarrow> q \<in> set (unshadowed h l)"
    and s: "sorted_wrt (shadow_ok fl h) l"
  shows "sorted_wrt (shadow_ok fl h') l"
  using d u s
proof (induction l)
  case Nil
  then show ?case by simp
next
  case (Cons p ps)
  have may: "has (h' q) MaySquashOthers = has (h q) MaySquashOthers" for q using safe_stepD(6) [OF c] by simp
  show ?case
  proof (cases "has (h p) MaySquashOthers")
    case True
    have keep: "has (h' q) Unsafe" if "q \<in> set ps" "has (h q) Unsafe" for q
      using Cons.prems(1) Cons.prems(2) that True by fastforce
    have "sorted_wrt (shadow_ok fl h') ps"
      by (rule calmer_shadow [OF calmer_safe_step [OF c]]) (use Cons.prems(3) keep in auto)
    moreover have "shadow_ok fl h' p i" if "i \<in> set ps" for i
      using Cons.prems(3) keep [OF that] that safe_stepD(3,6) [OF c]
      by (simp add: shadow_ok_def exempt_def) blast
    ultimately show ?thesis by simp
  next
    case False
    then have "sorted_wrt (shadow_ok fl h') ps" using Cons by auto
    moreover have "shadow_ok fl h' p i" for i using False may by (simp add: shadow_ok_def)
    ultimately show ?thesis by simp
  qed
qed

lemma marked_ok:
  assumes m: "marked ready fl' mx (rob_instList b t) (n, h, e) (n', h', e')"
    and ok: "nda_ok fl ready cl d z h e b"
  shows "nda_ok fl ready cl d z h' e' b"
proof -
  note M = markedD [OF m] and i = nda_okD(1) [OF ok]
  have c: "calmer h h'" by (rule calmer_safe_step [OF M(1)])
  have gone: "q \<in> set (rob_instList b t)" if "has (h q) Unsafe" "\<not> has (h' q) Unsafe" for q
    using M(4) [OF that] unshadowed_subset by blast
  have may: "has (h' q) MaySquashOthers = has (h q) MaySquashOthers"
    and ini: "initiator (h' q) = initiator (h q)" for q
    using safe_stepD(6) [OF M(1)] by (simp_all add: initiator_def)
  show ?thesis
  proof (rule nda_okI)
    show "sorted_wrt (shadow_ok fl h') (rob_instList b t')" for t'
    proof (cases "t' = t")
      case True
      show ?thesis unfolding True
        by (rule mark_shadow [OF M(1) ids_ok_distinct [OF i] _ nda_okD(3) [OF ok]]) (use M(4) in blast)
    next
      case False
      then show ?thesis
        by (intro calmer_shadow [OF c nda_okD(3) [OF ok]]) (use gone ids_ok_thread [OF i] in blast)
    qed
    show "isolated ready d z h' e' (rob_instList b)"
      unfolding isolated_def
    proof (intro allI ballI impI)
      fix t' p k
      assume p: "p \<in> set (rob_instList b t')" "p \<in> d \<and> p \<notin> z \<and> has (h' p) Unsafe \<and> \<not> has (h' p) Squashed"
        and k: "renames (h' p) k"
      have u: "has (h p) Unsafe" "\<not> has (h p) Squashed" "renames (h p) k"
        using p k calmerD(5,7,8) [OF c] by auto
      then have old: "\<not> ready e k" using nda_okD(4) [OF ok] p(1,2) by (auto simp: isolated_def)
      have "p = q" if "has (h q) Unsafe" "\<not> has (h' q) Unsafe" "renames (h q) k" for q
        using nda_okD(2) [OF ok] p(1) gone [OF that(1,2)] u(3) that(3) unfolding disjoint_ok_def by blast
      then show "\<not> ready e' k" using M(6) [of k] old p(2) by blast
    qed
    show "counter_ok cl h' b" using nda_okD(5) [OF ok] by (simp add: counter_ok_def may)
    show "runahead_ok h' b" by (rule runahead_ok_same [OF nda_okD(6) [OF ok] c ini]) simp_all
  qed (use ok c in \<open>auto intro: calmer_ids calmer_disjoint simp: nda_ok_def\<close>)
qed

context waker
begin

lemma reduce_ok:
  assumes r: "reduceNumMaySquashOthers fl' wake t c mx (h, e, b) = Some (n, h', e', b')" and "0 \<le> c" and "0 \<le> cl t"
    and ok: "nda_ok fl ready (bump cl t c) d z h e b"
  shows "nda_ok fl ready cl d z h' e' b' \<and> safe_step h h' \<and> n \<le> mx \<and>
    b' = b\<lparr>numInstThatMayCauseSquash := (numInstThatMayCauseSquash b)(t := numInstThatMayCauseSquash b t - c)\<rparr>"
proof -
  let ?b = "b\<lparr>numInstThatMayCauseSquash := (numInstThatMayCauseSquash b)(t := numInstThatMayCauseSquash b t - c)\<rparr>"
  have "(if c > 0 then ?b else b) = ?b" using \<open>0 \<le> c\<close> by (cases "c = 0") auto
  then have m: "markFollowingInstructionsAsSafe fl' wake mx (rob_instList ?b t) 0 (h, e) = Some (n, h', e')" and b: "b' = ?b"
    using r by (auto simp: reduceNumMaySquashOthers_def Let_def bind_eq_Some_conv simp del: if_split)
  have "counter_ok cl h ?b"
    unfolding counter_ok_def
  proof
    fix t'
    have "numInstThatMayCauseSquash b t' = int (branches h (rob_instList b t')) + bump cl t c t' \<and> 0 \<le> bump cl t c t'"
      using nda_okD(5) [OF ok] by (simp add: counter_ok_def)
    then show "numInstThatMayCauseSquash ?b t' = int (branches h (rob_instList ?b t')) + cl t' \<and> 0 \<le> cl t'"
      using \<open>0 \<le> cl t\<close> by (cases "t' = t") (auto simp: bump_def)
  qed
  then have "nda_ok fl ready cl d z h e ?b" using ok by (simp add: nda_ok_def runahead_ok_def iterator_ok_def)
  from marked_ok [OF mark_spec [OF m] this] show ?thesis using b markedD(1,3) [OF mark_spec [OF m]] by simp
qed

lemma updateTail_fields [simp]:
  "rob_instList (updateTail T h b) = rob_instList b" "squashIt (updateTail T h b) = squashIt b"
  "numInstThatMayCauseSquash (updateTail T h b) = numInstThatMayCauseSquash b"
  "inRunaheadMode (updateTail T h b) = inRunaheadMode b" "rob_maxEntries (updateTail T h b) = rob_maxEntries b"
  "threadEntries (updateTail T h b) = threadEntries b"
  by (simp_all add: updateTail_def)

lemma from_iterator_subset: "p \<in> set l \<Longrightarrow> set (from_iterator p l) \<subseteq> set l"
  by (auto simp: from_iterator_def dest: set_takeWhileD)

lemma nda_ok_stop:
  "nda_ok fl ready cl d z h e b \<Longrightarrow>
     nda_ok fl ready cl d z h e (b\<lparr>squashIt := (squashIt b)(t := None), doneSquashing := (doneSquashing b)(t := True)\<rparr>)"
  by (rule nda_ok_fields) (auto simp: nda_ok_def iterator_ok_def split: if_splits)

lemma doSquash_ok:
  assumes r: "rob_doSquash fl' wake T single t (h, e, b) = Some (h', e', b')" and cl: "0 \<le> cl t"
    and ok: "nda_ok fl ready cl d z h e b"
  shows "nda_ok fl ready cl d z h' e' b' \<and> calmer h h' \<and> rob_instList b' = rob_instList b"
proof -
  from r obtain p where p: "squashIt b t = Some p" by (auto simp: rob_doSquash_def bind_eq_Some_conv)
  have pin: "p \<in> set (rob_instList b t)" using nda_okD(7) [OF ok] p by (simp add: iterator_ok_def)
  show ?thesis
  proof (cases "seqNum (h p) < rob_squashedSeqNum b t")
    case True
    with r p show ?thesis using nda_ok_stop [OF ok] by (auto simp: rob_doSquash_def calmer_refl)
  next
    case False
    then obtain out tu h1 b1 c1 h2 b2 c2 n where
      1: "rob_squash_loop t single 0 (from_iterator p (rob_instList b t)) False (h, b, 0) = Some (out, tu, h1, b1, c1)"
      and 2: "(if out then Some (h1, b1, c1) else do {
                 (h, b, c) \<leftarrow> check_done t (h1, b1, c1);
                 Some (h, if tu then updateTail T h b else b, c)
               }) = Some (h2, b2, c2)"
      and 3: "reduceNumMaySquashOthers fl' wake t c2
                (if CD_LimitWakeDependandsToWBWidth fl' then 0 else nat (rob_maxEntries b2 t)) (h2, e, b2) = Some (n, h', e', b')"
      using r p by (auto simp: rob_doSquash_def bind_eq_Some_conv Let_def simp del: if_split)
    have L1: "nda_ok fl ready (bump cl t c1) d z h1 e b1 \<and> calmer h h1 \<and> rob_frame b b1 \<and> 0 \<le> c1"
      using rob_squash_loop_ok [OF 1 from_iterator_subset [OF pin], of fl ready cl d z e] ok by simp
    have L2: "nda_ok fl ready (bump cl t c2) d z h2 e b2 \<and> calmer h h2 \<and> rob_instList b2 = rob_instList b \<and> 0 \<le> c2"
    proof (cases out)
      case True
      with 2 L1 show ?thesis by (auto simp: rob_frame_def)
    next
      case False
      with 2 obtain b3 where cd: "check_done t (h1, b1, c1) = Some (h2, b3, c2)"
        and b2: "b2 = (if tu then updateTail T h2 b3 else b3)" by (auto simp: bind_eq_Some_conv)
      have C: "nda_ok fl ready (bump cl t c2) d z h2 e b3 \<and> calmer h1 h2 \<and> rob_frame b1 b3 \<and> c1 \<le> c2"
        by (rule check_done_ok [OF cd]) (use L1 in blast)
      have "nda_ok fl ready (bump cl t c2) d z h2 e b2"
        by (rule nda_ok_fields [where b = b3]) (use C b2 in \<open>auto simp: nda_ok_def iterator_ok_def split: if_splits\<close>)
      then show ?thesis using C L1 calmer_trans b2 by (auto simp: rob_frame_def)
    qed
    show ?thesis using reduce_ok [where cl = cl, OF 3 _ cl, of fl d z] L2 calmer_trans calmer_safe_step by fastforce
  qed
qed

lemma rob_squash_ok:
  assumes r: "rob_squash fl' wake T sn t single (h, e, b) = Some (h', e', b')" and cl: "0 \<le> cl t"
    and ok: "nda_ok fl ready cl d z h e b"
  shows "nda_ok fl ready cl d z h' e' b' \<and> calmer h h' \<and> rob_instList b' = rob_instList b"
proof (cases "rob_isEmpty t b")
  case True
  with r ok show ?thesis by (simp add: rob_squash_def calmer_refl)
next
  case False
  let ?b = "b\<lparr>robStatus := (robStatus b)(t := ROBSquashing), doneSquashing := (doneSquashing b)(t := False),
              rob_squashedSeqNum := (rob_squashedSeqNum b)(t := sn)\<rparr>"
  have ok1: "nda_ok fl ready cl d z h e ?b"
    by (rule nda_ok_fields [OF ok]) (use ok in \<open>auto simp: nda_ok_def iterator_ok_def\<close>)
  show ?thesis
  proof (cases "rob_instList b t = []")
    case True
    with r False ok1 show ?thesis by (auto simp: rob_squash_def Let_def calmer_refl)
  next
    case ne: False
    let ?b2 = "?b\<lparr>squashIt := (squashIt b)(t := Some (last (rob_instList b t)))\<rparr>"
    have "nda_ok fl ready cl d z h e ?b2"
      by (rule nda_ok_fields [OF ok1]) (use ok ne in \<open>auto simp: nda_ok_def iterator_ok_def split: if_splits\<close>)
    moreover have "rob_doSquash fl' wake T single t (h, e, ?b2) = Some (h', e', b')"
      using r False ne by (simp add: rob_squash_def Let_def)
    ultimately show ?thesis using doSquash_ok [where cl = cl, OF _ cl] by fastforce
  qed
qed

end

section \<open>Inserting an instruction\<close>

text \<open>
  What rename guarantees of an instruction it sends to the buffer: it is the youngest of its
  thread, its destinations are of no other instruction in the buffer, and it is new.
\<close>

definition new_inst :: "inst_ptr set \<Rightarrow> inst_ptr \<Rightarrow> inst_store \<Rightarrow> ROB \<Rightarrow> bool" where
  "new_inst d p h b \<longleftrightarrow>
     p \<notin> d \<and> \<not> has (h p) Runahead \<and>
     (\<forall>t. p \<notin> set (rob_instList b t) \<and>
        (\<forall>q\<in>set (rob_instList b t). \<forall>k. \<not> (renames (h q) k \<and> renames (h p) k))) \<and>
     (\<forall>q\<in>set (rob_instList b (threadNumber (h p))). seqNum (h q) < seqNum (h p))"

lemma mark_new_frame [simp]:
  "seqNum (mark_new fl n r i) = seqNum i" "threadNumber (mark_new fl n r i) = threadNumber i"
  "staticInst (mark_new fl n r i) = staticInst i" "dest_regs (mark_new fl n r i) = dest_regs i"
  by (simp_all add: mark_new_def Let_def)

lemma mark_new_marks:
  "has (mark_new fl n r i) Squashed = has i Squashed"
  "has (mark_new fl n r i) MaySquashOthers = has i MaySquashOthers"
  "0 < n \<Longrightarrow> has (mark_new fl n r i) Unsafe \<or> exempt fl i"
  "\<not> r \<Longrightarrow> has (mark_new fl n r i) Runahead = has i Runahead"
  by (auto simp: mark_new_def Let_def exempt_def)

lemma push_inst_fields:
  assumes "push_inst t p b = Some b'"
  shows "rob_instList b' = (rob_instList b)(t := rob_instList b t @ [p])" and "squashIt b' = squashIt b"
    and "numInstThatMayCauseSquash b' = numInstThatMayCauseSquash b" and "inRunaheadMode b' = inRunaheadMode b"
    and "numInstsInROB b' = numInstsInROB b" and "threadEntries b' = threadEntries b"
  using assms by (auto simp: push_inst_def Let_def)

lemma note_branch_effect:
  assumes n: "note_branch fl lsq_age t p (h, b) = (h', b')"
    and new: "\<not> inRunaheadMode b t \<Longrightarrow> \<not> has (h p) Runahead"
  shows "(\<forall>q. q \<noteq> p \<longrightarrow> h' q = h q) \<and> rob_view (reset_status MaySquashOthers (reset_status Runahead (h' p))) =
      rob_view (reset_status MaySquashOthers (reset_status Runahead (h p))) \<and>
    has (h' p) MaySquashOthers = (has (h p) MaySquashOthers \<and> \<not> inRunaheadMode b t) \<and>
    rob_instList b' = rob_instList b \<and> squashIt b' = squashIt b \<and>
    numInstThatMayCauseSquash b' = (numInstThatMayCauseSquash b)
      (t := numInstThatMayCauseSquash b t + (if has (h' p) MaySquashOthers then 1 else 0)) \<and>
    inRunaheadMode b' = (inRunaheadMode b)(t := inRunaheadMode b t \<or> initiator (h' p)) \<and>
    numInstsInROB b' = numInstsInROB b \<and> threadEntries b' = threadEntries b"
proof (cases "has (h p) MaySquashOthers")
  case False
  with n show ?thesis by (auto simp: note_branch_def initiator_def)
next
  case True
  then show ?thesis
    using n new
    by (cases "inRunaheadMode b t")
      (auto simp: note_branch_def initiator_def upd_inst_apply rob_view_def Let_def split: if_splits)
qed

text \<open>The effect of an insert on the instruction and on the buffer.\<close>

lemma insert_effect:
  assumes r: "rob_insertInst fl lsq_age p (h, b) = Some (h', b')" and new: "\<not> has (h p) Runahead"
  defines "t \<equiv> threadNumber (h p)"
  shows "(\<forall>q. q \<noteq> p \<longrightarrow> h' q = h q) \<and> seqNum (h' p) = seqNum (h p) \<and> threadNumber (h' p) = t \<and>
    staticInst (h' p) = staticInst (h p) \<and> dest_regs (h' p) = dest_regs (h p) \<and>
    has (h' p) MaySquashOthers = (has (h p) MaySquashOthers \<and> \<not> inRunaheadMode b t) \<and>
    (0 < numInstThatMayCauseSquash b t \<longrightarrow> has (h' p) Unsafe \<or> exempt fl (h p)) \<and>
    rob_instList b' = (rob_instList b)(t := rob_instList b t @ [p]) \<and> squashIt b' = squashIt b \<and>
    numInstThatMayCauseSquash b' = (numInstThatMayCauseSquash b)
      (t := numInstThatMayCauseSquash b t + (if has (h' p) MaySquashOthers then 1 else 0)) \<and>
    inRunaheadMode b' = (inRunaheadMode b)(t := inRunaheadMode b t \<or> initiator (h' p))"
proof -
  from r obtain b1 where b1: "push_inst t p b = Some b1"
    by (auto simp: rob_insertInst_def t_def Let_def bind_eq_Some_conv)
  note P = push_inst_fields [OF b1]
  define i where "i = mark_new fl (numInstThatMayCauseSquash b t) (inRunaheadMode b t) (h p)"
  have M: "has i MaySquashOthers = has (h p) MaySquashOthers"
    "0 < numInstThatMayCauseSquash b t \<Longrightarrow> has i Unsafe \<or> exempt fl (h p)" "\<not> inRunaheadMode b t \<Longrightarrow> \<not> has i Runahead"
    using mark_new_marks new by (auto simp: i_def)
  obtain h2 b2 where nb: "note_branch fl lsq_age t p (h(p := i), b1) = (h2, b2)" by (metis surj_pair)
  have h': "h' = h2" and b': "b' = b2\<lparr>numInstsInROB := numInstsInROB b2 + 1, threadEntries := (threadEntries b2)(t := threadEntries b2 t + 1)\<rparr>"
    using r b1 nb P by (auto simp: rob_insertInst_def Let_def t_def [symmetric] upd_inst_def i_def [symmetric])
  note E = note_branch_effect [OF nb]
  have v: "rob_view (reset_status MaySquashOthers (reset_status Runahead (h' p))) =
      rob_view (reset_status MaySquashOthers (reset_status Runahead i))"
    using E M P h' by simp
  have "seqNum (h' p) = seqNum (h p) \<and> threadNumber (h' p) = t \<and> staticInst (h' p) = staticInst (h p) \<and>
      dest_regs (h' p) = dest_regs (h p)"
    using rob_viewD(1-4) [OF v] by (simp add: i_def t_def)
  moreover have "has (h' p) Unsafe = has i Unsafe" using rob_viewD(6) [OF v, of Unsafe] by simp
  ultimately show ?thesis using E M P h' b' by simp
qed

lemma insert_ok:
  assumes r: "rob_insertInst fl lsq_age p (h, b) = Some (h', b')" and new: "new_inst d p h b"
    and ok: "nda_ok fl ready cl d z h e b"
  shows "nda_ok fl ready cl d z h' e b'"
proof -
  let ?t = "threadNumber (h p)"
  note N = new [unfolded new_inst_def]
  have E: "\<And>q. q \<noteq> p \<Longrightarrow> h' q = h q" "seqNum (h' p) = seqNum (h p)" "threadNumber (h' p) = ?t"
    "staticInst (h' p) = staticInst (h p)" "dest_regs (h' p) = dest_regs (h p)"
    "has (h' p) MaySquashOthers = (has (h p) MaySquashOthers \<and> \<not> inRunaheadMode b ?t)"
    "0 < numInstThatMayCauseSquash b ?t \<Longrightarrow> has (h' p) Unsafe \<or> exempt fl (h' p)"
    "rob_instList b' = (rob_instList b)(?t := rob_instList b ?t @ [p])" "squashIt b' = squashIt b"
    "numInstThatMayCauseSquash b' = (numInstThatMayCauseSquash b)
      (?t := numInstThatMayCauseSquash b ?t + (if has (h' p) MaySquashOthers then 1 else 0))"
    "inRunaheadMode b' = (inRunaheadMode b)(?t := inRunaheadMode b ?t \<or> initiator (h' p))"
    using insert_effect [OF r] N by (auto simp: exempt_def)
  have same: "h' q = h q" if "q \<in> set (rob_instList b t)" for q t using E(1) N that by metis
  have old: "sorted_wrt (R h') (rob_instList b t) = sorted_wrt (R h) (rob_instList b t)"
    if "\<And>q i. q \<in> set (rob_instList b t) \<Longrightarrow> i \<in> set (rob_instList b t) \<Longrightarrow> R h' q i = R h q i" for R :: "inst_store \<Rightarrow> inst_ptr \<Rightarrow> inst_ptr \<Rightarrow> bool" and t
    using that sorted_wrt_mono_rel [of "rob_instList b t" "R h" "R h'"] sorted_wrt_mono_rel [of "rob_instList b t" "R h'" "R h"] by blast
  have ren: "renames (h' q) k = renames (h q) k" for q k using E(1,5) by (cases "q = p") (auto simp: renames_def)
  have mem: "q \<in> set (rob_instList b' t) \<longleftrightarrow> q \<in> set (rob_instList b t) \<or> q = p \<and> t = ?t" for q t
    by (auto simp: E(8))
  have cnt: "branches h' (rob_instList b t) = branches h (rob_instList b t)" for t
    by (rule count_if_cong) (simp add: same)
  have K: "numInstThatMayCauseSquash b t = int (branches h (rob_instList b t)) + cl t" "0 \<le> cl t" for t
    using nda_okD(5) [OF ok] by (auto simp: counter_ok_def)
  have R: "inRunaheadMode b t = (\<exists>q\<in>set (rob_instList b t). initiator (h q))"
    "sorted_wrt (\<lambda>q i. initiator (h q) \<longrightarrow> \<not> has (h i) MaySquashOthers) (rob_instList b t)" for t
    using nda_okD(6) [OF ok] by (auto simp: runahead_ok_def)
  show ?thesis
  proof (rule nda_okI)
    show "ids_ok h' (rob_instList b')"
      unfolding ids_ok_def
    proof (intro allI conjI)
      fix t
      have "sorted_wrt (\<lambda>p q. seqNum (h' p) < seqNum (h' q)) (rob_instList b t)"
        using nda_okD(1) [OF ok] old [of t "\<lambda>h p q. seqNum (h p) < seqNum (h q)"] same by (auto simp: ids_ok_def)
      then show "sorted_wrt (\<lambda>p q. seqNum (h' p) < seqNum (h' q)) (rob_instList b' t)"
        using N E(2) same by (auto simp: E(8) sorted_wrt_snoc)
      show "\<forall>q\<in>set (rob_instList b' t). threadNumber (h' q) = t"
        using nda_okD(1) [OF ok] E(3) same by (auto simp: ids_ok_def mem)
    qed
    show "disjoint_ok h' (rob_instList b')"
      using nda_okD(2) [OF ok] N unfolding disjoint_ok_def ren mem by blast
    show "sorted_wrt (shadow_ok fl h') (rob_instList b' t)" for t
    proof -
      have "sorted_wrt (shadow_ok fl h') (rob_instList b t)"
        using nda_okD(3) [OF ok, of t] old [of t "shadow_ok fl"] same by (auto simp: shadow_ok_def)
      moreover have "shadow_ok fl h' q p" if "q \<in> set (rob_instList b ?t)" for q
      proof (cases "has (h q) MaySquashOthers")
        case True
        then have "branches h (rob_instList b ?t) \<noteq> 0" using that unfolding count_if_0_iff by blast
        then have "0 < numInstThatMayCauseSquash b ?t" using K [of ?t] by linarith
        then show ?thesis using E(7) by (simp add: shadow_ok_def)
      qed (simp add: shadow_ok_def same [OF that])
      ultimately show ?thesis by (auto simp: E(8) sorted_wrt_snoc)
    qed
    show "isolated ready d z h' e (rob_instList b')"
      using nda_okD(4) [OF ok] N same by (auto simp: isolated_def mem)
    show "counter_ok cl h' b'" using K by (auto simp: counter_ok_def E(8,10) cnt)
    show "runahead_ok h' b'"
      unfolding runahead_ok_def
    proof (intro allI conjI)
      fix t
      show "inRunaheadMode b' t = (\<exists>q\<in>set (rob_instList b' t). initiator (h' q))"
        using R(1) [of t] by (cases "t = ?t") (auto simp: E(8,11) same)
      have "sorted_wrt (\<lambda>q i. initiator (h' q) \<longrightarrow> \<not> has (h' i) MaySquashOthers) (rob_instList b t)"
        using R(2) [of t] old [of t "\<lambda>h q i. initiator (h q) \<longrightarrow> \<not> has (h i) MaySquashOthers"] same by auto
      then show "sorted_wrt (\<lambda>q i. initiator (h' q) \<longrightarrow> \<not> has (h' i) MaySquashOthers) (rob_instList b' t)"
        using R(1) same E(6) by (auto simp: E(8) sorted_wrt_snoc)
    qed
    show "iterator_ok b'" using nda_okD(7) [OF ok] by (auto simp: iterator_ok_def E(8,9))
  qed
qed

section \<open>What the invariant depends on\<close>

text \<open>The part of an instruction that the invariant reads.\<close>

definition nda_view :: "dyn_inst \<Rightarrow> InstSeqNum \<times> ThreadID \<times> StaticInst \<times> PhysRegId list \<times> Status set" where
  "nda_view i = (seqNum i, threadNumber i, staticInst i, dest_regs i,
                 status i \<inter> {Squashed, Unsafe, MaySquashOthers, Runahead})"

lemma nda_viewD:
  assumes "nda_view i = nda_view j"
  shows "seqNum i = seqNum j" and "threadNumber i = threadNumber j" and "staticInst i = staticInst j"
    and "dest_regs i = dest_regs j" and "renames i k = renames j k"
    and "a \<in> {Squashed, Unsafe, MaySquashOthers, Runahead} \<Longrightarrow> has i a = has j a"
  using assms by (auto simp: nda_view_def renames_def)

lemma nda_view_rob_view: "rob_view i = rob_view j \<Longrightarrow> nda_view i = nda_view j"
  by (auto simp: rob_view_def nda_view_def)

lemma calmer_view: "(\<And>q. nda_view (h' q) = nda_view (h q)) \<Longrightarrow> calmer h h'"
  using nda_viewD [of "h' q" "h q" for q] by (simp add: calmer_def)

text \<open>
  The invariant is about the instructions in the buffer: others may change, and registers
  they do not write may become ready.
\<close>

lemma nda_ok_listed:
  assumes ok: "nda_ok fl ready cl d z h e b"
    and v: "\<And>t q. q \<in> set (rob_instList b t) \<Longrightarrow> nda_view (h' q) = nda_view (h q)"
    and r: "\<And>t q k. q \<in> set (rob_instList b t) \<Longrightarrow> renames (h q) k \<Longrightarrow> ready e' k \<Longrightarrow> ready e k"
  shows "nda_ok fl ready cl d z h' e' b"
proof -
  note V = nda_viewD [OF v]
  have sw: "sorted_wrt (R h') (rob_instList b t)" if "sorted_wrt (R h) (rob_instList b t)"
    "\<And>q i. q \<in> set (rob_instList b t) \<Longrightarrow> i \<in> set (rob_instList b t) \<Longrightarrow> R h q i \<Longrightarrow> R h' q i"
    for R :: "inst_store \<Rightarrow> inst_ptr \<Rightarrow> inst_ptr \<Rightarrow> bool" and t
    by (rule sorted_wrt_mono_rel [OF _ that(1)]) (rule that(2))
  have ini: "initiator (h' q) = initiator (h q)" if "q \<in> set (rob_instList b t)" for q t
    using V(6) that by (simp add: initiator_def)
  show ?thesis
  proof (rule nda_okI)
    show "ids_ok h' (rob_instList b)"
      using nda_okD(1) [OF ok] sw [of "\<lambda>h p q. seqNum (h p) < seqNum (h q)"] V(1,2) by (auto simp: ids_ok_def)
    show "disjoint_ok h' (rob_instList b)"
      using nda_okD(2) [OF ok] V(5) unfolding disjoint_ok_def by blast
    show "sorted_wrt (shadow_ok fl h') (rob_instList b t)" for t
      by (rule sw [of "shadow_ok fl", OF nda_okD(3) [OF ok]]) (use V(3,6) in \<open>simp add: shadow_ok_def exempt_def\<close>)
    show "isolated ready d z h' e' (rob_instList b)"
      unfolding isolated_def
    proof (intro allI ballI impI)
      fix t q k
      assume q: "q \<in> set (rob_instList b t)" and k: "renames (h' q) k"
        and m: "q \<in> d \<and> q \<notin> z \<and> has (h' q) Unsafe \<and> \<not> has (h' q) Squashed"
      have "renames (h q) k" "has (h q) Unsafe" "\<not> has (h q) Squashed"
        using k m V(5) [OF q] V(6) [OF q, of Unsafe] V(6) [OF q, of Squashed] by auto
      then show "\<not> ready e' k" using nda_okD(4) [OF ok] q m r [OF q, of k] unfolding isolated_def by blast
    qed
    have "branches h' (rob_instList b t) = branches h (rob_instList b t)" for t
      by (rule count_if_cong) (simp add: V(6))
    then show "counter_ok cl h' b" using nda_okD(5) [OF ok] by (simp add: counter_ok_def)
    have "sorted_wrt (\<lambda>q i. initiator (h' q) \<longrightarrow> \<not> has (h' i) MaySquashOthers) (rob_instList b t)" for t
      by (rule sw [of "\<lambda>h q i. initiator (h q) \<longrightarrow> \<not> has (h i) MaySquashOthers"])
        (use nda_okD(6) [OF ok] ini V(6) [of _ t MaySquashOthers] in \<open>simp_all add: runahead_ok_def\<close>)
    then show "runahead_ok h' b" using nda_okD(6) [OF ok] ini by (simp add: runahead_ok_def)
    show "iterator_ok b" by (rule nda_okD(7) [OF ok])
  qed
qed

section \<open>Retiring the head\<close>

text \<open>A step that touches nothing but the instruction \<open>p\<close> and its destinations.\<close>

definition only_at :: "('e \<Rightarrow> nat \<Rightarrow> bool) \<Rightarrow> inst_ptr \<Rightarrow> inst_store \<times> 'e \<Rightarrow> inst_store \<times> 'e \<Rightarrow> bool" where
  "only_at ready p s s' \<longleftrightarrow>
     (\<forall>q. q \<noteq> p \<longrightarrow> rob_view (fst s' q) = rob_view (fst s q)) \<and> dest_regs (fst s' p) = dest_regs (fst s p) \<and>
     (\<forall>k. ready (snd s') k \<longrightarrow> ready (snd s) k \<or> renames (fst s p) k)"

lemma only_at_refl: "only_at ready p s s"
  by (simp add: only_at_def)

lemma only_at_trans: "only_at ready p s s1 \<Longrightarrow> only_at ready p s1 s2 \<Longrightarrow> only_at ready p s s2"
  by (auto simp: only_at_def renames_def)

lemma only_at_upd:
  "(\<And>i. dest_regs (f i) = dest_regs i) \<Longrightarrow> only_at ready p (h, e) (upd_inst p f h, e)"
  by (simp add: only_at_def upd_inst_apply)

lemma nda_ok_only_at:
  assumes o: "only_at ready p (h, e) (h', e')" and n: "\<And>t. p \<notin> set (rob_instList b t)"
    and dis: "\<And>t q k. q \<in> set (rob_instList b t) \<Longrightarrow> renames (h q) k \<Longrightarrow> \<not> renames (h p) k"
    and ok: "nda_ok fl ready cl d z h e b"
  shows "nda_ok fl ready cl d z h' e' b"
proof (rule nda_ok_listed [OF ok])
  fix t q k assume q: "q \<in> set (rob_instList b t)"
  then have "q \<noteq> p" using n by blast
  then show "nda_view (h' q) = nda_view (h q)" using o by (intro nda_view_rob_view) (simp add: only_at_def)
  assume "renames (h q) k" "ready e' k"
  then show "ready e k" using o dis [OF q] by (auto simp: only_at_def)
qed

text \<open>Taking the head off its list.\<close>

lemma nda_ok_remove:
  assumes ok: "nda_ok fl ready cl d z h e b" and l: "rob_instList b t = p # rest" and it: "squashIt b t = None"
    and ini: "\<not> initiator (h p)"
    and b': "rob_instList b' = (rob_instList b)(t := rest)" "squashIt b' = squashIt b" "inRunaheadMode b' = inRunaheadMode b"
      "numInstThatMayCauseSquash b' = (numInstThatMayCauseSquash b)
         (t := numInstThatMayCauseSquash b t - (if has (h p) MaySquashOthers then 1 else 0))"
  shows "nda_ok fl ready cl d z h e b'" and "p \<notin> set (rob_instList b' t')"
    and "q \<in> set (rob_instList b' t') \<Longrightarrow> renames (h q) k \<Longrightarrow> \<not> renames (h p) k"
proof -
  have pin: "p \<in> set (rob_instList b t)" using l by simp
  have sub: "set (rob_instList b' u) \<subseteq> set (rob_instList b u)" for u using l by (auto simp: b')
  have sw: "sorted_wrt R (rob_instList b u) \<Longrightarrow> sorted_wrt R (rob_instList b' u)" for R u using l by (auto simp: b')
  show out: "p \<notin> set (rob_instList b' u)" for u
    using ids_ok_distinct [OF nda_okD(1) [OF ok], of t] ids_ok_thread [OF nda_okD(1) [OF ok] pin] l
    by (cases "u = t") (auto simp: b')
  show "q \<in> set (rob_instList b' t') \<Longrightarrow> renames (h q) k \<Longrightarrow> \<not> renames (h p) k"
    using nda_okD(2) [OF ok] sub out pin unfolding disjoint_ok_def by blast
  show "nda_ok fl ready cl d z h e b'"
  proof (rule nda_okI)
    show "ids_ok h (rob_instList b')" using nda_okD(1) [OF ok] sw sub unfolding ids_ok_def by blast
    show "disjoint_ok h (rob_instList b')" using nda_okD(2) [OF ok] sub unfolding disjoint_ok_def by blast
    show "isolated ready d z h e (rob_instList b')" using nda_okD(4) [OF ok] sub unfolding isolated_def by blast
    show "counter_ok cl h b'" using nda_okD(5) [OF ok] l by (auto simp: counter_ok_def b')
    have "(\<exists>q\<in>set (rob_instList b' u). initiator (h q)) = (\<exists>q\<in>set (rob_instList b u). initiator (h q))" for u
      using ini l by (auto simp: b')
    then show "runahead_ok h b'" using nda_okD(6) [OF ok] sw by (simp add: runahead_ok_def b'(3))
    show "iterator_ok b'" using nda_okD(7) [OF ok] it by (auto simp: iterator_ok_def b')
  qed (rule sw [OF nda_okD(3) [OF ok]])
qed

context waker
begin

lemma wake_only_at:
  assumes "wake p (h, e) = Some (h', e')"
  shows "only_at ready p (h, e) (h', e')"
  using wake_view [OF assms] wake_ready [OF assms] rob_viewD(4) [OF wake_view [OF assms]]
  by (simp add: only_at_def)

lemma mark_only_at:
  assumes "markFollowingInstructionsAsSafe fl wake mx [p] n (h, e) = Some (n', h', e')"
  shows "only_at ready p (h, e) (h', e')"
proof -
  note M = markedD [OF mark_spec [OF assms]]
  have gone: "q = p" if "has (h q) Unsafe" "\<not> has (h' q) Unsafe" for q using M(4) [OF that] by (auto split: if_splits)
  have "rob_view (h' q) = rob_view (h q)" if "q \<noteq> p" for q
  proof -
    have "has (h' q) b = has (h q) b" if "b \<noteq> CanIssue" "b \<noteq> IqEntry" for b
      using safe_stepD(6,7) [OF M(1)] gone \<open>q \<noteq> p\<close> that by (cases "b = Unsafe") auto
    then have "status (h' q) - {CanIssue, IqEntry} = status (h q) - {CanIssue, IqEntry}" by blast
    then show ?thesis using safe_stepD(1-4) [OF M(1)] by (simp add: rob_view_def)
  qed
  then show ?thesis using M(6) gone safe_stepD(4) [OF M(1)] by (auto simp: only_at_def)
qed

lemma updateHead_fields [simp]:
  "rob_instList (updateHead T h b) = rob_instList b" "squashIt (updateHead T h b) = squashIt b"
  "numInstThatMayCauseSquash (updateHead T h b) = numInstThatMayCauseSquash b"
  "inRunaheadMode (updateHead T h b) = inRunaheadMode b" "threadEntries (updateHead T h b) = threadEntries b"
  by (simp_all add: updateHead_def)

lemma retire_unsafe_effect:
  assumes "retire_unsafe wake p (h, e) = Some (h', e')"
  shows "only_at ready p (h, e) (h', e') \<and> has (h' p) MaySquashOthers = has (h p) MaySquashOthers"
proof (cases "has (h p) Unsafe \<and> \<not> has (h p) Squashed")
  case True
  let ?h = "upd_inst p (reset_status Unsafe) h"
  have w: "wake p (?h, e) = Some (h', e')" using assms True by (simp add: retire_unsafe_def)
  have "only_at ready p (h, e) (?h, e)" by (rule only_at_upd) simp
  moreover have "has (h' p) MaySquashOthers = has (?h p) MaySquashOthers"
    by (rule rob_viewD(6) [OF wake_view [OF w]]) auto
  ultimately show ?thesis using only_at_trans wake_only_at [OF w] by (auto simp: upd_inst_apply)
next
  case False
  with assms show ?thesis by (auto simp: retire_unsafe_def only_at_refl)
qed

lemma retire_branch_effect:
  assumes "retire_branch fl wake t p (h, e, b) = Some (h', e', b')"
  shows "only_at ready p (h, e) (h', e') \<and> b' = b\<lparr>numInstThatMayCauseSquash := (numInstThatMayCauseSquash b)
       (t := numInstThatMayCauseSquash b t - (if has (h p) MaySquashOthers then 1 else 0))\<rparr>"
proof (cases "has (h p) MaySquashOthers")
  case True
  let ?h = "upd_inst p (reset_status MaySquashOthers) h"
  obtain n where m: "markFollowingInstructionsAsSafe fl wake 1 [p] 0 (?h, e) = Some (n, h', e')"
    and b: "b' = b\<lparr>numInstThatMayCauseSquash := (numInstThatMayCauseSquash b)(t := numInstThatMayCauseSquash b t - 1)\<rparr>"
    using assms True by (auto simp: retire_branch_def bind_eq_Some_conv simp del: markFollowingInstructionsAsSafe.simps)
  have "only_at ready p (h, e) (?h, e)" by (rule only_at_upd) simp
  then show ?thesis using only_at_trans mark_only_at [OF m] b True by auto
next
  case False
  with assms show ?thesis by (auto simp: retire_branch_def only_at_refl)
qed

lemma retire_ok:
  assumes r: "retireHead fl' wake T t (h, e, b) = Some (h', e', b')" and it: "squashIt b t = None"
    and ini: "\<not> initiator (h (hd (rob_instList b t)))" and ok: "nda_ok fl ready cl d z h e b"
  shows "nda_ok fl ready cl d z h' e' b' \<and> rob_instList b' = (rob_instList b)(t := tl (rob_instList b t))"
proof -
  from r obtain p rest where l: "rob_instList b t = p # rest"
    by (auto simp: retireHead_def split: list.splits)
  let ?h = "upd_inst p (set_status Committed \<circ> reset_status RobEntry) h"
  define b1 where "b1 = b\<lparr>numInstsInROB := numInstsInROB b - 1, threadEntries := (threadEntries b)(t := threadEntries b t - 1)\<rparr>"
  obtain h2 e2 b3 where 2: "retire_unsafe wake p (?h, e) = Some (h2, e2)"
    and 3: "retire_branch fl' wake t p (h2, e2, b1) = Some (h', e', b3)"
    and eq: "b' = updateHead T h' (b3\<lparr>rob_instList := (rob_instList b3)(t := rest)\<rparr>)"
    using r l by (auto simp: retireHead_def b1_def [symmetric] bind_eq_Some_conv)
  have s1: "only_at ready p (h, e) (?h, e)" by (rule only_at_upd) simp
  have s2: "only_at ready p (?h, e) (h2, e2)" and may: "has (h2 p) MaySquashOthers = has (?h p) MaySquashOthers"
    using retire_unsafe_effect [OF 2] by auto
  have s3: "only_at ready p (h2, e2) (h', e')" and B3: "b3 = b1\<lparr>numInstThatMayCauseSquash := (numInstThatMayCauseSquash b1)
       (t := numInstThatMayCauseSquash b1 t - (if has (h2 p) MaySquashOthers then 1 else 0))\<rparr>"
    using retire_branch_effect [OF 3] by auto
  have B: "rob_instList b' = (rob_instList b)(t := rest)" "squashIt b' = squashIt b" "inRunaheadMode b' = inRunaheadMode b"
    "numInstThatMayCauseSquash b' = (numInstThatMayCauseSquash b)
       (t := numInstThatMayCauseSquash b t - (if has (h p) MaySquashOthers then 1 else 0))"
    using may by (auto simp: eq B3 b1_def upd_inst_apply)
  have R: "nda_ok fl ready cl d z h e b'" "\<And>u. p \<notin> set (rob_instList b' u)"
    "\<And>u q k. q \<in> set (rob_instList b' u) \<Longrightarrow> renames (h q) k \<Longrightarrow> \<not> renames (h p) k"
    using nda_ok_remove [OF ok l it _ B] ini l by auto
  have o: "only_at ready p (h, e) (h', e')" by (rule only_at_trans [OF only_at_trans [OF s1 s2] s3])
  have "nda_ok fl ready cl d z h' e' b'" by (rule nda_ok_only_at [OF o R(2,3,1)])
  then show ?thesis using B l by simp
qed

end

section \<open>Writeback and the cycle of the execute stage\<close>

lemma nda_ok_zeroed_mono:
  assumes "nda_ok fl ready cl d z h e b" and "z \<subseteq> z'"
  shows "nda_ok fl ready cl d z' h e b"
proof -
  have "isolated ready d z' h e (rob_instList b)"
    using nda_okD(4) [OF assms(1)] assms(2) unfolding isolated_def by blast
  then show ?thesis using assms(1) by (simp add: nda_ok_def)
qed

lemma nda_ok_view:
  assumes ok: "nda_ok fl ready cl d z h e b" and v: "\<And>q. nda_view (h' q) = nda_view (h q)"
    and iso: "isolated ready d' z h' e' (rob_instList b)"
  shows "nda_ok fl ready cl d' z h' e' b"
proof -
  have "marks_same h h'" using nda_viewD(6) [OF v] by (simp add: marks_same_def)
  then have "nda_ok fl ready cl d z h' e b" by (rule nda_ok_same_marks [OF ok calmer_view [OF v]])
  then show ?thesis using iso by (simp add: nda_ok_def)
qed

abbreviation zeroed :: "IEW \<Rightarrow> inst_ptr set" where
  "zeroed w \<equiv> fst ` set (zeroedOutputs w)"

definition wb_frame :: "IEW \<Rightarrow> IEW \<Rightarrow> bool" where
  "wb_frame w w' \<longleftrightarrow> numClearedMaySquashOthers w' = numClearedMaySquashOthers w \<and> wbWidth w' = wbWidth w"

context waker
begin

lemma wake_ok:
  assumes w: "wake p (h, e) = Some (h', e')" and p: "p \<in> set (rob_instList b t)"
    and safe: "\<not> has (h p) Unsafe \<or> p \<in> z" and ok: "nda_ok fl ready cl d z h e b"
  shows "nda_ok fl ready cl d z h' e' b"
proof (rule nda_ok_view [OF ok nda_view_rob_view [OF wake_view [OF w]]])
  note V = rob_viewD [OF wake_view [OF w]]
  show "isolated ready d z h' e' (rob_instList b)"
    unfolding isolated_def
  proof (intro allI ballI impI)
    fix u q k
    assume q: "q \<in> set (rob_instList b u)" "q \<in> d \<and> q \<notin> z \<and> has (h' q) Unsafe \<and> \<not> has (h' q) Squashed" "renames (h' q) k"
    then have u: "has (h q) Unsafe" "\<not> has (h q) Squashed" "renames (h q) k" using V(5,6) by auto
    have "\<not> renames (h p) k" using nda_okD(2) [OF ok] p q(1) u(1,3) safe q(2) unfolding disjoint_ok_def by blast
    moreover have "\<not> ready e k" using nda_okD(4) [OF ok] q(1,2) u unfolding isolated_def by blast
    ultimately show "\<not> ready e' k" using wake_ready [OF w] by blast
  qed
qed

text \<open>One writeback, and what it leaves of the stage.\<close>

lemma zero_and_wake_ok:
  assumes r: "zero_and_wake wake p (h, e, w) = Some (h', e', w')" and p: "p \<in> set (rob_instList b t)"
    and ok: "nda_ok fl ready cl d (zeroed w) h e b"
  shows "nda_ok fl ready cl d (zeroed w') h' e' b \<and> calmer h h' \<and> wb_frame w w' \<and>
    numWokenInstructions w' = numWokenInstructions w + 1"
proof -
  obtain zs where w: "wake p (h, e) = Some (h', e')"
    and w': "w' = w\<lparr>zeroedOutputs := zeroedOutputs w @ [(p, zs)], numWokenInstructions := numWokenInstructions w + 1\<rparr>"
    using r by (auto simp: zero_and_wake_def iew_wakeDependents_def bind_eq_Some_conv)
  have "nda_ok fl ready cl d (zeroed w') h e b" by (rule nda_ok_zeroed_mono [OF ok]) (auto simp: w')
  then have "nda_ok fl ready cl d (zeroed w') h' e' b" using wake_ok [OF w p] by (simp add: w')
  then show ?thesis using w' calmer_safe_step [OF wake_safe_step [OF w]] by (simp add: wb_frame_def)
qed

lemma writeback_inst_ok:
  assumes r: "writeback_inst fl' wake p (h, e, w) = Some (h', e', w')"
    and p: "has (h p) Squashed \<or> p \<in> set (rob_instList b (threadNumber (h p)))"
    and ok: "nda_ok fl ready cl d (zeroed w) h e b"
  shows "nda_ok fl ready cl d (zeroed w') h' e' b \<and> calmer h h' \<and> wb_frame w w' \<and>
    numWokenInstructions w' \<le> numWokenInstructions w + 1"
proof -
  have id: "nda_ok fl ready cl d (zeroed w) h e b \<and> calmer h h \<and> wb_frame w w \<and>
    numWokenInstructions w \<le> numWokenInstructions w + 1" using ok by (simp add: calmer_refl wb_frame_def)
  show ?thesis
  proof (cases "\<not> has (h p) Squashed \<and> has (h p) Executed \<and> fault (h p) = None")
    case True
    then have pin: "p \<in> set (rob_instList b (threadNumber (h p)))" using p by blast
    obtain h1 e1 where 1: "(if \<not> has (h p) Unsafe then iew_wakeDependents wake p (h, e, w)
        else if has (h p) Runahead
        then if CD_Runahead_QuickOutputPropagation fl' \<and> sflag (h p) IsLoad then Some (h, e, w)
             else zero_and_wake wake p (h, e, w)
        else Some (h, e, w)) = Some (h1, e1, w')" and h': "h' = upd_inst p (set_status WritebackDone) h1" "e' = e1"
      using r True by (auto simp: writeback_inst_def bind_eq_Some_conv simp del: if_split)
    have 2: "nda_ok fl ready cl d (zeroed w') h1 e1 b \<and> calmer h h1 \<and> wb_frame w w' \<and>
      numWokenInstructions w' \<le> numWokenInstructions w + 1"
    proof (cases "has (h p) Unsafe")
      case False
      then obtain w1 where w1: "wake p (h, e) = Some (h1, e1)" "w' = w\<lparr>numWokenInstructions := numWokenInstructions w + 1\<rparr>"
        using 1 by (auto simp: iew_wakeDependents_def bind_eq_Some_conv)
      then show ?thesis
        using wake_ok [OF w1(1) pin _ ok] False calmer_safe_step [OF wake_safe_step [OF w1(1)]] by (simp add: wb_frame_def)
    next
      case True
      then show ?thesis using 1 id zero_and_wake_ok [OF _ pin ok] by (auto split: if_splits)
    qed
    have c: "calmer h1 h'" and m: "marks_same h1 h'"
      unfolding h' by (auto simp: calmer_def marks_same_def upd_inst_apply)
    have "nda_ok fl ready cl d (zeroed w') h' e1 b" by (rule nda_ok_same_marks [OF _ c m]) (use 2 in blast)
    then show ?thesis using 2 calmer_trans [OF _ c, of h] h'(2) by simp
  next
    case False
    show ?thesis
    proof (cases "CD_Runahead_QuickOutputPropagation fl' \<and> \<not> has (h p) Squashed \<and> \<not> has (h p) Executed \<and>
                has (h p) Runahead \<and> sflag (h p) IsLoad")
      case True
      then have "zero_and_wake wake p (h, e, w) = Some (h', e', w')" using r False by (auto simp: writeback_inst_def)
      then show ?thesis using zero_and_wake_ok [OF _ _ ok] p True by auto
    next
      case quick: False
      have "writeback_inst fl' wake p (h, e, w) = Some (h, e, w)"
        unfolding writeback_inst_def prod.case if_not_P [OF False] if_not_P [OF quick] by (rule refl)
      then show ?thesis using r id by simp
    qed
  qed
qed

lemma writebacks_ok:
  assumes "foldM (writeback_inst fl' wake) ps (h, e, w) = Some (h', e', w')"
    and "\<forall>p\<in>set ps. has (h p) Squashed \<or> p \<in> set (rob_instList b (threadNumber (h p)))"
    and "nda_ok fl ready cl d (zeroed w) h e b"
  shows "nda_ok fl ready cl d (zeroed w') h' e' b \<and> calmer h h' \<and> wb_frame w w' \<and>
    numWokenInstructions w' \<le> numWokenInstructions w + length ps"
  using assms
proof (induction ps arbitrary: h e w)
  case Nil
  then show ?case by (simp add: calmer_refl wb_frame_def)
next
  case (Cons p ps)
  obtain h1 e1 w1 where s: "writeback_inst fl' wake p (h, e, w) = Some (h1, e1, w1)"
    and rest: "foldM (writeback_inst fl' wake) ps (h1, e1, w1) = Some (h', e', w')"
    using Cons.prems(1) by (auto simp: bind_eq_Some_conv)
  have 1: "nda_ok fl ready cl d (zeroed w1) h1 e1 b" "calmer h h1" "wb_frame w w1" "numWokenInstructions w1 \<le> numWokenInstructions w + 1"
    using writeback_inst_ok [OF s _ Cons.prems(3)] Cons.prems(2) by auto
  have "\<forall>p\<in>set ps. has (h1 p) Squashed \<or> p \<in> set (rob_instList b (threadNumber (h1 p)))"
    using Cons.prems(2) calmerD(2,7) [OF 1(2)] by auto
  from Cons.IH [OF rest this 1(1)] show ?case
    using 1(2-4) calmer_trans by (auto simp: wb_frame_def)
qed

end

section \<open>The machine\<close>

text \<open>
  A back end: besides the wakeup, dispatch to the instruction queue and the report of an
  ordering violation. They leave alone the marks the invariant reads and make no register
  ready.
\<close>

locale nda_backend = waker wake ready
  for wake :: "inst_ptr \<Rightarrow> inst_store \<times> 'e \<Rightarrow> (inst_store \<times> 'e) option" and ready :: "'e \<Rightarrow> nat \<Rightarrow> bool" +
  fixes dispatch :: "inst_ptr \<Rightarrow> inst_store \<times> 'e \<Rightarrow> (inst_store \<times> 'e) option"
    and violate :: "inst_ptr \<Rightarrow> inst_ptr \<Rightarrow> inst_store \<times> 'e \<Rightarrow> (inst_store \<times> 'e) option"
  assumes dispatch_view: "dispatch p (h, e) = Some (h', e') \<Longrightarrow> nda_view (h' q) = nda_view (h q)"
    and dispatch_ready: "dispatch p (h, e) = Some (h', e') \<Longrightarrow> ready e' k \<Longrightarrow> ready e k"
    and violate_view: "violate p v (h, e) = Some (h', e') \<Longrightarrow> nda_view (h' q) = nda_view (h q)"
    and violate_ready: "violate p v (h, e) = Some (h', e') \<Longrightarrow> ready e' k \<Longrightarrow> ready e k"

text \<open>The resolved branches the next update will count, for the threads it will visit.\<close>

definition pending :: "ThreadID list \<Rightarrow> IEW \<Rightarrow> ThreadID \<Rightarrow> int" where
  "pending ts w t = (if t \<in> set ts then numClearedMaySquashOthers w t else 0)"

lemma pending_cong: "numClearedMaySquashOthers w' = numClearedMaySquashOthers w \<Longrightarrow> pending ts w' = pending ts w"
  by (simp add: fun_eq_iff pending_def)

lemma squash_signal_fields [simp]:
  "numClearedMaySquashOthers (squashDueToBranch p t h w) = numClearedMaySquashOthers w"
  "zeroedOutputs (squashDueToBranch p t h w) = zeroedOutputs w" "wbWidth (squashDueToBranch p t h w) = wbWidth w"
  "numWokenInstructions (squashDueToBranch p t h w) = numWokenInstructions w"
  "numClearedMaySquashOthers (squashDueToMemOrder p t h w) = numClearedMaySquashOthers w"
  "zeroedOutputs (squashDueToMemOrder p t h w) = zeroedOutputs w" "wbWidth (squashDueToMemOrder p t h w) = wbWidth w"
  "numWokenInstructions (squashDueToMemOrder p t h w) = numWokenInstructions w"
  by (simp_all add: squashDueToBranch_def squashDueToMemOrder_def)

lemma resolve_clear_ok:
  assumes ok: "nda_ok fl ready (pending T w) d z h e b" and p: "p \<in> set (rob_instList b t)" and t: "t \<in> set T"
    and m: "has (h p) MaySquashOthers" "\<not> has (h p) Runahead"
    and w': "numClearedMaySquashOthers w' = (numClearedMaySquashOthers w)(t := numClearedMaySquashOthers w t + 1)"
  shows "nda_ok fl ready (pending T w') d z (upd_inst p (reset_status MaySquashOthers) h) e b"
proof -
  have "resolve_branch t p (h, b, 0) = Some (upd_inst p (reset_status MaySquashOthers) h, b, 1)"
    using m by (simp add: resolve_branch_def upd_inst_apply)
  moreover have "bump (pending T w) t 1 = pending T w'" using t by (auto simp: bump_def pending_def w')
  ultimately show ?thesis using resolve_branch_ok [of t p h b 0 _ _ 1 fl ready "pending T w" d z e] p ok by simp
qed

definition exec_frame :: "IEW \<Rightarrow> IEW \<Rightarrow> bool" where
  "exec_frame w w' \<longleftrightarrow> zeroedOutputs w' = zeroedOutputs w \<and> wbWidth w' = wbWidth w \<and>
     numWokenInstructions w' = numWokenInstructions w"

text \<open>What the resolution of an executed instruction can do.\<close>

lemma resolve_cases:
  assumes r: "resolve_executed fl' violate (p, mis, vio) (h, e, w) = Some (h', e', w')"
  defines "t \<equiv> threadNumber (h p)"
  obtains (same) "h' = h" "e' = e" "numClearedMaySquashOthers w' = numClearedMaySquashOthers w" "exec_frame w w'"
    | (violation) v where "violate p v (h, e) = Some (h', e')" "numClearedMaySquashOthers w' = numClearedMaySquashOthers w" "exec_frame w w'"
    | (clear) "has (h p) MaySquashOthers" "\<not> has (h p) Runahead" "h' = upd_inst p (reset_status MaySquashOthers) h" "e' = e"
        "numClearedMaySquashOthers w' = (numClearedMaySquashOthers w)(t := numClearedMaySquashOthers w t + 1)" "exec_frame w w'"
proof (cases "\<not> fetchRedirect w t \<or> \<not> tc_squash w t \<or> tc_squashedSeqNum w t > seqNum (h p)")
  case False
  with r have "h' = h" "e' = e" "w' = w" by (auto simp: resolve_executed_def Let_def t_def)
  then show ?thesis using same by (simp add: exec_frame_def)
next
  case guard: True
  note R = r [unfolded resolve_executed_def prod.case Let_def t_def [symmetric] if_P [OF guard]]
  show ?thesis
  proof (cases "mis \<and> \<not> (\<not> has (h p) Executed \<and> sflag (h p) IsLoad)")
    case True
    with R show ?thesis using same by (auto simp: exec_frame_def)
  next
    case False
    note R2 = R [unfolded if_not_P [OF False]]
    show ?thesis
    proof (cases vio)
      case (Some v)
      with R2 show ?thesis using violation by (auto simp: exec_frame_def bind_eq_Some_conv)
    next
      case None
      with R2 show ?thesis using same clear by (auto simp: exec_frame_def split: if_splits)
    qed
  qed
qed

context nda_backend
begin

lemma resolve_ok:
  assumes r: "resolve_executed fl' violate (p, mis, vio) (h, e, w) = Some (h', e', w')"
    and p: "p \<in> set (rob_instList b (threadNumber (h p)))" "threadNumber (h p) \<in> set T"
    and ok: "nda_ok fl ready (pending T w) d z h e b"
  shows "nda_ok fl ready (pending T w') d z h' e' b \<and> calmer h h' \<and> exec_frame w w'"
proof -
  let ?t = "threadNumber (h p)"
  show ?thesis using r
  proof (cases rule: resolve_cases)
    case same
    then show ?thesis using ok pending_cong [OF same(3)] by (simp add: calmer_refl)
  next
    case violation
    have "nda_ok fl ready (pending T w) d z h' e' b"
      by (rule nda_ok_listed [OF ok violate_view [OF violation(1)] violate_ready [OF violation(1)]])
    then show ?thesis using violation calmer_view [OF violate_view [OF violation(1)]] pending_cong [OF violation(2)] by simp
  next
    case clear
    then show ?thesis
      using resolve_clear_ok [OF ok p clear(1,2,5)] calmer_reset [of MaySquashOthers h p] by simp
  qed
qed

lemma resolves_ok:
  assumes "foldM (resolve_executed fl' violate) evs (h, e, w) = Some (h', e', w')"
    and "\<forall>(p, ev)\<in>set evs. p \<in> set (rob_instList b (threadNumber (h p))) \<and> threadNumber (h p) \<in> set T"
    and "nda_ok fl ready (pending T w) d z h e b"
  shows "nda_ok fl ready (pending T w') d z h' e' b \<and> calmer h h' \<and> exec_frame w w'"
  using assms
proof (induction evs arbitrary: h e w)
  case Nil
  then show ?case by (simp add: calmer_refl exec_frame_def)
next
  case (Cons ev evs)
  obtain p mis vio where ev: "ev = (p, mis, vio)" by (cases ev) auto
  obtain h1 e1 w1 where s: "resolve_executed fl' violate (p, mis, vio) (h, e, w) = Some (h1, e1, w1)"
    and rest: "foldM (resolve_executed fl' violate) evs (h1, e1, w1) = Some (h', e', w')"
    using Cons.prems(1) by (auto simp: ev bind_eq_Some_conv)
  have 1: "nda_ok fl ready (pending T w1) d z h1 e1 b" "calmer h h1" "exec_frame w w1"
    using resolve_ok [OF s _ _ Cons.prems(3)] Cons.prems(2) by (auto simp: ev)
  have "\<forall>(p, ev)\<in>set evs. p \<in> set (rob_instList b (threadNumber (h1 p))) \<and> threadNumber (h1 p) \<in> set T"
    using Cons.prems(2) calmerD(2) [OF 1(2)] by auto
  from Cons.IH [OF rest this 1(1)] show ?case using 1(2,3) calmer_trans by (auto simp: exec_frame_def)
qed

lemma update_thread_ok:
  assumes r: "update_thread fl' wake t (h, e, b, w) = Some (h', e', b', w')" and t: "t \<notin> set ts"
    and ok: "nda_ok fl ready (pending (t # ts) w) d (zeroed w) h e b"
  shows "nda_ok fl ready (pending ts w') d (zeroed w') h' e' b' \<and>
    zeroedOutputs w' = zeroedOutputs w \<and> wbWidth w' = wbWidth w \<and>
    (CD_LimitWakeDependandsToWBWidth fl' \<longrightarrow> numWokenInstructions w' \<le> wbWidth w')"
proof -
  let ?c = "numClearedMaySquashOthers w t"
  obtain n where red: "reduceNumMaySquashOthers fl' wake t ?c (if CD_LimitWakeDependandsToWBWidth fl'
        then wbWidth w - numWokenInstructions w else nat (rob_maxEntries b t)) (h, e, b) = Some (n, h', e', b')"
    and w': "w' = w\<lparr>numWokenInstructions := numWokenInstructions w + n\<rparr>"
    and a: "CD_LimitWakeDependandsToWBWidth fl' \<longrightarrow> numWokenInstructions w \<le> wbWidth w"
    using r by (auto simp: update_thread_def Let_def bind_eq_Some_conv simp del: if_split)
  have c0: "pending (t # ts) w t = ?c" by (simp add: pending_def)
  have c: "0 \<le> ?c" using nda_okD(5) [OF ok] c0 by (simp add: counter_ok_def) (metis c0)
  have b: "bump (pending ts w) t ?c = pending (t # ts) w" using t by (auto simp: bump_def pending_def)
  have p0: "0 \<le> pending ts w t" using t by (simp add: pending_def)
  have "nda_ok fl ready (pending ts w) d (zeroed w) h' e' b' \<and> n \<le> (if CD_LimitWakeDependandsToWBWidth fl'
        then wbWidth w - numWokenInstructions w else nat (rob_maxEntries b t))"
    using reduce_ok [where cl = "pending ts w", OF red c p0, unfolded b, OF ok] by blast
  moreover have "pending ts w' = pending ts w" by (rule pending_cong) (simp add: w')
  ultimately show ?thesis using a w' by (auto split: if_splits)
qed

lemma updates_ok:
  assumes "foldM (update_thread fl' wake) ts (h, e, b, w) = Some (h', e', b', w')" and "distinct ts"
    and "nda_ok fl ready (pending ts w) d (zeroed w) h e b"
    and "CD_LimitWakeDependandsToWBWidth fl' \<longrightarrow> numWokenInstructions w \<le> wbWidth w"
  shows "nda_ok fl ready (\<lambda>_. 0) d (zeroed w') h' e' b' \<and>
    zeroedOutputs w' = zeroedOutputs w \<and> wbWidth w' = wbWidth w \<and>
    (CD_LimitWakeDependandsToWBWidth fl' \<longrightarrow> numWokenInstructions w' \<le> wbWidth w')"
  using assms
proof (induction ts arbitrary: h e b w)
  case Nil
  moreover have "pending [] w = (\<lambda>_. 0)" by (simp add: fun_eq_iff pending_def)
  ultimately show ?case by simp
next
  case (Cons t ts)
  obtain h1 e1 b1 w1 where s: "update_thread fl' wake t (h, e, b, w) = Some (h1, e1, b1, w1)"
    and rest: "foldM (update_thread fl' wake) ts (h1, e1, b1, w1) = Some (h', e', b', w')"
    using Cons.prems(1) by (auto simp: bind_eq_Some_conv)
  have 1: "nda_ok fl ready (pending ts w1) d (zeroed w1) h1 e1 b1" "zeroedOutputs w1 = zeroedOutputs w" "wbWidth w1 = wbWidth w"
    "CD_LimitWakeDependandsToWBWidth fl' \<longrightarrow> numWokenInstructions w1 \<le> wbWidth w1"
    using update_thread_ok [OF s _ Cons.prems(3)] Cons.prems(2) by auto
  from Cons.IH [OF rest _ 1(1,4)] Cons.prems(2) show ?case using 1 by auto
qed

lemma tick_ok:
  assumes r: "iew_tick fl' wake violate T evs toCommit (h, e, b, w) = Some (h', e', b', w')" and T: "distinct T"
    and evs: "\<forall>(p, ev)\<in>set evs. p \<in> set (rob_instList b (threadNumber (h p))) \<and> threadNumber (h p) \<in> set T"
    and wbs: "\<forall>p\<in>set toCommit. has (h p) Squashed \<or> p \<in> set (rob_instList b (threadNumber (h p)))"
    and ok: "nda_ok fl ready (\<lambda>_. 0) d (zeroed w) h e b"
  shows "nda_ok fl ready (\<lambda>_. 0) d (zeroed w') h' e' b' \<and> wbWidth w' = wbWidth w \<and>
    (CD_LimitWakeDependandsToWBWidth fl' \<longrightarrow> numWokenInstructions w' \<le> wbWidth w')"
proof -
  let ?w = "iew_begin T w"
  obtain h1 e1 w1 h2 e2 w2 where
    1: "foldM (resolve_executed fl' violate) evs (h, e, ?w) = Some (h1, e1, w1)"
    and 2: "foldM (writeback_inst fl' wake) (take (wbWidth w1) toCommit) (h1, e1, w1) = Some (h2, e2, w2)"
    and 3: "foldM (update_thread fl' wake) T (h2, e2, b, w2) = Some (h', e', b', w')"
    using r by (auto simp: iew_tick_def writebackInsts_def updateMaySquashStatusInROB_def bind_eq_Some_conv)
  have w: "pending T ?w = (\<lambda>_. 0)" "zeroedOutputs ?w = zeroedOutputs w" "wbWidth ?w = wbWidth w" "numWokenInstructions ?w = 0"
    by (simp_all add: fun_eq_iff pending_def iew_begin_def)
  have A: "nda_ok fl ready (pending T w1) d (zeroed w) h1 e1 b" "calmer h h1" "exec_frame ?w w1"
    using resolves_ok [OF 1 evs, of fl d "zeroed w"] ok unfolding w by auto
  have zw: "zeroed w1 = zeroed w" "wbWidth w1 = wbWidth w" "numWokenInstructions w1 = 0" using A(3) w by (simp_all add: exec_frame_def)
  have wb: "\<forall>p\<in>set (take (wbWidth w1) toCommit). has (h1 p) Squashed \<or> p \<in> set (rob_instList b (threadNumber (h1 p)))"
    using wbs calmerD(2,7) [OF A(2)] by (metis in_set_takeD)
  have B: "nda_ok fl ready (pending T w1) d (zeroed w2) h2 e2 b" "wb_frame w1 w2"
    "numWokenInstructions w2 \<le> numWokenInstructions w1 + length (take (wbWidth w1) toCommit)"
    using writebacks_ok [OF 2 wb] A(1) zw(1) by auto
  have "pending T w2 = pending T w1" by (rule pending_cong) (use B(2) in \<open>simp add: wb_frame_def\<close>)
  with B(1) have C: "nda_ok fl ready (pending T w2) d (zeroed w2) h2 e2 b" by simp
  have D: "numWokenInstructions w2 \<le> wbWidth w2" "wbWidth w2 = wbWidth w"
    using B(2,3) zw by (auto simp: wb_frame_def)
  have "CD_LimitWakeDependandsToWBWidth fl' \<longrightarrow> numWokenInstructions w2 \<le> wbWidth w2" using D by simp
  from updates_ok [OF 3 T C this] show ?thesis using D(2) by metis
qed

lemma commit_squash_ok:
  assumes r: "commit_squash fl' wake T t w (h, e, b) = Some (h', e', b')"
    and p: "\<And>p. tc_mispredictInst w t = Some p \<Longrightarrow> p \<in> set (rob_instList b t)"
    and ok: "nda_ok fl ready (\<lambda>_. 0) d z h e b"
  shows "nda_ok fl ready (\<lambda>_. 0) d z h' e' b'"
proof -
  obtain h1 b1 single sn where s: "rob_squash fl' wake T sn t single (h1, e, b1) = Some (h', e', b')"
    and c: "h1 = h \<and> b1 = b \<or> (\<exists>p. tc_mispredictInst w t = Some p \<and> initiator (h p) \<and>
       h1 = upd_inst p (reset_status Runahead) h \<and> leaveRunaheadMode t b = Some b1)"
    using r by (auto simp: commit_squash_def initiator_def bind_eq_Some_conv Let_def split: option.splits if_splits)
  from c have "nda_ok fl ready (\<lambda>_. 0) d z h1 e b1"
  proof (elim disjE exE conjE)
    assume "h1 = h" "b1 = b"
    then show ?thesis using ok by simp
  next
    fix q assume q: "tc_mispredictInst w t = Some q" "initiator (h q)"
      and h1: "h1 = upd_inst q (reset_status Runahead) h" and "leaveRunaheadMode t b = Some b1"
    then have b1: "b1 = b\<lparr>inRunaheadMode := (inRunaheadMode b)(t := False)\<rparr>" by (simp add: leaveRunaheadMode_Some)
    have cm: "calmer h h1" unfolding h1 by (rule calmer_reset) simp
    have ra: "runahead_ok h1 b1"
      by (rule runahead_ok_leave [OF nda_okD(6,1) [OF ok] p [OF q(1)] q(2) cm])
        (auto simp: h1 b1 initiator_def upd_inst_apply)
    have st: "has (h1 i) s = has (h i) s" if "s \<noteq> Runahead" for i s using that by (simp add: h1 upd_inst_apply)
    show ?thesis
    proof (rule nda_okI)
      show "sorted_wrt (shadow_ok fl h1) (rob_instList b1 t')" for t'
        using calmer_shadow [OF cm nda_okD(3) [OF ok]] st by (simp add: b1)
      show "counter_ok (\<lambda>_. 0) h1 b1" using nda_okD(5) [OF ok] st by (simp add: counter_ok_def b1)
    qed (use ok ra cm in \<open>auto intro: calmer_ids calmer_disjoint calmer_isolated simp: nda_ok_def b1 iterator_ok_def\<close>)
  qed
  then show ?thesis using rob_squash_ok [where cl = "\<lambda>_. 0", OF s] by simp
qed

lemma squashAll_ok:
  assumes "squashAll fl' wake T t lastCommitted (h, e, b) = Some (h', e', b')" and "nda_ok fl ready (\<lambda>_. 0) d z h e b"
  shows "nda_ok fl ready (\<lambda>_. 0) d z h' e' b'"
  using assms rob_squash_ok [where cl = "\<lambda>_. 0"] by (fastforce simp: squashAll_def bind_eq_Some_conv split: if_splits)

end

text \<open>
  The steps. Commit retires the head of a thread only while no squash of the thread is in
  progress, and not the branch that started runahead mode; a squash signal names an
  instruction of the buffer; an instruction is dispatched while rename has its destinations
  marked unready. The step \<open>other\<close> is everything else the core does: it may change instructions
  outside the buffer and any status but the marks of the defence, and it makes no register
  ready that an instruction in the buffer writes.
\<close>

type_synonym 'e nda_state = "inst_store \<times> 'e \<times> ROB \<times> IEW \<times> inst_ptr set"

inductive nda_step ::
  "cd_flags \<Rightarrow> 'e wake_fun \<Rightarrow> ('e \<Rightarrow> nat \<Rightarrow> bool) \<Rightarrow> 'e wake_fun \<Rightarrow>
     (inst_ptr \<Rightarrow> inst_ptr \<Rightarrow> inst_store \<times> 'e \<Rightarrow> (inst_store \<times> 'e) option) \<Rightarrow> ThreadID list \<Rightarrow>
     'e nda_state \<Rightarrow> 'e nda_state \<Rightarrow> bool"
  for fl wake ready dispatch violate T where
  insert: "new_inst d p h b \<Longrightarrow> rob_insertInst fl lsq_age p (h, b) = Some (h', b') \<Longrightarrow>
    nda_step fl wake ready dispatch violate T (h, e, b, w, d) (h', e, b', w, d)"
| dispatch: "p \<in> set (rob_instList b (threadNumber (h p))) \<Longrightarrow> dispatch p (h, e) = Some (h', e') \<Longrightarrow>
    (\<And>k. renames (h p) k \<Longrightarrow> \<not> ready e' k) \<Longrightarrow>
    nda_step fl wake ready dispatch violate T (h, e, b, w, d) (h', e', b, w, insert p d)"
| tick: "iew_tick fl wake violate T evs toCommit (h, e, b, w) = Some (h', e', b', w') \<Longrightarrow>
    (\<forall>(p, ev)\<in>set evs. p \<in> set (rob_instList b (threadNumber (h p))) \<and> threadNumber (h p) \<in> set T) \<Longrightarrow>
    (\<forall>p\<in>set toCommit. has (h p) Squashed \<or> p \<in> set (rob_instList b (threadNumber (h p)))) \<Longrightarrow>
    nda_step fl wake ready dispatch violate T (h, e, b, w, d) (h', e', b', w', d)"
| other: "(\<And>t q. q \<in> set (rob_instList b t) \<Longrightarrow> nda_view (h' q) = nda_view (h q)) \<Longrightarrow>
    (\<And>t q k. q \<in> set (rob_instList b t) \<Longrightarrow> renames (h q) k \<Longrightarrow> ready e' k \<Longrightarrow> ready e k) \<Longrightarrow>
    nda_step fl wake ready dispatch violate T (h, e, b, w, d) (h', e', b, w, d)"
| completed: "nda_step fl wake ready dispatch violate T (h, e, b, w, d) (markCompletedInsts fl ps h, e, b, w, d)"
| squash: "commit_squash fl wake T t w (h, e, b) = Some (h', e', b') \<Longrightarrow>
    (\<And>p. tc_mispredictInst w t = Some p \<Longrightarrow> p \<in> set (rob_instList b t)) \<Longrightarrow>
    nda_step fl wake ready dispatch violate T (h, e, b, w, d) (h', e', b', w, d)"
| squash_all: "squashAll fl wake T t lastCommitted (h, e, b) = Some (h', e', b') \<Longrightarrow>
    nda_step fl wake ready dispatch violate T (h, e, b, w, d) (h', e', b', w, d)"
| squash_more: "rob_doSquash fl wake T False t (h, e, b) = Some (h', e', b') \<Longrightarrow>
    nda_step fl wake ready dispatch violate T (h, e, b, w, d) (h', e', b', w, d)"
| retire: "retireHead fl wake T t (h, e, b) = Some (h', e', b') \<Longrightarrow> squashIt b t = None \<Longrightarrow>
    \<not> initiator (h (hd (rob_instList b t))) \<Longrightarrow>
    nda_step fl wake ready dispatch violate T (h, e, b, w, d) (h', e', b', w, d)"

text \<open>The machine starts with an empty buffer.\<close>

inductive nda_reachable ::
  "cd_flags \<Rightarrow> 'e wake_fun \<Rightarrow> ('e \<Rightarrow> nat \<Rightarrow> bool) \<Rightarrow> 'e wake_fun \<Rightarrow>
     (inst_ptr \<Rightarrow> inst_ptr \<Rightarrow> inst_store \<times> 'e \<Rightarrow> (inst_store \<times> 'e) option) \<Rightarrow> ThreadID list \<Rightarrow> 'e nda_state \<Rightarrow> bool"
  for fl wake ready dispatch violate T where
  start: "nda_reachable fl wake ready dispatch violate T
            (h, e, ROB_new policy entries width threads thr raThr raAge, w, {})"
| step: "nda_reachable fl wake ready dispatch violate T s \<Longrightarrow> nda_step fl wake ready dispatch violate T s s' \<Longrightarrow>
    nda_reachable fl wake ready dispatch violate T s'"

lemma nda_ok_start: "nda_ok fl ready (\<lambda>_. 0) {} z h e (ROB_new policy entries width threads thr raThr raAge)"
  by (simp add: nda_ok_def ROB_new_def rob_resetState_def ids_ok_def disjoint_ok_def isolated_def counter_ok_def
      runahead_ok_def iterator_ok_def)

lemma markCompleted_same: "calmer h (markCompletedInsts fl ps h) \<and> marks_same h (markCompletedInsts fl ps h)"
proof (induction ps arbitrary: h)
  case Nil
  then show ?case by (simp add: markCompletedInsts_def calmer_refl marks_same_def)
next
  case (Cons p ps)
  have "calmer h (mark_completed fl p h) \<and> marks_same h (mark_completed fl p h)"
    by (auto simp: mark_completed_def calmer_def marks_same_def upd_inst_apply)
  with Cons [of "mark_completed fl p h"] show ?case
    by (auto simp: markCompletedInsts_def marks_same_def intro: calmer_trans)
qed

context nda_backend
begin

lemma step_ok:
  assumes "nda_step fl wake ready dispatch violate T (h, e, b, w, d) (h', e', b', w', d')" and "distinct T"
    and ok: "nda_ok fl ready (\<lambda>_. 0) d (zeroed w) h e b"
  shows "nda_ok fl ready (\<lambda>_. 0) d' (zeroed w') h' e' b'"
  using assms(1)
proof (cases rule: nda_step.cases)
  case (insert p lsq_age)
  then show ?thesis using insert_ok [OF insert(5,4) ok] by simp
next
  case (dispatch p)
  note V = nda_viewD(5,6) [OF dispatch_view [OF dispatch(5)]] and R = dispatch_ready [OF dispatch(5)]
  have "isolated ready (Set.insert p d) (zeroed w) h' e' (rob_instList b)"
    unfolding isolated_def
  proof (intro allI ballI impI)
    fix t q k
    assume q: "q \<in> set (rob_instList b t)" "renames (h' q) k"
      "q \<in> Set.insert p d \<and> q \<notin> zeroed w \<and> has (h' q) Unsafe \<and> \<not> has (h' q) Squashed"
    show "\<not> ready e' k"
    proof (cases "q = p")
      case True
      then show ?thesis using q(2) V(1) dispatch(6) by simp
    next
      case False
      then show ?thesis using nda_okD(4) [OF ok] q V R [of k] unfolding isolated_def by auto
    qed
  qed
  then show ?thesis using nda_ok_view [OF ok dispatch_view [OF dispatch(5)]] dispatch(1-3) by simp
next
  case (tick evs toCommit)
  then show ?thesis using tick_ok [OF tick(2) assms(2) tick(3,4) ok] by simp
next
  case other
  then show ?thesis using nda_ok_listed [OF ok other(4,5)] by simp
next
  case (completed ps)
  then show ?thesis using nda_ok_same_marks [OF ok] markCompleted_same by simp
next
  case (squash t)
  then show ?thesis using commit_squash_ok [OF squash(3,4) ok] by simp
next
  case (squash_all t lastCommitted)
  then show ?thesis using squashAll_ok [OF squash_all(3) ok] by simp
next
  case (squash_more t)
  then show ?thesis using doSquash_ok [OF squash_more(3) _ ok] by simp
next
  case (retire t)
  then show ?thesis using retire_ok [OF retire(3-5) ok] by simp
qed

lemma reachable_ok:
  assumes "nda_reachable fl wake ready dispatch violate T (h, e, b, w, d)" and "distinct T"
  shows "nda_ok fl ready (\<lambda>_. 0) d (zeroed w) h e b"
  using assms(1)
proof (induction "(h, e, b, w, d)" arbitrary: h e b w d rule: nda_reachable.induct)
  case start
  then show ?case by (rule nda_ok_start)
next
  case (step s)
  obtain h0 e0 b0 w0 d0 where s: "s = (h0, e0, b0, w0, d0)" by (metis surj_pair)
  show ?case by (rule step_ok [OF step(3) [unfolded s] assms(2) step(2) [OF s]])
qed

text \<open>The defence: the results of what an unresolved branch shadows are not visible.\<close>

lemma shadowed_isolated:
  assumes r: "nda_reachable fl wake ready dispatch violate T (h, e, b, w, d)" and T: "distinct T"
    and l: "rob_instList b t = xs @ q # ys" and q: "has (h q) MaySquashOthers"
    and i: "i \<in> set ys" "i \<in> d" "\<not> has (h i) Squashed" "\<not> exempt fl (h i)" "i \<notin> zeroed w"
  shows "has (h i) Unsafe \<and> (\<forall>k. renames (h i) k \<longrightarrow> \<not> ready e k)"
proof -
  note ok = reachable_ok [OF r T]
  have "shadow_ok fl h q i" using nda_okD(3) [OF ok, of t] l i(1) by (simp add: sorted_wrt_append)
  then have u: "has (h i) Unsafe" using q i by (simp add: shadow_ok_def)
  have "i \<in> set (rob_instList b t)" using l i(1) by simp
  with u i nda_okD(4) [OF ok] show ?thesis unfolding isolated_def by blast
qed

end

end
