(* ===== verification/Squash.thy ===== *)
theory Squash
  imports Nda
begin

text \<open>
  Squashing the reorder buffer runs to completion. One call of \<open>doSquash\<close> marks the next
  \<open>squashWidth\<close> instructions; commit repeats the call every cycle until the thread is done.
  Here are the exact effect of one call and the proof that the repetition never panics,
  ends, and squashes exactly the instructions younger than the squash point.
\<close>

section \<open>Commit's loop\<close>

text \<open>
  A thread that is squashing gets one \<open>doSquash\<close> per cycle of commit (\<open>DefaultCommit::tick\<close>)
  until it is done: \<open>n\<close> cycles.
\<close>

fun squash_cycles ::
  "cd_flags \<Rightarrow> 'e wake_fun \<Rightarrow> ThreadID list \<Rightarrow> ThreadID \<Rightarrow> nat \<Rightarrow> inst_store \<times> 'e \<times> ROB \<Rightarrow>
     (inst_store \<times> 'e \<times> ROB) option" where
  "squash_cycles fl wake T t 0 s = Some s"
| "squash_cycles fl wake T t (Suc n) (h, e, b) =
     (if doneSquashing b t then Some (h, e, b)
      else Option.bind (rob_doSquash fl wake T False t (h, e, b)) (squash_cycles fl wake T t n))"

section \<open>The loop of one call\<close>

lemma resolve_branch_effect:
  assumes "resolve_branch t p (h, b, c) = Some (h', b', c')"
  shows "squashIt b' = squashIt b" and "doneSquashing b' = doneSquashing b" and "rob_frame b b'"
    and "s \<noteq> MaySquashOthers \<Longrightarrow> s \<noteq> Runahead \<Longrightarrow> has (h' q) s = has (h q) s" and "seqNum (h' q) = seqNum (h q)"
  using assms by (auto simp: resolve_branch_def Let_def bind_eq_Some_conv leaveRunaheadMode_Some rob_frame_def
      upd_inst_apply split: if_splits)

lemma squash_inst_effect:
  assumes "squash_inst t p (h, b, c) = Some (h', b', c')"
  shows "squashIt b' = squashIt b" and "doneSquashing b' = doneSquashing b" and "rob_frame b b'"
    and "has (h' q) Squashed = (has (h q) Squashed \<or> q = p)" and "has (h' q) CanCommit = (has (h q) CanCommit \<or> q = p)"
    and "seqNum (h' q) = seqNum (h q)"
  using resolve_branch_effect [OF assms [unfolded squash_inst_def prod.case]] by (auto simp: upd_inst_apply)

text \<open>The instructions a call with a budget of \<open>k\<close> marks; the whole run in a single cycle.\<close>

definition squash_run :: "bool \<Rightarrow> nat \<Rightarrow> InstSeqNum \<Rightarrow> inst_store \<Rightarrow> inst_ptr list \<Rightarrow> inst_ptr list" where
  "squash_run single k sn h l =
     (let young = takeWhile (\<lambda>p. seqNum (h p) > sn) l in if single then young else take k young)"

lemma squash_run_cong: "(\<And>q. seqNum (h' q) = seqNum (h q)) \<Longrightarrow> squash_run single k sn h' l = squash_run single k sn h l"
  by (simp add: squash_run_def)

text \<open>The outcome of a loop that marked the prefix \<open>run\<close> of \<open>l\<close>.\<close>

definition squashed_run ::
  "ThreadID \<Rightarrow> inst_ptr list \<Rightarrow> inst_ptr list \<Rightarrow> inst_store \<times> ROB \<Rightarrow> bool \<times> inst_store \<times> ROB \<Rightarrow> bool" where
  "squashed_run t run l s r \<longleftrightarrow>
     (case s of (h, b) \<Rightarrow> case r of (out, h', b') \<Rightarrow>
        (\<forall>q. has (h' q) Squashed = (has (h q) Squashed \<or> q \<in> set run) \<and>
             has (h' q) CanCommit = (has (h q) CanCommit \<or> q \<in> set run) \<and> seqNum (h' q) = seqNum (h q)) \<and>
        rob_frame b b' \<and> (\<forall>u. u \<noteq> t \<longrightarrow> squashIt b' u = squashIt b u) \<and>
        (if run = l then out \<and> doneSquashing b' t \<and> squashIt b' t = None
         else \<not> out \<and> doneSquashing b' = doneSquashing b \<and> squashIt b' t = Some (l ! length run) \<and>
           length run < length l))"

lemma squash_loop_spec:
  assumes "rob_squash_loop t single n l tu (h, b, c) = Some (out, tu', h', b', c')" and "squashIt b t = Some (hd l)"
  shows "squashed_run t (squash_run single (squashWidth b - n) (rob_squashedSeqNum b t) h l) l (h, b) (out, h', b')"
  using assms
proof (induction l arbitrary: n tu h b c)
  case Nil
  then show ?case by simp
next
  case (Cons p older)
  let ?sn = "rob_squashedSeqNum b t"
  show ?case
  proof (cases "(n < squashWidth b \<or> single) \<and> seqNum (h p) > ?sn")
    case False
    then have "squash_run single (squashWidth b - n) ?sn h (p # older) = []" by (auto simp: squash_run_def)
    moreover have "out = False" "h' = h" "b' = b" using Cons.prems(1) False by auto
    ultimately show ?thesis using Cons.prems(2) by (simp add: rob_frame_refl squashed_run_def)
  next
    case True
    with Cons.prems(1) obtain h1 b1 c1 where s: "squash_inst t p (h, b, c) = Some (h1, b1, c1)"
      and rest: "(case older of [] \<Rightarrow> Some (True, tu, h1, b1\<lparr>squashIt := (squashIt b1)(t := None),
                         doneSquashing := (doneSquashing b1)(t := True)\<rparr>, c1)
         | r # _ \<Rightarrow> rob_squash_loop t single (n + 1) older (tu \<or> p = last (rob_instList b1 t))
               (h1, b1\<lparr>squashIt := (squashIt b1)(t := Some r)\<rparr>, c1)) = Some (out, tu', h', b', c')"
      by (auto simp: bind_eq_Some_conv)
    note E = squash_inst_effect [OF s]
    have "squashWidth b - n = Suc (squashWidth b - (n + 1)) \<or> single" using True by auto
    then have run: "squash_run single (squashWidth b - n) ?sn h (p # older) =
        p # squash_run single (squashWidth b - (n + 1)) ?sn h older"
      using True by (auto simp: squash_run_def Let_def)
    show ?thesis
    proof (cases older)
      case Nil
      then have "out" "h' = h1" "b' = b1\<lparr>squashIt := (squashIt b1)(t := None), doneSquashing := (doneSquashing b1)(t := True)\<rparr>"
        using rest by auto
      moreover have "squash_run single (squashWidth b - n) ?sn h (p # older) = p # older"
        unfolding run by (simp add: Nil squash_run_def)
      ultimately show ?thesis unfolding Nil using E by (auto simp: rob_frame_def squashed_run_def)
    next
      case (Cons r rs)
      let ?b = "b1\<lparr>squashIt := (squashIt b1)(t := Some r)\<rparr>"
      have "rob_squash_loop t single (n + 1) older (tu \<or> p = last (rob_instList b1 t)) (h1, ?b, c1)
          = Some (out, tu', h', b', c')" using rest Cons by simp
      moreover have "squashIt ?b t = Some (hd older)" using Cons by simp
      ultimately have "squashed_run t (squash_run single (squashWidth b - (n + 1)) ?sn h older) older (h1, ?b) (out, h', b')"
        using Cons.IH [of "n + 1" _ h1 ?b c1] squash_run_cong [of h1 h] E(3,6) by (simp add: rob_frame_def)
      then show ?thesis unfolding run using E by (auto simp: rob_frame_def squashed_run_def split: if_splits)
    qed
  qed
qed

section \<open>No panic\<close>

lemma resolve_branch_total:
  assumes r: "runahead_ok h b" and p: "p \<in> set (rob_instList b t)"
  shows "\<exists>x. resolve_branch t p (h, b, c) = Some x"
proof -
  have "inRunaheadMode b t" if "has (h p) MaySquashOthers" "has (h p) Runahead"
    using r p that by (auto simp: runahead_ok_def initiator_def)
  then show ?thesis by (auto simp: resolve_branch_def Let_def leaveRunaheadMode_def upd_inst_apply)
qed

lemma squash_inst_total:
  assumes ok: "nda_ok fl ready (bump cl t c) d z h e b" and p: "p \<in> set (rob_instList b t)"
  shows "\<exists>x. squash_inst t p (h, b, c) = Some x"
proof -
  let ?h = "upd_inst p (set_status CanCommit \<circ> set_status Squashed) h"
  have "runahead_ok ?h b"
    by (rule runahead_ok_same [OF nda_okD(6) [OF ok]]) (auto simp: calmer_def initiator_def upd_inst_apply)
  from resolve_branch_total [OF this p] show ?thesis by (simp add: squash_inst_def)
qed

lemma squash_loop_total:
  assumes "nda_ok fl ready (bump cl t c) d z h e b" and "set l \<subseteq> set (rob_instList b t)" and "l \<noteq> []"
  shows "\<exists>x. rob_squash_loop t single n l tu (h, b, c) = Some x"
  using assms
proof (induction l arbitrary: n tu h b c)
  case Nil
  then show ?case by simp
next
  case (Cons p older)
  have p: "p \<in> set (rob_instList b t)" using Cons.prems(2) by simp
  from squash_inst_total [OF Cons.prems(1) p] obtain h1 b1 c1 where s: "squash_inst t p (h, b, c) = Some (h1, b1, c1)"
    by (metis surj_pair)
  have 1: "nda_ok fl ready (bump cl t c1) d z h1 e b1" "rob_frame b b1" using squash_inst_ok [OF s p Cons.prems(1)] by auto
  show ?case
  proof (cases older)
    case Nil
    then show ?thesis using s by (auto simp del: split_paired_Ex)
  next
    case (Cons r rs)
    let ?b = "b1\<lparr>squashIt := (squashIt b1)(t := Some r)\<rparr>"
    have "nda_ok fl ready (bump cl t c1) d z h1 e ?b"
      by (rule nda_ok_fields [OF 1(1)])
        (use 1 Cons Cons.prems(2) in \<open>auto simp: nda_ok_def iterator_ok_def rob_frame_def split: if_splits\<close>)
    then have "\<exists>x. rob_squash_loop t single (n + 1) older (tu \<or> p = last (rob_instList b1 t)) (h1, ?b, c1) = Some x"
      using Cons.IH [of c1 h1 ?b] Cons Cons.prems(2) 1(2) by (simp add: rob_frame_def)
    then show ?thesis using s Cons by (auto simp del: split_paired_Ex)
  qed
qed

section \<open>One call\<close>

lemma mark_nothing: "markFollowingInstructionsAsSafe fl wake 0 l 0 (h, e) = Some (0, h, e)"
  by (cases l) simp_all

text \<open>
  The iterator's part of the list, youngest first. The next iterator is further down the same
  list.
\<close>

lemma from_iterator_nth:
  assumes "distinct l" and "i < length l"
  shows "from_iterator (l ! i) l = rev (take (Suc i) l)"
proof -
  have "takeWhile (\<lambda>x. x \<noteq> l ! i) l = take i l"
    by (rule takeWhile_eq_take_P_nth) (use assms in \<open>auto simp: nth_eq_iff_index_eq\<close>)
  then show ?thesis using assms(2) by (simp add: from_iterator_def take_Suc_conv_app_nth)
qed

lemma from_iterator_next:
  assumes d: "distinct l" and p: "p \<in> set l" and k: "k < length (from_iterator p l)"
  shows "from_iterator (from_iterator p l ! k) l = drop k (from_iterator p l)"
proof -
  obtain i where i: "i < length l" "l ! i = p" using p by (metis in_set_conv_nth)
  have f: "from_iterator p l = rev (take (Suc i) l)" using from_iterator_nth [OF d i(1)] i(2) by simp
  have k': "k \<le> i" using k i(1) by (simp add: f)
  have "from_iterator p l ! k = l ! (i - k)" using k' i(1) by (simp add: f rev_nth)
  then have "from_iterator (from_iterator p l ! k) l = rev (take (Suc (i - k)) l)"
    using from_iterator_nth [OF d, of "i - k"] i(1) by simp
  also have "\<dots> = drop k (rev (take (Suc i) l))"
    using k' i(1) by (simp add: drop_rev Suc_diff_le)
  finally show ?thesis by (simp add: f)
qed

text \<open>
  The outcome of one call while wakeups are left to the execute stage: nothing is woken, and
  the thread is done exactly when the next instruction is not younger than the squash point.
\<close>

definition squash_call :: "bool \<Rightarrow> ThreadID \<Rightarrow> inst_ptr \<Rightarrow> inst_store \<times> ROB \<Rightarrow> inst_store \<times> ROB \<Rightarrow> bool" where
  "squash_call single t p s s' \<longleftrightarrow>
     (case s of (h, b) \<Rightarrow> case s' of (h', b') \<Rightarrow>
        let l = from_iterator p (rob_instList b t); sn = rob_squashedSeqNum b t; run = squash_run single (squashWidth b) sn h l in
        (\<forall>q. has (h' q) Squashed = (has (h q) Squashed \<or> q \<in> set run) \<and>
             has (h' q) CanCommit = (has (h q) CanCommit \<or> q \<in> set run) \<and> seqNum (h' q) = seqNum (h q)) \<and>
        rob_instList b' = rob_instList b \<and> squashWidth b' = squashWidth b \<and> rob_squashedSeqNum b' = rob_squashedSeqNum b \<and>
        (if run = l \<or> seqNum (h (l ! length run)) \<le> sn then doneSquashing b' t
         else doneSquashing b' = doneSquashing b \<and> squashIt b' t = Some (l ! length run) \<and> length run < length l))"

lemma squash_callD:
  assumes "squash_call single t p (h, b) (h', b')"
    and "l = from_iterator p (rob_instList b t)" and "run = squash_run single (squashWidth b) (rob_squashedSeqNum b t) h l"
  shows "has (h' q) Squashed = (has (h q) Squashed \<or> q \<in> set run)" and "has (h' q) CanCommit = (has (h q) CanCommit \<or> q \<in> set run)"
    and "seqNum (h' q) = seqNum (h q)" and "rob_instList b' = rob_instList b" and "squashWidth b' = squashWidth b"
    and "rob_squashedSeqNum b' = rob_squashedSeqNum b"
    and "run = l \<or> seqNum (h (l ! length run)) \<le> rob_squashedSeqNum b t \<Longrightarrow> doneSquashing b' t"
    and "\<not> (run = l \<or> seqNum (h (l ! length run)) \<le> rob_squashedSeqNum b t) \<Longrightarrow>
      doneSquashing b' = doneSquashing b \<and> squashIt b' t = Some (l ! length run) \<and> length run < length l"
  using assms unfolding squash_call_def prod.case Let_def by simp_all

lemma check_done_effect:
  assumes it: "squashIt b t = Some q" and q: "q \<in> set (rob_instList b t)" and r: "runahead_ok h b"
  shows "\<exists>h' b' c'. check_done t (h, b, c) = Some (h', b', c') \<and> rob_frame b b' \<and>
    (\<forall>x. has (h' x) Squashed = has (h x) Squashed \<and> has (h' x) CanCommit = has (h x) CanCommit \<and> seqNum (h' x) = seqNum (h x)) \<and>
    (if seqNum (h q) \<le> rob_squashedSeqNum b t then doneSquashing b' t
     else doneSquashing b' = doneSquashing b \<and> squashIt b' = squashIt b)"
proof (cases "seqNum (h q) \<le> rob_squashedSeqNum b t")
  case False
  then show ?thesis using it by (simp add: check_done_def rob_frame_refl)
next
  case True
  obtain h1 b1 c1 where 1: "(if seqNum (h q) = rob_squashedSeqNum b t then resolve_branch t q (h, b, c) else Some (h, b, c)) = Some (h1, b1, c1)"
    and E: "rob_frame b b1" "\<And>x s. s \<noteq> MaySquashOthers \<Longrightarrow> s \<noteq> Runahead \<Longrightarrow> has (h1 x) s = has (h x) s" "\<And>x. seqNum (h1 x) = seqNum (h x)"
  proof (cases "seqNum (h q) = rob_squashedSeqNum b t")
    case True
    then obtain h1 b1 c1 where "resolve_branch t q (h, b, c) = Some (h1, b1, c1)"
      using resolve_branch_total [OF r q, of c] by auto
    with True show ?thesis using that resolve_branch_effect by metis
  next
    case False
    then show ?thesis using that [of h b c] by (simp add: rob_frame_refl)
  qed
  have "check_done t (h, b, c) = Some (h1, b1\<lparr>squashIt := (squashIt b1)(t := None), doneSquashing := (doneSquashing b1)(t := True)\<rparr>, c1)"
    using it True 1 by (simp add: check_done_def)
  then show ?thesis using True E by (simp add: rob_frame_def)
qed

lemma squash_finish:
  assumes S: "squashed_run t run l (h, b) (out, h1, b1)" and ok: "runahead_ok h1 b1" "iterator_ok b1"
    and l: "l = from_iterator p (rob_instList b t)" and run: "run = squash_run single (squashWidth b) (rob_squashedSeqNum b t) h l"
  shows "\<exists>h2 b2 c2. (if out then Some (h1, b1, c1) else do {
       (h, b, c) \<leftarrow> check_done t (h1, b1, c1);
       Some (h, if tu then updateTail T h b else b, c)
     }) = Some (h2, b2, c2) \<and> squash_call single t p (h, b) (h2, b2)"
proof (cases "run = l")
  case True
  with S show ?thesis by (auto simp: squashed_run_def squash_call_def rob_frame_def Let_def l [symmetric] run [symmetric])
next
  case False
  let ?q = "l ! length run"
  have R: "\<not> out" "doneSquashing b1 = doneSquashing b" "squashIt b1 t = Some ?q" "length run < length l" "rob_frame b b1"
    "\<And>q. has (h1 q) Squashed = (has (h q) Squashed \<or> q \<in> set run) \<and> has (h1 q) CanCommit = (has (h q) CanCommit \<or> q \<in> set run) \<and>
       seqNum (h1 q) = seqNum (h q)"
    using S False by (auto simp: squashed_run_def)
  have "?q \<in> set (rob_instList b1 t)" using ok(2) R(3) by (simp add: iterator_ok_def)
  from check_done_effect [OF R(3) this ok(1), of c1] obtain h2 b3 c2 where
    C: "check_done t (h1, b1, c1) = Some (h2, b3, c2)" "rob_frame b1 b3"
    "\<And>x. has (h2 x) Squashed = has (h1 x) Squashed \<and> has (h2 x) CanCommit = has (h1 x) CanCommit \<and> seqNum (h2 x) = seqNum (h1 x)"
    "if seqNum (h1 ?q) \<le> rob_squashedSeqNum b1 t then doneSquashing b3 t
     else doneSquashing b3 = doneSquashing b1 \<and> squashIt b3 = squashIt b1" by blast
  have "squash_call single t p (h, b) (h2, b2)" if "b2 = b3 \<or> b2 = updateTail T h2 b3" for b2
    using that R C(2-) False
    by (auto simp: squash_call_def Let_def l [symmetric] run [symmetric] rob_frame_def updateTail_def split: if_splits)
  then show ?thesis using R(1) C(1) by auto
qed

lemma takeWhile_done:
  assumes "take k (takeWhile P l) = l \<or> \<not> P (l ! length (take k (takeWhile P l)))"
  shows "take k (takeWhile P l) = takeWhile P l"
proof (rule ccontr)
  assume n: "\<not> ?thesis"
  then have k: "k < length (takeWhile P l)" by (meson not_less take_all)
  have "P (takeWhile P l ! k)" using nth_mem [OF k] by (metis set_takeWhileD)
  then have "P (l ! k)" using k by (simp add: takeWhile_nth)
  moreover have "take k (takeWhile P l) \<noteq> l"
  proof
    assume "take k (takeWhile P l) = l"
    then have "length l = k" using k by (metis length_take min.absorb4)
    then show False using k length_takeWhile_le [of P l] by simp
  qed
  ultimately show False using assms k by simp
qed

lemma takeWhile_more:
  assumes "P (l ! length (take k (takeWhile P l)))" and "length (take k (takeWhile P l)) < length l"
  shows "length (take k (takeWhile P l)) = k" and "takeWhile P l = take k (takeWhile P l) @ takeWhile P (drop k l)"
proof -
  have k: "k < length (takeWhile P l)"
  proof (rule ccontr)
    assume "\<not> ?thesis"
    then show False using assms nth_length_takeWhile [of P l] by simp
  qed
  then show "length (take k (takeWhile P l)) = k" by simp
  from k have "takeWhile P (drop k l) = drop k (takeWhile P l)"
  proof (induction l arbitrary: k)
    case Nil
    then show ?case by simp
  next
    case (Cons x l)
    show ?case
    proof (cases k)
      case (Suc j)
      then show ?thesis using Cons.prems Cons.IH [of j] by (simp split: if_splits)
    qed simp
  qed
  then show "takeWhile P l = take k (takeWhile P l) @ takeWhile P (drop k l)" by simp
qed

context waker
begin

lemma doSquash_spec:
  assumes ok: "nda_ok fl ready (\<lambda>_. 0) d z h e b" and fl: "CD_LimitWakeDependandsToWBWidth fl'"
    and it: "squashIt b t = Some p"
  shows "\<exists>h' b'. rob_doSquash fl' wake T single t (h, e, b) = Some (h', e, b') \<and> squash_call single t p (h, b) (h', b')"
proof (cases "seqNum (h p) < rob_squashedSeqNum b t")
  case True
  then have "squash_run single (squashWidth b) (rob_squashedSeqNum b t) h (from_iterator p (rob_instList b t)) = []"
    by (auto simp: squash_run_def from_iterator_def)
  then show ?thesis using True it by (simp add: rob_doSquash_def squash_call_def from_iterator_def)
next
  case False
  let ?l = "from_iterator p (rob_instList b t)" and ?sn = "rob_squashedSeqNum b t"
  define run where "run = squash_run single (squashWidth b) ?sn h ?l"
  have pin: "p \<in> set (rob_instList b t)" using nda_okD(7) [OF ok] it by (simp add: iterator_ok_def)
  have sub: "set ?l \<subseteq> set (rob_instList b t)" by (rule from_iterator_subset [OF pin])
  have ok0: "nda_ok fl ready (bump (\<lambda>_. 0) t 0) d z h e b" using ok by simp
  obtain out tu h1 b1 c1 where 1: "rob_squash_loop t single 0 ?l False (h, b, 0) = Some (out, tu, h1, b1, c1)"
    using squash_loop_total [OF ok0 sub, of single 0 False] by (auto simp: from_iterator_def)
  have ok1: "nda_ok fl ready (bump (\<lambda>_. 0) t c1) d z h1 e b1" using rob_squash_loop_ok [OF 1 sub ok0] by blast
  have S: "squashed_run t run ?l (h, b) (out, h1, b1)"
    using squash_loop_spec [OF 1] it by (simp add: run_def from_iterator_def)
  obtain h2 b2 c2 where 2: "(if out then Some (h1, b1, c1) else do {
                 (h, b, c) \<leftarrow> check_done t (h1, b1, c1);
                 Some (h, if tu then updateTail T h b else b, c)
               }) = Some (h2, b2, c2)" and C: "squash_call single t p (h, b) (h2, b2)"
    using squash_finish [OF S nda_okD(6,7) [OF ok1] refl run_def] by blast
  have "rob_doSquash fl' wake T single t (h, e, b) = Some (h2, e, if c2 > 0
      then b2\<lparr>numInstThatMayCauseSquash := (numInstThatMayCauseSquash b2)(t := numInstThatMayCauseSquash b2 t - c2)\<rparr> else b2)"
    using False it 1 2 fl by (simp add: rob_doSquash_def reduceNumMaySquashOthers_def mark_nothing Let_def)
  moreover have "squash_call single t p (h, b) (h2, if c2 > 0
      then b2\<lparr>numInstThatMayCauseSquash := (numInstThatMayCauseSquash b2)(t := numInstThatMayCauseSquash b2 t - c2)\<rparr> else b2)"
    using C by (auto simp: squash_call_def Let_def)
  ultimately show ?thesis by blast
qed

text \<open>Repeating the call finishes, and marks exactly the instructions younger than the point.\<close>

lemma squash_cycles_spec:
  assumes "nda_ok fl ready (\<lambda>_. 0) d z h e b" and "CD_LimitWakeDependandsToWBWidth fl'" and "squashIt b t = Some p"
    and "0 < squashWidth b" and "length (from_iterator p (rob_instList b t)) \<le> n"
  shows "\<exists>h' b'. squash_cycles fl' wake T t n (h, e, b) = Some (h', e, b') \<and> doneSquashing b' t \<and>
    (\<not> doneSquashing b t \<longrightarrow> (\<forall>q. let young = takeWhile (\<lambda>p. seqNum (h p) > rob_squashedSeqNum b t) (from_iterator p (rob_instList b t)) in
       has (h' q) Squashed = (has (h q) Squashed \<or> q \<in> set young) \<and> has (h' q) CanCommit = (has (h q) CanCommit \<or> q \<in> set young)))"
  using assms
proof (induction n arbitrary: h b p)
  case 0
  then show ?case by (simp add: from_iterator_def)
next
  case (Suc n)
  let ?l = "from_iterator p (rob_instList b t)" and ?sn = "rob_squashedSeqNum b t"
  let ?young = "\<lambda>h. takeWhile (\<lambda>p. seqNum (h p) > ?sn) ?l"
  show ?case
  proof (cases "doneSquashing b t")
    case True
    then show ?thesis by simp
  next
    case False
    obtain h1 b1 where 1: "rob_doSquash fl' wake T False t (h, e, b) = Some (h1, e, b1)" and C: "squash_call False t p (h, b) (h1, b1)"
      using doSquash_spec [OF Suc.prems(1-3)] by blast
    have ok1: "nda_ok fl ready (\<lambda>_. 0) d z h1 e b1" using doSquash_ok [OF 1 _ Suc.prems(1)] by simp
    define run where "run = take (squashWidth b) (?young h)"
    have run: "squash_run False (squashWidth b) ?sn h ?l = run" by (simp add: squash_run_def run_def)
    note C' = squash_callD [OF C refl run [symmetric]]
    show ?thesis
    proof (cases "run = ?l \<or> seqNum (h (?l ! length run)) \<le> ?sn")
      case True
      then have "run = ?young h" using takeWhile_done [of "squashWidth b" "\<lambda>p. seqNum (h p) > ?sn" ?l] by (simp add: run_def not_less)
      moreover have "squash_cycles fl' wake T t (Suc n) (h, e, b) = Some (h1, e, b1)" using C'(7) [OF True] 1 False by (cases n) simp_all
      ultimately show ?thesis using C'(1,2) C'(7) [OF True] by (simp add: Let_def)
    next
      case more: False
      note m = C'(8) [OF more]
      have k: "length run = squashWidth b" and young: "?young h = run @ takeWhile (\<lambda>p. seqNum (h p) > ?sn) (drop (length run) ?l)"
        using takeWhile_more [of "\<lambda>p. seqNum (h p) > ?sn" ?l "squashWidth b"] more m unfolding run_def by (simp_all add: not_le)
      have nxt: "from_iterator (?l ! length run) (rob_instList b1 t) = drop (length run) ?l"
        unfolding C'(4) using m
        by (intro from_iterator_next)
          (use ids_ok_distinct [OF nda_okD(1) [OF Suc.prems(1)]] nda_okD(7) [OF Suc.prems(1)] Suc.prems(3) in \<open>simp_all add: iterator_ok_def\<close>)
      have "length (from_iterator (?l ! length run) (rob_instList b1 t)) \<le> n"
        unfolding nxt using Suc.prems(4,5) k by simp
      from Suc.IH [OF ok1 Suc.prems(2) _ _ this] m Suc.prems(4) C'(5) obtain h' b' where
        2: "squash_cycles fl' wake T t n (h1, e, b1) = Some (h', e, b')" "doneSquashing b' t" and
        3: "\<forall>q. has (h' q) Squashed = (has (h1 q) Squashed \<or> q \<in> set (takeWhile (\<lambda>p. seqNum (h1 p) > ?sn) (drop (length run) ?l))) \<and>
           has (h' q) CanCommit = (has (h1 q) CanCommit \<or> q \<in> set (takeWhile (\<lambda>p. seqNum (h1 p) > ?sn) (drop (length run) ?l)))"
        unfolding nxt C'(6) Let_def using False by metis
      have "squash_cycles fl' wake T t (Suc n) (h, e, b) = Some (h', e, b')" using 1 2 False by simp
      then show ?thesis using 2 3 C'(1-3) by (simp add: Let_def young)
    qed
  qed
qed

end

end
