(* ===== verification/DepGraph.thy ===== *)
theory DepGraph
  imports DynInst "HOL-Library.Multiset"
begin

text \<open>
  The dependency graph of the instruction queue (\<open>cpu/o3/dep_graph.hh\<close>): for each physical
  register its producing instruction and the chain of instructions that wait for its value,
  newest first. The linked list of a register is a list; \<open>memAllocCounter\<close> counts its nodes.
\<close>

record DepEntry =
  producer :: "inst_ptr option"
  chain :: "inst_ptr list"

record DependencyGraph =
  entries :: "nat \<Rightarrow> DepEntry"
  numEntries :: nat
  memAllocCounter :: int

definition resize :: "nat \<Rightarrow> DependencyGraph \<Rightarrow> DependencyGraph" where
  "resize n g = g\<lparr>numEntries := n, entries := (\<lambda>_. \<lparr>producer = None, chain = []\<rparr>)\<rparr>"

definition upd_entry :: "nat \<Rightarrow> (DepEntry \<Rightarrow> DepEntry) \<Rightarrow> DependencyGraph \<Rightarrow> DependencyGraph" where
  "upd_entry idx f g = g\<lparr>entries := (entries g)(idx := f (entries g idx))\<rparr>"

text \<open>\<open>reset\<close>: free every chain, counting the freed nodes, and drop the producers.\<close>

definition reset_entry :: "nat \<Rightarrow> DependencyGraph \<Rightarrow> DependencyGraph" where
  "reset_entry i g =
     upd_entry i (\<lambda>_. \<lparr>producer = None, chain = []\<rparr>)
       (g\<lparr>memAllocCounter := memAllocCounter g - int (length (chain (entries g i)))\<rparr>)"

definition reset :: "DependencyGraph \<Rightarrow> DependencyGraph" where
  "reset g = fold reset_entry [0..<numEntries g] g"

definition dg_insert :: "nat \<Rightarrow> inst_ptr \<Rightarrow> DependencyGraph \<Rightarrow> DependencyGraph" where
  "dg_insert idx p g =
     (upd_entry idx (\<lambda>e. e\<lparr>chain := p # chain e\<rparr>) g)
       \<lparr>memAllocCounter := memAllocCounter g + 1\<rparr>"

definition setInst :: "nat \<Rightarrow> inst_ptr \<Rightarrow> DependencyGraph \<Rightarrow> DependencyGraph" where
  "setInst idx p = upd_entry idx (\<lambda>e. e\<lparr>producer := Some p\<rparr>)"

definition clearInst :: "nat \<Rightarrow> DependencyGraph \<Rightarrow> DependencyGraph" where
  "clearInst idx = upd_entry idx (\<lambda>e. e\<lparr>producer := None\<rparr>)"

text \<open>
  \<open>remove\<close>: nothing on an empty chain; otherwise the walk to the instruction's node asserts
  that it does not run off the end of the chain.
\<close>

definition dg_remove :: "nat \<Rightarrow> inst_ptr \<Rightarrow> DependencyGraph \<Rightarrow> DependencyGraph option" where
  "dg_remove idx p g =
     (if chain (entries g idx) = [] then Some g
      else do {
        assert_that (p \<in> set (chain (entries g idx)));
        Some ((upd_entry idx (\<lambda>e. e\<lparr>chain := remove1 p (chain e)\<rparr>) g)
                \<lparr>memAllocCounter := memAllocCounter g - 1\<rparr>)
      })"

definition dg_pop :: "nat \<Rightarrow> DependencyGraph \<Rightarrow> inst_ptr option \<times> DependencyGraph" where
  "dg_pop idx g =
     (case chain (entries g idx) of
        [] \<Rightarrow> (None, g)
      | p # ps \<Rightarrow>
          (Some p, (upd_entry idx (\<lambda>e. e\<lparr>chain := ps\<rparr>) g)
                     \<lparr>memAllocCounter := memAllocCounter g - 1\<rparr>))"

definition dg_empty_at :: "nat \<Rightarrow> DependencyGraph \<Rightarrow> bool" where
  "dg_empty_at idx g \<longleftrightarrow> chain (entries g idx) = []"

definition dg_empty :: "DependencyGraph \<Rightarrow> bool" where
  "dg_empty g \<longleftrightarrow> list_all (\<lambda>i. dg_empty_at i g) [0..<numEntries g]"

lemmas dg_defs = upd_entry_def dg_insert_def setInst_def clearInst_def dg_remove_def dg_pop_def
  dg_empty_at_def reset_entry_def

section \<open>The waiting relation\<close>

text \<open>
  \<open>waits g p\<close> is the number of chain nodes that hold \<open>p\<close>: the number of operands
  \<open>p\<close> still waits for.
\<close>

definition waits :: "DependencyGraph \<Rightarrow> inst_ptr \<Rightarrow> nat" where
  "waits g p = (\<Sum>i<numEntries g. count (mset (chain (entries g i))) p)"

definition nodes :: "DependencyGraph \<Rightarrow> nat" where
  "nodes g = (\<Sum>i<numEntries g. length (chain (entries g i)))"

definition dg_ok :: "DependencyGraph \<Rightarrow> bool" where
  "dg_ok g \<longleftrightarrow> memAllocCounter g = int (nodes g)"

lemma sum_fun_upd_nat:
  fixes f :: "nat \<Rightarrow> nat"
  assumes "idx < n"
  shows "(\<Sum>i<n. (if i = idx then v else f i)) + f idx = (\<Sum>i<n. f i) + v"
proof -
  have "(\<Sum>i<n. f i) = f idx + (\<Sum>i\<in>{..<n} - {idx}. f i)"
    using assms by (simp add: sum.remove)
  moreover have "(\<Sum>i<n. (if i = idx then v else f i)) = v + (\<Sum>i\<in>{..<n} - {idx}. f i)"
    using assms by (simp add: sum.remove [of "{..<n}" idx])
  ultimately show ?thesis by simp
qed

text \<open>Replacing one chain changes the sums by that chain's difference.\<close>

lemma waits_upd_chain:
  assumes "idx < numEntries g"
    and "entries g' = (entries g)(idx := e)" and "numEntries g' = numEntries g"
  shows "waits g' p + count (mset (chain (entries g idx))) p = waits g p + count (mset (chain e)) p"
proof -
  have "waits g' p = (\<Sum>i<numEntries g. if i = idx then count (mset (chain e)) p
                                         else count (mset (chain (entries g i))) p)"
    unfolding waits_def assms(2,3) by (intro sum.cong) auto
  then show ?thesis
    using sum_fun_upd_nat [OF assms(1), of "count (mset (chain e)) p"
        "\<lambda>i. count (mset (chain (entries g i))) p"]
    by (simp add: waits_def)
qed

lemma nodes_upd_chain:
  assumes "idx < numEntries g"
    and "entries g' = (entries g)(idx := e)" and "numEntries g' = numEntries g"
  shows "nodes g' + length (chain (entries g idx)) = nodes g + length (chain e)"
proof -
  have "nodes g' = (\<Sum>i<numEntries g. if i = idx then length (chain e)
                                       else length (chain (entries g i)))"
    unfolding nodes_def assms(2,3) by (intro sum.cong) auto
  then show ?thesis
    using sum_fun_upd_nat [OF assms(1), of "length (chain e)" "\<lambda>i. length (chain (entries g i))"]
    by (simp add: nodes_def)
qed

lemma waits_dg_insert:
  "idx < numEntries g \<Longrightarrow> waits (dg_insert idx p g) q = waits g q + (if q = p then 1 else 0)"
  using waits_upd_chain [of idx g "dg_insert idx p g" "(entries g idx)\<lparr>chain := p # chain (entries g idx)\<rparr>" q]
  by (auto simp: dg_defs)

lemma waits_dg_pop:
  assumes "idx < numEntries g" and "dg_pop idx g = (Some p, g')"
  shows "waits g q = waits g' q + (if q = p then 1 else 0)"
proof -
  obtain ps where ps: "chain (entries g idx) = p # ps"
    using assms(2) by (auto simp: dg_defs split: list.splits)
  with assms waits_upd_chain [of idx g g' "(entries g idx)\<lparr>chain := ps\<rparr>" q]
  show ?thesis by (auto simp: dg_defs)
qed

lemma waits_dg_remove:
  assumes "idx < numEntries g" and "dg_remove idx p g = Some g'" and "p \<in> set (chain (entries g idx))"
  shows "waits g q = waits g' q + (if q = p then 1 else 0)"
proof -
  let ?e = "(entries g idx)\<lparr>chain := remove1 p (chain (entries g idx))\<rparr>"
  have g': "entries g' = (entries g)(idx := ?e)" "numEntries g' = numEntries g"
    using assms by (auto simp: dg_defs split: if_splits)
  obtain k where k: "count (mset (chain (entries g idx))) p = Suc k"
    using assms(3) by (metis count_greater_zero_iff gr0_conv_Suc set_mset_mset)
  show ?thesis using waits_upd_chain [OF assms(1) g', of q] k by (auto split: if_splits)
qed

lemma dg_ok_dg_insert: "idx < numEntries g \<Longrightarrow> dg_ok g \<Longrightarrow> dg_ok (dg_insert idx p g)"
  using nodes_upd_chain [of idx g "dg_insert idx p g" "(entries g idx)\<lparr>chain := p # chain (entries g idx)\<rparr>"]
  by (auto simp: dg_defs dg_ok_def)

lemma dg_ok_dg_pop:
  assumes "idx < numEntries g" and "dg_ok g" and "dg_pop idx g = (r, g')"
  shows "dg_ok g'"
proof (cases "chain (entries g idx)")
  case Nil
  with assms show ?thesis by (simp add: dg_defs)
next
  case (Cons p ps)
  then show ?thesis
    using assms nodes_upd_chain [of idx g g' "(entries g idx)\<lparr>chain := ps\<rparr>"]
    by (auto simp: dg_defs dg_ok_def)
qed

lemma dg_ok_dg_remove:
  assumes "idx < numEntries g" and "dg_ok g" and "dg_remove idx p g = Some g'"
  shows "dg_ok g'"
proof (cases "chain (entries g idx) = []")
  case True
  with assms show ?thesis by (simp add: dg_remove_def)
next
  case False
  let ?e = "(entries g idx)\<lparr>chain := remove1 p (chain (entries g idx))\<rparr>"
  have mem: "p \<in> set (chain (entries g idx))" and cnt: "memAllocCounter g' = memAllocCounter g - 1"
    and g': "entries g' = (entries g)(idx := ?e)" "numEntries g' = numEntries g"
    using False assms by (auto simp: dg_defs split: if_splits)
  have "length (chain (entries g idx)) = Suc (length (chain ?e))"
    using mem by (simp add: length_remove1) (metis Suc_pred length_pos_if_in_set)
  with nodes_upd_chain [OF assms(1) g'] cnt assms(2) show ?thesis
    by (simp add: dg_ok_def)
qed

text \<open>\<open>reset\<close> empties the whole graph and accounts for every node.\<close>

lemma fold_reset_entry:
  assumes "n \<le> numEntries g"
  shows "entries (fold reset_entry [0..<n] g) i =
           (if i < n then \<lparr>producer = None, chain = []\<rparr> else entries g i)"
    and "numEntries (fold reset_entry [0..<n] g) = numEntries g"
    and "memAllocCounter (fold reset_entry [0..<n] g) =
           memAllocCounter g - (\<Sum>i<n. int (length (chain (entries g i))))"
  using assms
proof (induction n arbitrary: i)
  case 0
  { case 1 then show ?case by simp }
  { case 2 then show ?case by simp }
  { case 3 then show ?case by simp }
next
  case (Suc n)
  { case 1 then show ?case using Suc by (auto simp: reset_entry_def upd_entry_def) }
  { case 2 then show ?case using Suc by (auto simp: reset_entry_def upd_entry_def) }
  { case 3 then show ?case using Suc by (auto simp: reset_entry_def upd_entry_def) }
qed

lemma reset_empty:
  "dg_ok g \<Longrightarrow> dg_empty (reset g) \<and> memAllocCounter (reset g) = 0"
  using fold_reset_entry [of "numEntries g" g]
  by (auto simp: reset_def dg_empty_def dg_empty_at_def list_all_iff dg_ok_def nodes_def)

end
