(* ===== verification/FUPool.thy ===== *)
theory FUPool
  imports Prelude
begin

text \<open>
  The pool of functional units (\<open>cpu/o3/fu_pool.hh\<close>, \<open>cpu/o3/fu_pool.cc\<close>) and the units
  themselves (\<open>cpu/func_unit.hh\<close>, \<open>cpu/func_unit.cc\<close>). The instruction queue asks the pool
  for a unit of an operation class; units are handed out round robin from one circular queue
  per class.
\<close>

section \<open>Units\<close>

record OpDesc =
  opClass :: nat
  opLat :: nat
  opPipelined :: bool

record FUDesc =
  opDescList :: "OpDesc list"
  fuNumber :: nat

record FuncUnit =
  fuLatencies :: "nat \<Rightarrow> nat"
  fuPipelined :: "nat \<Rightarrow> bool"
  fuCapabilities :: "nat \<Rightarrow> bool"

definition FuncUnit_init :: FuncUnit where
  "FuncUnit_init = \<lparr>fuLatencies = (\<lambda>_. 0), fuPipelined = (\<lambda>_. False), fuCapabilities = (\<lambda>_. False)\<rparr>"

definition addCapability :: "nat \<Rightarrow> nat \<Rightarrow> bool \<Rightarrow> FuncUnit \<Rightarrow> FuncUnit option" where
  "addCapability cap oplat pl fu =
     (if oplat = 0 then None
      else Some \<lparr>fuLatencies = (fuLatencies fu)(cap := oplat),
                 fuPipelined = (fuPipelined fu)(cap := pl),
                 fuCapabilities = (fuCapabilities fu)(cap := True)\<rparr>)"

section \<open>The circular queue of unit indices\<close>

record FUIdxQueue =
  fuq_idx :: nat
  fuq_size :: nat
  funcUnitsIdx :: "nat list"

definition FUIdxQueue_init :: FUIdxQueue where
  "FUIdxQueue_init = \<lparr>fuq_idx = 0, fuq_size = 0, funcUnitsIdx = []\<rparr>"

definition addFU :: "nat \<Rightarrow> FUIdxQueue \<Rightarrow> FUIdxQueue" where
  "addFU fu q = q\<lparr>funcUnitsIdx := funcUnitsIdx q @ [fu], fuq_size := fuq_size q + 1\<rparr>"

text \<open>Reading past the end of the vector has no defined result.\<close>

definition getFU :: "FUIdxQueue \<Rightarrow> (nat \<times> FUIdxQueue) option" where
  "getFU q =
     do {
       assert_that (fuq_idx q < length (funcUnitsIdx q));
       let i = fuq_idx q + 1;
       Some (funcUnitsIdx q ! fuq_idx q, q\<lparr>fuq_idx := (if i = fuq_size q then 0 else i)\<rparr>)
     }"

section \<open>The pool\<close>

record FUPool =
  maxOpLatencies :: "nat \<Rightarrow> nat"
  poolPipelined :: "nat \<Rightarrow> bool"
  capabilityList :: "nat \<Rightarrow> bool"
  unitBusy :: "bool list"
  unitsToBeFreed :: "nat list"
  fuPerCapList :: "nat \<Rightarrow> FUIdxQueue"
  numFU :: nat
  funcUnits :: "FuncUnit list"

definition FUPool_init :: FUPool where
  "FUPool_init = \<lparr>maxOpLatencies = (\<lambda>_. 0), poolPipelined = (\<lambda>_. True),
     capabilityList = (\<lambda>_. False), unitBusy = [], unitsToBeFreed = [],
     fuPerCapList = (\<lambda>_. FUIdxQueue_init), numFU = 0, funcUnits = []\<rparr>"

text \<open>
  The constructor: the inner loop adds one operation of a unit description, \<open>add_desc\<close> adds
  the copies of one described unit.
\<close>

definition add_op :: "nat \<Rightarrow> OpDesc \<Rightarrow> FUPool \<times> FuncUnit \<Rightarrow> (FUPool \<times> FuncUnit) option" where
  "add_op number d s =
     (case s of (P, fu) \<Rightarrow>
        let c = opClass d;
            q = fold (\<lambda>k. addFU (numFU P + k)) [0..<number] (fuPerCapList P c)
        in do {
          fu \<leftarrow> addCapability c (opLat d) (opPipelined d) fu;
          Some (P\<lparr>capabilityList := (capabilityList P)(c := True),
                  fuPerCapList := (fuPerCapList P)(c := q),
                  maxOpLatencies := (if opLat d > maxOpLatencies P c
                                     then (maxOpLatencies P)(c := opLat d) else maxOpLatencies P),
                  poolPipelined := (if \<not> opPipelined d
                                    then (poolPipelined P)(c := False) else poolPipelined P)\<rparr>, fu)
        })"

definition add_desc :: "FUDesc \<Rightarrow> FUPool \<Rightarrow> FUPool option" where
  "add_desc d P =
     (if fuNumber d = 0 then Some P
      else do {
        (P, fu) \<leftarrow> foldM (add_op (fuNumber d)) (opDescList d) (P, FuncUnit_init);
        Some (P\<lparr>numFU := numFU P + fuNumber d,
                funcUnits := funcUnits P @ replicate (fuNumber d) fu\<rparr>)
      })"

definition FUPool_new :: "FUDesc list \<Rightarrow> FUPool option" where
  "FUPool_new paramList =
     do {
       P \<leftarrow> foldM add_desc paramList FUPool_init;
       Some (P\<lparr>unitBusy := replicate (numFU P) False\<rparr>)
     }"

text \<open>
  The search loop of \<open>getUnit\<close> goes round the circular queue until it finds a free unit or
  meets the first index again.
\<close>

partial_function (option) getUnit_loop ::
  "bool list \<Rightarrow> nat \<Rightarrow> nat \<Rightarrow> FUIdxQueue \<Rightarrow> (int \<times> FUIdxQueue) option" where
  "getUnit_loop busy start fu q =
     (if \<not> fu < length busy then None
      else if \<not> busy ! fu then Some (int fu, q)
      else Option.bind (getFU q) (\<lambda>(fu', q').
             if fu' = start then Some (-1, q')
             else getUnit_loop busy start fu' q'))"

definition NoCapableFU :: int where
  "NoCapableFU = -2"

definition NoFreeFU :: int where
  "NoFreeFU = -1"

definition getUnit :: "nat \<Rightarrow> FUPool \<Rightarrow> (int \<times> FUPool) option" where
  "getUnit c P =
     (if \<not> capabilityList P c then Some (NoCapableFU, P)
      else do {
        (fu, q) \<leftarrow> getFU (fuPerCapList P c);
        (r, q) \<leftarrow> getUnit_loop (unitBusy P) fu fu q;
        let P = P\<lparr>fuPerCapList := (fuPerCapList P)(c := q)\<rparr>;
        if r = NoFreeFU then Some (r, P)
        else do {
          assert_that (nat r < numFU P);
          Some (r, P\<lparr>unitBusy := (unitBusy P)[nat r := True]\<rparr>)
        }
      })"

definition freeUnitNextCycle :: "nat \<Rightarrow> FUPool \<Rightarrow> FUPool option" where
  "freeUnitNextCycle fu P =
     do {
       assert_that (fu < length (unitBusy P) \<and> unitBusy P ! fu);
       Some (P\<lparr>unitsToBeFreed := unitsToBeFreed P @ [fu]\<rparr>)
     }"

definition free_unit :: "nat \<Rightarrow> bool list \<Rightarrow> bool list option" where
  "free_unit fu busy =
     do {
       assert_that (fu < length busy \<and> busy ! fu);
       Some (busy[fu := False])
     }"

definition processFreeUnits :: "FUPool \<Rightarrow> FUPool option" where
  "processFreeUnits P =
     do {
       busy \<leftarrow> foldM free_unit (rev (unitsToBeFreed P)) (unitBusy P);
       Some (P\<lparr>unitBusy := busy, unitsToBeFreed := []\<rparr>)
     }"

definition FUPool_isDrained :: "FUPool \<Rightarrow> bool" where
  "FUPool_isDrained P \<longleftrightarrow> list_all (\<lambda>i. \<not> unitBusy P ! i) [0..<numFU P]"

section \<open>The circular queue as a rotating list\<close>

text \<open>
  The queue's contents in the order in which \<open>getFU\<close> will return them. Against this view
  \<open>getFU\<close> takes the head and moves it to the back.
\<close>

definition fuq_view :: "FUIdxQueue \<Rightarrow> nat list" where
  "fuq_view q = rotate (fuq_idx q) (funcUnitsIdx q)"

definition fuq_ok :: "FUIdxQueue \<Rightarrow> bool" where
  "fuq_ok q \<longleftrightarrow> fuq_size q = length (funcUnitsIdx q) \<and> fuq_idx q < length (funcUnitsIdx q)"

lemma set_fuq_view [simp]: "set (fuq_view q) = set (funcUnitsIdx q)"
  by (simp add: fuq_view_def)

lemma distinct_fuq_view [simp]: "distinct (fuq_view q) = distinct (funcUnitsIdx q)"
  by (simp add: fuq_view_def)

lemma getFU_refines:
  assumes "fuq_ok q"
  shows "\<exists>q'. getFU q = Some (hd (fuq_view q), q') \<and> fuq_view q' = rotate1 (fuq_view q) \<and> fuq_ok q'
           \<and> funcUnitsIdx q' = funcUnitsIdx q"
proof -
  let ?n = "length (funcUnitsIdx q)"
  have "rotate (if fuq_idx q + 1 = ?n then 0 else fuq_idx q + 1) (funcUnitsIdx q)
          = rotate (Suc (fuq_idx q)) (funcUnitsIdx q)"
    using rotate_id [of "Suc (fuq_idx q)" "funcUnitsIdx q"] by (simp del: rotate_Suc)
  moreover have "hd (rotate (fuq_idx q) (funcUnitsIdx q)) = funcUnitsIdx q ! fuq_idx q"
    using assms by (subst hd_rotate_conv_nth) (auto simp: fuq_ok_def)
  ultimately show ?thesis
    using assms by (auto simp: getFU_def fuq_ok_def fuq_view_def)
qed

text \<open>
  The loop, entered with the unit \<open>fu\<close> just taken, \<open>rest\<close> still to come and the first unit
  after those: it returns the first free one.
\<close>

lemma getUnit_loop_find:
  assumes "fuq_ok q" and "fuq_view q = rest @ start # seen" and "start \<notin> set rest"
    and "last (fuq_view q) = fu"
    and "fu < length busy" and "\<forall>u\<in>set rest. u < length busy"
  shows "\<exists>q'. fuq_ok q' \<and> funcUnitsIdx q' = funcUnitsIdx q \<and>
           (case find (\<lambda>u. \<not> busy ! u) (fu # rest) of
              Some u \<Rightarrow> getUnit_loop busy start fu q = Some (int u, q') \<and> last (fuq_view q') = u
            | None \<Rightarrow> getUnit_loop busy start fu q = Some (-1, q'))"
  using assms
proof (induction rest arbitrary: fu q seen)
  case Nil
  obtain q' where "getFU q = Some (start, q')" "fuq_ok q'" "funcUnitsIdx q' = funcUnitsIdx q"
    using getFU_refines [OF Nil.prems(1)] Nil.prems(2) by auto
  with Nil.prems show ?case
    by (cases "busy ! fu") (auto simp: getUnit_loop.simps)
next
  case (Cons u rest)
  obtain q1 where q1: "getFU q = Some (u, q1)" "fuq_view q1 = rest @ start # (seen @ [u])" "fuq_ok q1"
    "funcUnitsIdx q1 = funcUnitsIdx q"
    using getFU_refines [OF Cons.prems(1)] Cons.prems(2) by auto
  show ?case
  proof (cases "busy ! fu")
    case False
    with Cons.prems show ?thesis by (auto simp: getUnit_loop.simps)
  next
    case True
    have step: "getUnit_loop busy start fu q = getUnit_loop busy start u q1"
      using True Cons.prems q1(1) by (subst getUnit_loop.simps) auto
    have "start \<notin> set rest" "last (fuq_view q1) = u" "u < length busy" "\<forall>v\<in>set rest. v < length busy"
      using Cons.prems q1(2) by auto
    from Cons.IH [OF q1(3,2) this] q1(4) show ?thesis
      using True unfolding step by (simp only: find.simps) simp
  qed
qed

section \<open>Well-formed pools\<close>

text \<open>
  Every operation class the pool claims has a queue of distinct units of the pool, and the
  units waiting to be freed are distinct and busy.
\<close>

definition pool_ok :: "FUPool \<Rightarrow> bool" where
  "pool_ok P \<longleftrightarrow>
     length (unitBusy P) = numFU P \<and>
     (\<forall>c. capabilityList P c \<longrightarrow>
        fuq_ok (fuPerCapList P c) \<and> distinct (funcUnitsIdx (fuPerCapList P c)) \<and>
        (\<forall>u\<in>set (funcUnitsIdx (fuPerCapList P c)). u < numFU P)) \<and>
     distinct (unitsToBeFreed P) \<and>
     (\<forall>u\<in>set (unitsToBeFreed P). u < numFU P \<and> unitBusy P ! u)"

definition units_of :: "FUPool \<Rightarrow> nat \<Rightarrow> nat set" where
  "units_of P c = set (funcUnitsIdx (fuPerCapList P c))"

lemma find_free:
  "find (\<lambda>u. \<not> busy ! u) us = (None :: nat option) \<longleftrightarrow> (\<forall>u\<in>set us. busy ! u)"
  by (auto simp: find_None_iff)

lemma find_free_Some: "find P us = Some u \<Longrightarrow> u \<in> set us \<and> P u"
  by (metis find_Some_iff nth_mem)

lemma getUnit_cases:
  assumes "pool_ok P" and "capabilityList P c"
  shows "\<exists>q. fuq_ok q \<and> funcUnitsIdx q = funcUnitsIdx (fuPerCapList P c) \<and>
     ((\<exists>u\<in>units_of P c. \<not> unitBusy P ! u \<and> last (fuq_view q) = u \<and>
          getUnit c P = Some (int u, P\<lparr>fuPerCapList := (fuPerCapList P)(c := q),
                                       unitBusy := (unitBusy P)[u := True]\<rparr>)) \<or>
      (\<forall>u\<in>units_of P c. unitBusy P ! u) \<and>
          getUnit c P = Some (NoFreeFU, P\<lparr>fuPerCapList := (fuPerCapList P)(c := q)\<rparr>))"
proof -
  let ?q = "fuPerCapList P c"
  have ok: "fuq_ok ?q" "distinct (fuq_view ?q)" "\<forall>u\<in>set (fuq_view ?q). u < numFU P"
    "length (unitBusy P) = numFU P"
    using assms by (auto simp: pool_ok_def)
  then obtain fu rest where v: "fuq_view ?q = fu # rest"
    by (cases "fuq_view ?q") (auto simp: fuq_view_def fuq_ok_def)
  from getFU_refines [OF ok(1)] v obtain q1 where q1: "getFU ?q = Some (fu, q1)"
    "fuq_view q1 = rest @ [fu]" "fuq_ok q1" "funcUnitsIdx q1 = funcUnitsIdx ?q" by auto
  have U: "units_of P c = set (fu # rest)"
    by (metis units_of_def set_fuq_view v)
  have lt: "\<forall>u\<in>set (fu # rest). u < numFU P" and "fu \<notin> set rest"
    using ok v by auto
  with getUnit_loop_find [of q1 rest fu "[]" fu "unitBusy P"] q1 ok(4)
  obtain q' where q': "fuq_ok q'" "funcUnitsIdx q' = funcUnitsIdx q1"
    "case find (\<lambda>u. \<not> unitBusy P ! u) (fu # rest) of
       Some u \<Rightarrow> getUnit_loop (unitBusy P) fu fu q1 = Some (int u, q') \<and> last (fuq_view q') = u
     | None \<Rightarrow> getUnit_loop (unitBusy P) fu fu q1 = Some (-1, q')"
    by auto
  show ?thesis
  proof (cases "find (\<lambda>u. \<not> unitBusy P ! u) (fu # rest)")
    case None
    with find_free [of "unitBusy P" "fu # rest"] q' q1 assms(2) U show ?thesis
      by (intro exI [of _ q']) (auto simp: getUnit_def NoFreeFU_def)
  next
    case (Some u)
    with find_free_Some [OF Some] lt q' q1 assms(2) U show ?thesis
      by (intro exI [of _ q']) (auto simp: getUnit_def NoFreeFU_def)
  qed
qed

text \<open>Taking and freeing units keeps the pool well formed.\<close>

lemma pool_ok_getUnit:
  assumes "pool_ok P" and "getUnit c P = Some (r, P')"
  shows "pool_ok P'"
proof (cases "capabilityList P c")
  case False
  with assms show ?thesis by (simp add: getUnit_def)
next
  case True
  from getUnit_cases [OF assms(1) True] assms show ?thesis
    by (auto simp: pool_ok_def nth_update split: if_splits)
qed

lemma pool_ok_freeUnitNextCycle:
  "pool_ok P \<Longrightarrow> freeUnitNextCycle u P = Some P' \<Longrightarrow> u \<notin> set (unitsToBeFreed P) \<Longrightarrow> pool_ok P'"
  by (auto simp: freeUnitNextCycle_def pool_ok_def)

lemma free_units:
  assumes "distinct us" and "\<forall>u\<in>set us. u < length busy \<and> busy ! u"
  shows "\<exists>busy'. foldM free_unit us busy = Some busy' \<and> length busy' = length busy \<and>
           (\<forall>u<length busy. busy' ! u = (busy ! u \<and> u \<notin> set us))"
  using assms
proof (induction us arbitrary: busy)
  case Nil
  then show ?case by simp
next
  case (Cons u us)
  let ?b = "busy[u := False]"
  have step: "free_unit u busy = Some ?b" using Cons.prems by (simp add: free_unit_def)
  have "\<forall>v\<in>set us. v < length ?b \<and> ?b ! v" using Cons.prems by (auto simp: nth_update)
  with Cons.IH [of ?b] Cons.prems(1) obtain busy' where "foldM free_unit us ?b = Some busy'"
    "length busy' = length busy" "\<forall>v<length busy. busy' ! v = (?b ! v \<and> v \<notin> set us)" by auto
  with step show ?case by (intro exI [of _ busy']) (auto simp: nth_update)
qed

lemma pool_ok_processFreeUnits:
  assumes "pool_ok P"
  shows "\<exists>P'. processFreeUnits P = Some P' \<and> pool_ok P' \<and> unitsToBeFreed P' = [] \<and>
           (\<forall>u<numFU P. unitBusy P' ! u = (unitBusy P ! u \<and> u \<notin> set (unitsToBeFreed P)))"
  using free_units [of "rev (unitsToBeFreed P)" "unitBusy P"] assms
  by (auto simp: processFreeUnits_def pool_ok_def)

text \<open>
  \<open>pool_le P P'\<close>: the same units with the same capabilities, and every busy unit still busy.
  A class is starved when it has units and all are busy.
\<close>

definition pool_le :: "FUPool \<Rightarrow> FUPool \<Rightarrow> bool" where
  "pool_le P P' \<longleftrightarrow> capabilityList P' = capabilityList P \<and> (\<forall>c. units_of P' c = units_of P c) \<and>
     (\<forall>u. unitBusy P ! u \<longrightarrow> unitBusy P' ! u)"

definition starved :: "FUPool \<Rightarrow> nat \<Rightarrow> bool" where
  "starved P c \<longleftrightarrow> capabilityList P c \<and> (\<forall>u\<in>units_of P c. unitBusy P ! u)"

lemma pool_le_refl [simp]: "pool_le P P"
  by (simp add: pool_le_def)

lemma pool_le_trans: "pool_le P Q \<Longrightarrow> pool_le Q R \<Longrightarrow> pool_le P R"
  by (simp add: pool_le_def)

lemma starved_mono: "starved P c \<Longrightarrow> pool_le P P' \<Longrightarrow> starved P' c"
  by (auto simp: starved_def pool_le_def)

lemma getUnit_result:
  assumes ok: "pool_ok P"
  shows "\<exists>idx P'. getUnit c P = Some (idx, P') \<and> pool_ok P' \<and> pool_le P P' \<and>
     unitsToBeFreed P' = unitsToBeFreed P \<and>
     (if idx \<ge> 0 then nat idx < numFU P' \<and> unitBusy P' ! nat idx \<and> nat idx \<notin> set (unitsToBeFreed P')
      else idx = NoCapableFU \<or> idx = NoFreeFU \<and> starved P c)"
proof (cases "capabilityList P c")
  case False
  with ok show ?thesis by (simp add: getUnit_def NoCapableFU_def)
next
  case True
  obtain q where q: "fuq_ok q" "funcUnitsIdx q = funcUnitsIdx (fuPerCapList P c)" and r:
     "(\<exists>u\<in>units_of P c. \<not> unitBusy P ! u \<and> last (fuq_view q) = u \<and>
          getUnit c P = Some (int u, P\<lparr>fuPerCapList := (fuPerCapList P)(c := q),
                                       unitBusy := (unitBusy P)[u := True]\<rparr>)) \<or>
      (\<forall>u\<in>units_of P c. unitBusy P ! u) \<and>
          getUnit c P = Some (NoFreeFU, P\<lparr>fuPerCapList := (fuPerCapList P)(c := q)\<rparr>)"
    using getUnit_cases [OF ok True] by blast
  from r show ?thesis
  proof (elim disjE bexE conjE)
    fix u
    assume u: "u \<in> units_of P c" "\<not> unitBusy P ! u"
      "getUnit c P = Some (int u, P\<lparr>fuPerCapList := (fuPerCapList P)(c := q), unitBusy := (unitBusy P)[u := True]\<rparr>)"
    have "u < numFU P" "u \<notin> set (unitsToBeFreed P)" "length (unitBusy P) = numFU P"
      using ok u(1,2) True by (auto simp: pool_ok_def units_of_def)
    with u q pool_ok_getUnit [OF ok u(3)] show ?thesis
      by (auto simp: pool_le_def units_of_def nth_update)
  next
    assume n: "\<forall>u\<in>units_of P c. unitBusy P ! u"
      "getUnit c P = Some (NoFreeFU, P\<lparr>fuPerCapList := (fuPerCapList P)(c := q)\<rparr>)"
    with q True pool_ok_getUnit [OF ok n(2)] show ?thesis
      by (auto simp: pool_le_def units_of_def NoFreeFU_def starved_def)
  qed
qed

lemma freeUnitNextCycle_total:
  assumes "pool_ok P" and "u < numFU P" and "unitBusy P ! u" and "u \<notin> set (unitsToBeFreed P)"
  shows "\<exists>P'. freeUnitNextCycle u P = Some P' \<and> pool_ok P' \<and> pool_le P P'"
proof -
  have "freeUnitNextCycle u P = Some (P\<lparr>unitsToBeFreed := unitsToBeFreed P @ [u]\<rparr>)"
    using assms by (simp add: freeUnitNextCycle_def pool_ok_def)
  moreover have "pool_le P (P\<lparr>unitsToBeFreed := unitsToBeFreed P @ [u]\<rparr>)"
    by (simp add: pool_le_def units_of_def)
  ultimately show ?thesis using pool_ok_freeUnitNextCycle assms by blast
qed

section \<open>The constructor\<close>

lemma fold_addFU:
  "fold (\<lambda>k. addFU (n + k)) ks q =
     q\<lparr>funcUnitsIdx := funcUnitsIdx q @ map ((+) n) ks, fuq_size := fuq_size q + length ks\<rparr>"
  by (induction ks arbitrary: q) (auto simp: addFU_def)

text \<open>The pool while it is built: queues hold distinct units below \<open>n\<close> and are at the start.\<close>

definition built :: "nat \<Rightarrow> FUPool \<Rightarrow> bool" where
  "built n P \<longleftrightarrow> unitsToBeFreed P = [] \<and>
     (\<forall>c. let q = fuPerCapList P c in
        fuq_idx q = 0 \<and> fuq_size q = length (funcUnitsIdx q) \<and> distinct (funcUnitsIdx q) \<and>
        (\<forall>u\<in>set (funcUnitsIdx q). u < n) \<and> (capabilityList P c \<longleftrightarrow> funcUnitsIdx q \<noteq> []))"

lemma upt_shift: "map ((+) n) [0..<m] = [n..<n + m]"
  using map_add_upt [of n m] by (simp add: add.commute cong: map_cong)

lemma add_op_effect:
  assumes "add_op number d (P, fu) = Some (P1, fu1)"
  defines "q \<equiv> fuPerCapList P (opClass d)"
  shows "numFU P1 = numFU P" "unitsToBeFreed P1 = unitsToBeFreed P"
    "capabilityList P1 = (capabilityList P)(opClass d := True)"
    "fuPerCapList P1 = (fuPerCapList P)(opClass d :=
       q\<lparr>funcUnitsIdx := funcUnitsIdx q @ [numFU P..<numFU P + number], fuq_size := fuq_size q + number\<rparr>)"
  using assms
  by (auto simp: add_op_def addCapability_def Let_def fold_addFU upt_shift split: if_splits)

lemma built_add_op:
  assumes step: "add_op number d (P, fu) = Some (P1, fu1)" and "number > 0"
    and inv: "built (numFU P + number) P" and "\<forall>u\<in>units_of P (opClass d). u < numFU P"
  shows "built (numFU P + number) P1"
  unfolding built_def Let_def add_op_effect [OF step]
proof (intro conjI allI)
  fix c
  show "distinct (funcUnitsIdx (((fuPerCapList P)(opClass d := fuPerCapList P (opClass d)
     \<lparr>funcUnitsIdx := funcUnitsIdx (fuPerCapList P (opClass d)) @ [numFU P..<numFU P + number],
      fuq_size := fuq_size (fuPerCapList P (opClass d)) + number\<rparr>)) c))"
    using assms by (fastforce simp: built_def Let_def units_of_def)
qed (use assms in \<open>auto simp: built_def Let_def units_of_def\<close>)

lemma add_ops_built:
  assumes "distinct (map opClass ds)" and "\<forall>d\<in>set ds. opLat d > 0" and "number > 0"
    and "built (numFU P + number) P"
    and "\<forall>d\<in>set ds. \<forall>u\<in>units_of P (opClass d). u < numFU P"
  shows "\<exists>P' fu'. foldM (add_op number) ds (P, fu) = Some (P', fu') \<and>
           numFU P' = numFU P \<and> built (numFU P + number) P' \<and>
           (\<forall>c. units_of P' c = units_of P c \<union>
                (if c \<in> opClass ` set ds then {numFU P..<numFU P + number} else {}))"
  using assms
proof (induction ds arbitrary: P fu)
  case Nil
  then show ?case by simp
next
  case (Cons d ds)
  obtain P1 fu1 where step: "add_op number d (P, fu) = Some (P1, fu1)"
    using Cons.prems(2) by (auto simp: add_op_def addCapability_def Let_def)
  note P1 = add_op_effect(1) [OF step] built_add_op [OF step Cons.prems(3,4)]
  have U1: "units_of P1 c = units_of P c \<union> (if c = opClass d then {numFU P..<numFU P + number} else {})" for c
    using add_op_effect(4) [OF step] by (auto simp: units_of_def)
  have "\<forall>e\<in>set ds. \<forall>u\<in>units_of P1 (opClass e). u < numFU P1"
    using Cons.prems(1,5) by (auto simp: U1 P1(1) rev_image_eqI split: if_splits)
  with Cons.IH [of P1 fu1] Cons.prems P1 obtain P' fu' where
    "foldM (add_op number) ds (P1, fu1) = Some (P', fu')" "numFU P' = numFU P"
    "built (numFU P + number) P'"
    "\<forall>c. units_of P' c = units_of P1 c \<union>
                (if c \<in> opClass ` set ds then {numFU P..<numFU P + number} else {})"
    by auto
  then show ?case using step U1 by (intro exI [of _ P'] exI [of _ fu']) auto
qed

definition desc_ok :: "FUDesc \<Rightarrow> bool" where
  "desc_ok d \<longleftrightarrow> distinct (map opClass (opDescList d)) \<and> list_all (\<lambda>o'. opLat o' > 0) (opDescList d)"

lemma add_desc_built:
  assumes "desc_ok d" and "built (numFU P) P"
  shows "\<exists>P'. add_desc d P = Some P' \<and> built (numFU P') P' \<and> numFU P' = numFU P + fuNumber d \<and>
           (\<forall>c. units_of P' c = units_of P c \<union>
              (if c \<in> opClass ` set (opDescList d) then {numFU P..<numFU P + fuNumber d} else {}))"
proof (cases "fuNumber d = 0")
  case True
  with assms show ?thesis by (auto simp: add_desc_def)
next
  case False
  have "built (numFU P + fuNumber d) P" and "\<forall>c. \<forall>u\<in>units_of P c. u < numFU P"
    using assms(2) by (auto simp: built_def Let_def units_of_def intro: trans_less_add1)
  then obtain P' fu' where "foldM (add_op (fuNumber d)) (opDescList d) (P, FuncUnit_init) = Some (P', fu')"
    "numFU P' = numFU P" "built (numFU P + fuNumber d) P'"
    "\<forall>c. units_of P' c = units_of P c \<union>
           (if c \<in> opClass ` set (opDescList d) then {numFU P..<numFU P + fuNumber d} else {})"
    using add_ops_built [of "opDescList d" "fuNumber d" P FuncUnit_init] False assms(1)
    by (auto simp: desc_ok_def list_all_iff)
  with False show ?thesis by (auto simp: add_desc_def built_def Let_def units_of_def)
qed

text \<open>The index of the first unit of each description, and the units of a class.\<close>

fun desc_units :: "nat \<Rightarrow> FUDesc list \<Rightarrow> nat \<Rightarrow> nat set" where
  "desc_units n [] c = {}"
| "desc_units n (d # ds) c =
     (if c \<in> opClass ` set (opDescList d) then {n..<n + fuNumber d} else {}) \<union>
     desc_units (n + fuNumber d) ds c"

lemma add_descs_built:
  assumes "list_all desc_ok ds" and "built (numFU P) P"
  shows "\<exists>P'. foldM add_desc ds P = Some P' \<and> built (numFU P') P' \<and>
           numFU P' = numFU P + sum_list (map fuNumber ds) \<and>
           (\<forall>c. units_of P' c = units_of P c \<union> desc_units (numFU P) ds c)"
  using assms
proof (induction ds arbitrary: P)
  case Nil
  then show ?case by simp
next
  case (Cons d ds)
  from add_desc_built [of d P] Cons.prems obtain P1 where P1: "add_desc d P = Some P1"
    "built (numFU P1) P1" "numFU P1 = numFU P + fuNumber d"
    "\<forall>c. units_of P1 c = units_of P c \<union>
       (if c \<in> opClass ` set (opDescList d) then {numFU P..<numFU P + fuNumber d} else {})" by auto
  from Cons.IH [OF _ P1(2)] Cons.prems obtain P' where "foldM add_desc ds P1 = Some P'"
    "built (numFU P') P'" "numFU P' = numFU P1 + sum_list (map fuNumber ds)"
    "\<forall>c. units_of P' c = units_of P1 c \<union> desc_units (numFU P1) ds c" by auto
  with P1 show ?case by (intro exI [of _ P']) auto
qed

lemma FUPool_new_built:
  assumes "list_all desc_ok ds"
  shows "\<exists>P. FUPool_new ds = Some P \<and> pool_ok P \<and> FUPool_isDrained P \<and>
           numFU P = sum_list (map fuNumber ds) \<and>
           (\<forall>c. units_of P c = desc_units 0 ds c \<and> (capabilityList P c \<longleftrightarrow> units_of P c \<noteq> {}))"
proof -
  have "built (numFU FUPool_init) FUPool_init" and U: "units_of FUPool_init c = {}" for c
    by (auto simp: built_def FUPool_init_def FUIdxQueue_init_def units_of_def)
  from add_descs_built [OF assms this(1)] obtain P where P: "foldM add_desc ds FUPool_init = Some P"
    "built (numFU P) P" "numFU P = sum_list (map fuNumber ds)" "\<forall>c. units_of P c = desc_units 0 ds c"
    by (auto simp: U) (simp add: FUPool_init_def)
  then show ?thesis
    by (auto simp: FUPool_new_def built_def Let_def pool_ok_def FUPool_isDrained_def units_of_def
        fuq_ok_def list_all_iff)
qed

section \<open>Properties\<close>

text \<open>
  C17. A pool built from unit descriptions whose operation classes are distinct and have a
  nonzero latency is well formed and idle, has as many units as the descriptions ask for,
  and offers for each operation class exactly the units of the descriptions that list it.
\<close>

theorem FUPool_new_correct:
  assumes "list_all desc_ok ds"
  shows "\<exists>P. FUPool_new ds = Some P \<and> pool_ok P \<and> FUPool_isDrained P \<and>
           numFU P = sum_list (map fuNumber ds) \<and>
           (\<forall>c. units_of P c = desc_units 0 ds c \<and> (capabilityList P c \<longleftrightarrow> units_of P c \<noteq> {}))"
  using FUPool_new_built [OF assms] .

definition demo_descs :: "FUDesc list" where
  "demo_descs =
     [\<lparr>opDescList = [\<lparr>opClass = 1, opLat = 1, opPipelined = True\<rparr>], fuNumber = 2\<rparr>,
      \<lparr>opDescList = [\<lparr>opClass = 1, opLat = 3, opPipelined = False\<rparr>,
                     \<lparr>opClass = 2, opLat = 4, opPipelined = True\<rparr>], fuNumber = 1\<rparr>]"

definition demo_pool :: FUPool where
  "demo_pool = the (FUPool_new demo_descs)"

lemma demo_descs_ok: "list_all desc_ok demo_descs"
  by (simp add: demo_descs_def desc_ok_def)

lemma demo_pool_ok: "pool_ok demo_pool" "units_of demo_pool c = desc_units 0 demo_descs c"
  "capabilityList demo_pool c \<longleftrightarrow> units_of demo_pool c \<noteq> {}"
  "\<not> unitBusy demo_pool ! 0"
  using FUPool_new_built [OF demo_descs_ok]
  by (auto simp: demo_pool_def FUPool_isDrained_def list_all_iff)
    (simp add: demo_descs_def)

lemma demo_pool_class: "units_of demo_pool 1 = {0, 1, 2}" "capabilityList demo_pool 1"
  unfolding demo_pool_ok(2,3) by (auto simp: demo_descs_def)

theorem FUPool_new_correct_witness:
  "\<exists>P. FUPool_new demo_descs = Some P \<and> numFU P = 3 \<and> units_of P 1 = {0, 1, 2} \<and> units_of P 2 = {2}"
  using FUPool_new_correct [OF demo_descs_ok] by (auto simp: demo_descs_def)

text \<open>
  C18. A request for a unit always returns. Without the capability it reports
  \<open>NoCapableFU\<close>; otherwise it marks busy and returns a unit of the class that was free,
  which becomes the last candidate of the next request, and reports \<open>NoFreeFU\<close> exactly when
  every unit of the class is busy. Other units keep their state and the pool stays well
  formed.
\<close>

theorem getUnit_correct:
  assumes "pool_ok P"
  shows "\<exists>r P'. getUnit c P = Some (r, P') \<and> pool_ok P' \<and>
    (if \<not> capabilityList P c then r = NoCapableFU \<and> P' = P
     else if \<forall>u\<in>units_of P c. unitBusy P ! u
     then r = NoFreeFU \<and> unitBusy P' = unitBusy P
     else \<exists>u\<in>units_of P c. r = int u \<and> \<not> unitBusy P ! u \<and> unitBusy P' = (unitBusy P)[u := True] \<and>
            last (fuq_view (fuPerCapList P' c)) = u)"
proof (cases "capabilityList P c")
  case False
  with assms show ?thesis by (simp add: getUnit_def)
next
  case True
  from getUnit_cases [OF assms True] obtain r P' where r: "getUnit c P = Some (r, P')" by blast
  with getUnit_cases [OF assms True] pool_ok_getUnit [OF assms r] True show ?thesis
    by (intro exI [of _ r] exI [of _ P']) auto
qed

theorem getUnit_correct_witness:
  "\<exists>u\<in>{0, 1, 2}. \<exists>P'. getUnit 1 demo_pool = Some (int u, P') \<and> pool_ok P' \<and>
     unitBusy P' = (unitBusy demo_pool)[u := True]"
  using getUnit_correct [OF demo_pool_ok(1), of 1, unfolded demo_pool_class(1)]
    demo_pool_ok(4) demo_pool_class(2) by fastforce

end
