(* ===== verification/ReadyQueues.thy ===== *)
theory ReadyQueues
  imports DynInst "HOL-Library.Multiset"
begin

text \<open>
  The ready queues of the instruction queue and the age-ordered list of the operation
  classes that have a ready instruction (\<open>cpu/o3/inst_queue.hh\<close>, \<open>cpu/o3/inst_queue_impl.hh\<close>:
  \<open>pqCompare\<close>, \<open>addToOrderList\<close>, \<open>moveToYoungerInst\<close>, \<open>addReadyMemInst\<close>).
\<close>

section \<open>Priority queues of instructions\<close>

text \<open>
  \<open>pqCompare\<close>: the first argument has the lower priority. With
  \<open>CD_Prioritize_Branch_Execution\<close> (the first parameter) a load that a branch waits for goes
  before all other instructions; otherwise the older instruction goes first.
\<close>

definition branch_load_preq :: "dyn_inst \<Rightarrow> bool" where
  "branch_load_preq i \<longleftrightarrow> has i BranchPrequisite \<and> sflag i IsLoad"

definition pqCompare :: "bool \<Rightarrow> inst_store \<Rightarrow> inst_ptr \<Rightarrow> inst_ptr \<Rightarrow> bool" where
  "pqCompare prio h lhs rhs =
     (if prio \<and> branch_load_preq (h lhs) \<noteq> branch_load_preq (h rhs)
      then \<not> branch_load_preq (h lhs) \<and> branch_load_preq (h rhs)
      else seqNum (h lhs) > seqNum (h rhs))"

text \<open>
  A \<open>std::priority_queue\<close> is the list of its elements; \<open>top\<close> is an element no other
  element has priority over, \<open>pop\<close> removes it.
\<close>

fun pq_top :: "('a \<Rightarrow> 'a \<Rightarrow> bool) \<Rightarrow> 'a list \<Rightarrow> 'a option" where
  "pq_top cmp [] = None"
| "pq_top cmp (x # xs) =
     (case pq_top cmp xs of
        None \<Rightarrow> Some x
      | Some t \<Rightarrow> Some (if cmp x t then t else x))"

definition pq_pop :: "('a \<Rightarrow> 'a \<Rightarrow> bool) \<Rightarrow> 'a list \<Rightarrow> 'a list" where
  "pq_pop cmp xs = (case pq_top cmp xs of None \<Rightarrow> xs | Some t \<Rightarrow> remove1 t xs)"

section \<open>The queues and the order list\<close>

record ListOrderEntry =
  queueType :: nat
  oldestInst :: InstSeqNum

text \<open>
  \<open>readyIt[c]\<close>, the iterator of class \<open>c\<close> into the order list, is found as the entry of
  class \<open>c\<close>: a class has at most one entry (\<open>rq_ok\<close> below).
\<close>

record ReadyQueues =
  readyInsts :: "nat \<Rightarrow> inst_ptr list"
  listOrder :: "ListOrderEntry list"
  queueOnList :: "nat \<Rightarrow> bool"

definition order_insert :: "ListOrderEntry \<Rightarrow> ListOrderEntry list \<Rightarrow> ListOrderEntry list" where
  "order_insert e es =
     takeWhile (\<lambda>x. \<not> oldestInst x > oldestInst e) es @ e #
     dropWhile (\<lambda>x. \<not> oldestInst x > oldestInst e) es"

definition addToOrderList :: "bool \<Rightarrow> inst_store \<Rightarrow> nat \<Rightarrow> ReadyQueues \<Rightarrow> ReadyQueues option" where
  "addToOrderList prio h c q =
     do {
       top \<leftarrow> pq_top (pqCompare prio h) (readyInsts q c);
       let e = \<lparr>queueType = c, oldestInst = seqNum (h top)\<rparr>;
       Some (q\<lparr>listOrder := order_insert e (listOrder q),
               queueOnList := (queueOnList q)(c := True)\<rparr>)
     }"

text \<open>
  \<open>moveToYoungerInst\<close> on the entries that follow the current one: insert the class's new
  entry before the first entry that is not older than it.
\<close>

definition moveToYoungerInst ::
  "bool \<Rightarrow> inst_store \<Rightarrow> nat \<Rightarrow> inst_ptr list \<Rightarrow> ListOrderEntry list \<Rightarrow> ListOrderEntry list option"
where
  "moveToYoungerInst prio h c ready post =
     do {
       top \<leftarrow> pq_top (pqCompare prio h) ready;
       let e = \<lparr>queueType = c, oldestInst = seqNum (h top)\<rparr>;
       Some (takeWhile (\<lambda>x. oldestInst x < oldestInst e) post @ e #
             dropWhile (\<lambda>x. oldestInst x < oldestInst e) post)
     }"

definition erase_class :: "nat \<Rightarrow> ListOrderEntry list \<Rightarrow> ListOrderEntry list" where
  "erase_class c es =
     takeWhile (\<lambda>x. queueType x \<noteq> c) es @ tl (dropWhile (\<lambda>x. queueType x \<noteq> c) es)"

text \<open>
  \<open>addReadyMemInst\<close>, also the second half of \<open>addIfReady\<close>: push the instruction and move
  its class forward on the order list when it is now the oldest of its class.
\<close>

definition addReadyMemInst ::
  "bool \<Rightarrow> inst_store \<Rightarrow> inst_ptr \<Rightarrow> ReadyQueues \<Rightarrow> ReadyQueues option" where
  "addReadyMemInst prio h p q =
     (let c = sopClass (staticInst (h p));
          q = q\<lparr>readyInsts := (readyInsts q)(c := p # readyInsts q c)\<rparr>
      in if \<not> queueOnList q c then addToOrderList prio h c q
         else do {
           top \<leftarrow> pq_top (pqCompare prio h) (readyInsts q c);
           e \<leftarrow> find (\<lambda>x. queueType x = c) (listOrder q);
           if seqNum (h top) < oldestInst e
           then addToOrderList prio h c (q\<lparr>listOrder := erase_class c (listOrder q)\<rparr>)
           else Some q
         })"

section \<open>Priority queue laws\<close>

lemma pq_top_None [simp]: "(pq_top cmp xs = None) = (xs = [])"
  by (cases xs) (auto split: option.splits)

lemma pq_top_Some: "xs \<noteq> [] \<Longrightarrow> \<exists>t. pq_top cmp xs = Some t"
  using pq_top_None [of cmp xs] by (cases "pq_top cmp xs") auto

lemma pq_top_in_set: "pq_top cmp xs = Some t \<Longrightarrow> t \<in> set xs"
  by (induction xs arbitrary: t) (auto split: option.splits if_splits)

text \<open>
  With the plain age order the top is the element with the least sequence number.
\<close>

lemma pq_top_oldest:
  "pq_top (pqCompare False h) xs = Some t \<Longrightarrow> x \<in> set xs \<Longrightarrow> seqNum (h t) \<le> seqNum (h x)"
proof (induction xs arbitrary: t)
  case Nil
  then show ?case by simp
next
  case (Cons y ys)
  show ?case
  proof (cases "pq_top (pqCompare False h) ys")
    case None
    with Cons.prems show ?thesis by simp
  next
    case (Some u)
    with Cons.prems(1) have "t = (if pqCompare False h y u then u else y)" by simp
    with Cons.IH [OF Some] Cons.prems(2) show ?thesis
      by (auto simp: pqCompare_def split: if_splits)
  qed
qed

text \<open>With priorities, a load a branch waits for is chosen whenever there is one.\<close>

lemma pq_top_priority:
  "pq_top (pqCompare True h) xs = Some t \<Longrightarrow> x \<in> set xs \<Longrightarrow> branch_load_preq (h x) \<Longrightarrow>
   branch_load_preq (h t) \<and> seqNum (h t) \<le> seqNum (h x)"
proof (induction xs arbitrary: t)
  case Nil
  then show ?case by simp
next
  case (Cons y ys)
  show ?case
  proof (cases "pq_top (pqCompare True h) ys")
    case None
    with Cons.prems show ?thesis by simp
  next
    case (Some u)
    with Cons.prems(1) have "t = (if pqCompare True h y u then u else y)" by simp
    with Cons.IH [OF Some] Cons.prems(2,3) show ?thesis
      by (auto simp: pqCompare_def split: if_splits)
  qed
qed

lemma mset_pq_pop: "pq_top cmp xs = Some t \<Longrightarrow> mset xs = add_mset t (mset (pq_pop cmp xs))"
  by (simp add: pq_pop_def pq_top_in_set)

section \<open>The order list invariant\<close>

text \<open>
  The order list is sorted by age, holds every operation class with a ready instruction
  exactly once, and each entry carries the age of the class's oldest ready instruction.
\<close>

abbreviation ages :: "ListOrderEntry list \<Rightarrow> InstSeqNum list" where
  "ages es \<equiv> map oldestInst es"

definition entry_ok :: "inst_store \<Rightarrow> (nat \<Rightarrow> inst_ptr list) \<Rightarrow> ListOrderEntry \<Rightarrow> bool" where
  "entry_ok h ready e \<longleftrightarrow>
     (\<exists>t. pq_top (pqCompare False h) (ready (queueType e)) = Some t \<and> oldestInst e = seqNum (h t))"

definition rq_ok :: "inst_store \<Rightarrow> ReadyQueues \<Rightarrow> bool" where
  "rq_ok h q \<longleftrightarrow>
     sorted (ages (listOrder q)) \<and>
     distinct (map queueType (listOrder q)) \<and>
     (\<forall>c. queueOnList q c = (c \<in> queueType ` set (listOrder q))) \<and>
     (\<forall>c. queueOnList q c = (readyInsts q c \<noteq> [])) \<and>
     (\<forall>e\<in>set (listOrder q). entry_ok h (readyInsts q) e)"

text \<open>Each clause of the invariant, for use one at a time.\<close>

lemma rq_okD:
  assumes "rq_ok h q"
  shows "sorted (ages (listOrder q))" "distinct (map queueType (listOrder q))"
    "queueOnList q c = (c \<in> queueType ` set (listOrder q))"
    "queueOnList q c = (readyInsts q c \<noteq> [])"
    "e \<in> set (listOrder q) \<Longrightarrow> entry_ok h (readyInsts q) e"
  using assms by (auto simp: rq_ok_def)

lemma mset_takeWhile_dropWhile: "mset (takeWhile P xs) + mset (dropWhile P xs) = mset xs"
  by (metis mset_append takeWhile_dropWhile_id)

lemma mset_order_insert: "mset (order_insert e es) = add_mset e (mset es)"
  by (simp add: order_insert_def mset_takeWhile_dropWhile)

lemma set_order_insert [simp]: "set (order_insert e es) = insert e (set es)"
  by (metis mset_order_insert set_mset_add_mset_insert set_mset_mset)

lemma sorted_takeWhile_dropWhile_insert:
  fixes f :: "'a \<Rightarrow> nat"
  assumes "sorted (map f es)"
  shows "sorted (map f (takeWhile (\<lambda>x. \<not> f x > f e) es @ e # dropWhile (\<lambda>x. \<not> f x > f e) es))"
  using assms
proof (induction es)
  case Nil
  then show ?case by simp
next
  case (Cons x es)
  then show ?case
    by (auto simp: sorted_append dest!: set_takeWhileD set_dropWhileD)
qed

lemma sorted_order_insert: "sorted (ages es) \<Longrightarrow> sorted (ages (order_insert e es))"
  unfolding order_insert_def by (rule sorted_takeWhile_dropWhile_insert)

lemma distinct_order_insert:
  "distinct (map queueType (order_insert e es)) =
     (queueType e \<notin> queueType ` set es \<and> distinct (map queueType es))"
proof -
  have "mset (map queueType (order_insert e es)) = mset (map queueType (e # es))"
    by (simp add: mset_order_insert)
  then show ?thesis
    by (metis distinct.simps(2) list.set_map list.simps(9) mset_eq_imp_distinct_iff)
qed

lemma erase_class_props:
  assumes "distinct (map queueType es)"
  shows "set (erase_class c es) = {x \<in> set es. queueType x \<noteq> c}"
    and "distinct (map queueType (erase_class c es))"
    and "sorted (ages es) \<Longrightarrow> sorted (ages (erase_class c es))"
proof -
  have eq: "erase_class c es = filter (\<lambda>x. queueType x \<noteq> c) es"
    using assms unfolding erase_class_def
  proof (induction es)
    case Nil
    then show ?case by simp
  next
    case (Cons x es)
    show ?case
    proof (cases "queueType x = c")
      case True
      with Cons.prems have "c \<notin> queueType ` set es" by auto
      then have "filter (\<lambda>x. queueType x \<noteq> c) es = es" by (auto simp: filter_id_conv)
      with True show ?thesis by simp
    next
      case False
      with Cons show ?thesis by simp
    qed
  qed
  show "set (erase_class c es) = {x \<in> set es. queueType x \<noteq> c}" by (auto simp: eq)
  show "distinct (map queueType (erase_class c es))"
    using assms by (simp add: eq distinct_map_filter)
  show "sorted (ages es) \<Longrightarrow> sorted (ages (erase_class c es))"
    by (simp add: eq sorted_filter)
qed

text \<open>
  Adding the entry of a class that has just lost it (or never had one) restores the
  invariant, whatever the class's queue now holds.
\<close>

lemma addToOrderList_ok:
  assumes "addToOrderList False h c q = Some q'"
    and "sorted (ages (listOrder q))" and "distinct (map queueType (listOrder q))"
    and "c \<notin> queueType ` set (listOrder q)"
    and "\<And>d. d \<noteq> c \<Longrightarrow> queueOnList q d = (d \<in> queueType ` set (listOrder q))"
    and "\<And>d. d \<noteq> c \<Longrightarrow> queueOnList q d = (readyInsts q d \<noteq> [])"
    and "\<And>e. e \<in> set (listOrder q) \<Longrightarrow> entry_ok h (readyInsts q) e"
  shows "rq_ok h q'"
proof -
  from assms(1) obtain t where t: "pq_top (pqCompare False h) (readyInsts q c) = Some t"
    and q': "q' = q\<lparr>listOrder := order_insert \<lparr>queueType = c, oldestInst = seqNum (h t)\<rparr> (listOrder q),
                     queueOnList := (queueOnList q)(c := True)\<rparr>"
    by (auto simp: addToOrderList_def bind_eq_Some_conv)
  from t have "readyInsts q c \<noteq> []" by auto
  with t assms show ?thesis
    by (auto simp: rq_ok_def q' sorted_order_insert distinct_order_insert entry_ok_def)
qed

lemma entry_ok_other_class:
  "queueType e \<noteq> c \<Longrightarrow> entry_ok h (ready(c := xs)) e = entry_ok h ready e"
  by (simp add: entry_ok_def)

text \<open>The age of the oldest element of a queue after a push.\<close>

lemma pq_top_push:
  assumes "pq_top (pqCompare False h) xs = Some t"
    and "pq_top (pqCompare False h) (p # xs) = Some u"
  shows "seqNum (h u) = min (seqNum (h p)) (seqNum (h t))"
proof -
  have "u = (if pqCompare False h p t then t else p)" using assms by simp
  then show ?thesis by (auto simp: pqCompare_def)
qed

lemma find_class:
  assumes "distinct (map queueType es)" and "e \<in> set es"
  shows "find (\<lambda>x. queueType x = queueType e) es = Some e"
  using assms by (induction es) force+

text \<open>Pushing a ready instruction keeps the invariant, on every branch.\<close>

lemma addReadyMemInst_ok:
  assumes ok: "rq_ok h q" and run: "addReadyMemInst False h p q = Some q'"
  shows "rq_ok h q'"
proof -
  define c where "c = sopClass (staticInst (h p))"
  define q1 where "q1 = q\<lparr>readyInsts := (readyInsts q)(c := p # readyInsts q c)\<rparr>"
  note inv = rq_okD [OF ok]
  have other: "entry_ok h (readyInsts q1) e" if "e \<in> set (listOrder q)" "queueType e \<noteq> c" for e
    using inv(5) [OF that(1)] that(2) by (simp add: q1_def entry_ok_other_class)
  show ?thesis
  proof (cases "queueOnList q c")
    case False
    with run have run': "addToOrderList False h c q1 = Some q'"
      by (simp add: addReadyMemInst_def c_def q1_def Let_def)
    show ?thesis
    proof (rule addToOrderList_ok [OF run'])
      fix e assume "e \<in> set (listOrder q1)"
      then have e: "e \<in> set (listOrder q)" by (simp add: q1_def)
      with inv(3) [of c] False have "queueType e \<noteq> c" by auto
      with e show "entry_ok h (readyInsts q1) e" by (rule other)
    next
      show "\<And>d. d \<noteq> c \<Longrightarrow> queueOnList q1 d = (d \<in> queueType ` set (listOrder q1))"
        using inv(3) by (simp add: q1_def)
    next
      show "\<And>d. d \<noteq> c \<Longrightarrow> queueOnList q1 d = (readyInsts q1 d \<noteq> [])"
        using inv(4) by (simp add: q1_def)
    qed (use inv(1,2) inv(3) [of c] False in \<open>auto simp: q1_def\<close>)
  next
    case True
    with inv(3) [of c] obtain e where e: "e \<in> set (listOrder q)" "queueType e = c" by auto
    then have fe: "find (\<lambda>x. queueType x = c) (listOrder q) = Some e"
      using find_class [OF inv(2) e(1)] by simp
    from inv(5) [OF e(1)] e(2) obtain t where
      t: "pq_top (pqCompare False h) (readyInsts q c) = Some t" and et: "oldestInst e = seqNum (h t)"
      by (auto simp: entry_ok_def)
    obtain u where u: "pq_top (pqCompare False h) (p # readyInsts q c) = Some u"
      using pq_top_Some [of "p # readyInsts q c" "pqCompare False h"] by blast
    have su: "seqNum (h u) = min (seqNum (h p)) (seqNum (h t))"
      by (rule pq_top_push [OF t u])
    show ?thesis
    proof (cases "seqNum (h u) < oldestInst e")
      case True
      let ?q2 = "q1\<lparr>listOrder := erase_class c (listOrder q)\<rparr>"
      note er = erase_class_props [OF inv(2), of c]
      have run': "addToOrderList False h c ?q2 = Some q'"
        using run True \<open>queueOnList q c\<close> fe u
        by (simp add: addReadyMemInst_def c_def q1_def Let_def del: pq_top.simps)
      show ?thesis
      proof (rule addToOrderList_ok [OF run'])
        fix e assume "e \<in> set (listOrder ?q2)"
        then have "e \<in> set (listOrder q)" "queueType e \<noteq> c" by (auto simp: er(1))
        then show "entry_ok h (readyInsts ?q2) e" using other by simp
      next
        fix d assume "d \<noteq> c"
        then show "queueOnList ?q2 d = (d \<in> queueType ` set (listOrder ?q2))"
          using inv(3) [of d] by (auto simp: q1_def er(1))
      next
        fix d assume "d \<noteq> c"
        then show "queueOnList ?q2 d = (readyInsts ?q2 d \<noteq> [])"
          using inv(4) [of d] by (simp add: q1_def)
      qed (use er(2,3) inv(1) in \<open>auto simp: er(1)\<close>)
    next
      case False
      have q': "q' = q1"
        using run False \<open>queueOnList q c\<close> fe u
        by (simp add: addReadyMemInst_def c_def q1_def Let_def del: pq_top.simps)
      have "entry_ok h (readyInsts q1) x" if x: "x \<in> set (listOrder q)" for x
      proof (cases "queueType x = c")
        case True
        with x e inv(2) have "x = e" by (metis fe find_class option.inject)
        with u su et False e(2) show ?thesis
          by (auto simp: entry_ok_def q1_def simp del: pq_top.simps)
      next
        case False
        with x show ?thesis by (rule other)
      qed
      with inv \<open>queueOnList q c\<close> show ?thesis by (auto simp: rq_ok_def q' q1_def)
    qed
  qed
qed

text \<open>Under the invariant a push never fails, and adds exactly the pushed instruction.\<close>

lemma addToOrderList_Some:
  "readyInsts q c \<noteq> [] \<Longrightarrow> \<exists>q'. addToOrderList prio h c q = Some q'"
  by (cases "pq_top (pqCompare prio h) (readyInsts q c)") (auto simp: addToOrderList_def)

lemma addToOrderList_readyInsts:
  "addToOrderList prio h c q = Some q' \<Longrightarrow> readyInsts q' = readyInsts q"
  by (auto simp: addToOrderList_def bind_eq_Some_conv)

lemma addReadyMemInst_total:
  assumes "\<And>c. queueOnList q c \<Longrightarrow> c \<in> queueType ` set (listOrder q)"
  shows "\<exists>q'. addReadyMemInst prio h p q = Some q'"
proof -
  define c where "c = sopClass (staticInst (h p))"
  define q1 where "q1 = q\<lparr>readyInsts := (readyInsts q)(c := p # readyInsts q c)\<rparr>"
  obtain u where u: "pq_top (pqCompare prio h) (p # readyInsts q c) = Some u"
    using pq_top_Some [of "p # readyInsts q c" "pqCompare prio h"] by blast
  show ?thesis
  proof (cases "queueOnList q c")
    case False
    then show ?thesis
      using addToOrderList_Some [of q1 c prio h]
      by (auto simp: addReadyMemInst_def c_def q1_def Let_def)
  next
    case True
    with assms obtain e where "find (\<lambda>x. queueType x = c) (listOrder q) = Some e"
      by (cases "find (\<lambda>x. queueType x = c) (listOrder q)") (fastforce simp: find_None_iff)+
    then show ?thesis
      using True u addToOrderList_Some [of "q1\<lparr>listOrder := erase_class c (listOrder q)\<rparr>" c prio h]
      by (auto simp: addReadyMemInst_def c_def q1_def Let_def simp del: pq_top.simps)
  qed
qed

lemma addReadyMemInst_readyInsts:
  assumes "addReadyMemInst prio h p q = Some q'"
  shows "readyInsts q' = (readyInsts q)(sopClass (staticInst (h p)) :=
           p # readyInsts q (sopClass (staticInst (h p))))"
  using assms
  by (auto simp: addReadyMemInst_def Let_def bind_eq_Some_conv simp del: pq_top.simps
      dest!: addToOrderList_readyInsts split: if_splits)

text \<open>
  With or without branch priority, a class flagged as listed has an entry; this alone makes
  \<^const>\<open>addReadyMemInst\<close> succeed.
\<close>

definition rq_listed :: "ReadyQueues \<Rightarrow> bool" where
  "rq_listed q \<longleftrightarrow> (\<forall>c. queueOnList q c \<longrightarrow> c \<in> queueType ` set (listOrder q))"

lemma rq_listed_addToOrderList:
  assumes "addToOrderList prio h c q = Some q'"
    and "\<And>d. d \<noteq> c \<Longrightarrow> queueOnList q d \<Longrightarrow> d \<in> queueType ` set (listOrder q)"
  shows "rq_listed q'"
  using assms by (auto simp: addToOrderList_def rq_listed_def bind_eq_Some_conv split: if_splits)

lemma erase_class_other:
  "d \<noteq> c \<Longrightarrow> d \<in> queueType ` set es \<Longrightarrow> d \<in> queueType ` set (erase_class c es)"
proof -
  assume d: "d \<noteq> c" "d \<in> queueType ` set es"
  then obtain x where x: "x \<in> set es" "queueType x = d" by auto
  let ?P = "\<lambda>x. queueType x \<noteq> c"
  have "set es = set (takeWhile ?P es) \<union> set (dropWhile ?P es)"
    by (metis set_append takeWhile_dropWhile_id)
  with x consider "x \<in> set (takeWhile ?P es)" | "x \<in> set (dropWhile ?P es)" by auto
  then show ?thesis
  proof cases
    case 2
    then obtain y ys where y: "dropWhile ?P es = y # ys" by (cases "dropWhile ?P es") auto
    then have "queueType y = c" using hd_dropWhile [of ?P es] by auto
    with 2 y d x show ?thesis by (auto simp: erase_class_def)
  qed (use x in \<open>auto simp: erase_class_def\<close>)
qed

lemma rq_listed_addReadyMemInst:
  assumes "rq_listed q" and "addReadyMemInst prio h p q = Some q'"
  shows "rq_listed q'"
proof -
  define c where "c = sopClass (staticInst (h p))"
  define q1 where "q1 = q\<lparr>readyInsts := (readyInsts q)(c := p # readyInsts q c)\<rparr>"
  have q1: "rq_listed q1" "queueOnList q1 = queueOnList q" "listOrder q1 = listOrder q"
    using assms(1) by (auto simp: rq_listed_def q1_def)
  from assms(2) consider "q' = q1" | "addToOrderList prio h c q1 = Some q'"
    | "addToOrderList prio h c (q1\<lparr>listOrder := erase_class c (listOrder q1)\<rparr>) = Some q'"
    by (auto simp: addReadyMemInst_def Let_def c_def q1_def bind_eq_Some_conv
        simp del: pq_top.simps split: if_splits)
  then show ?thesis
    using q1(1) by cases (auto simp: rq_listed_def erase_class_other dest!: rq_listed_addToOrderList)
qed

lemma addReadyMemInst_listed:
  "rq_listed q \<Longrightarrow> \<exists>q'. addReadyMemInst prio h p q = Some q' \<and> rq_listed q'"
  by (metis addReadyMemInst_total rq_listed_addReadyMemInst rq_listed_def)

definition rq_init :: ReadyQueues where
  "rq_init = \<lparr>readyInsts = (\<lambda>_. []), listOrder = [], queueOnList = (\<lambda>_. False)\<rparr>"

lemma rq_init_listed [simp]: "rq_listed rq_init"
  by (simp add: rq_listed_def rq_init_def)

end
