(* ===== verification/StoreSet.thy ===== *)
theory StoreSet
  imports Prelude
begin

text \<open>
  The store-set memory dependence predictor (\<open>cpu/o3/store_set.hh\<close>, \<open>cpu/o3/store_set.cc\<close>).
  A table indexed by instruction address gives the store set of an instruction, a second
  table the last fetched store of each set; \<open>storeList\<close> is the ordered map of the stores in
  flight, youngest first.
\<close>

unbundle bit_operations_syntax

section \<open>State\<close>

text \<open>
  The vectors are functions of their index, with their sizes beside them; \<open>storeList\<close> is the
  list of the map's bindings in the order of its comparison \<open>ltseqnum\<close>.
\<close>

record StoreSet =
  SSIT :: "nat \<Rightarrow> nat"
  validSSIT :: "nat \<Rightarrow> bool"
  LFST :: "nat \<Rightarrow> InstSeqNum"
  validLFST :: "nat \<Rightarrow> bool"
  storeList :: "(InstSeqNum \<times> nat) list"
  clearPeriod :: nat
  SSITSize :: nat
  LFSTSize :: nat
  memOpsPred :: nat

definition offsetBits :: nat where
  "offsetBits = 2"

definition calcIndex :: "StoreSet \<Rightarrow> Addr \<Rightarrow> nat" where
  "calcIndex S PC = unat (drop_bit offsetBits PC AND word_of_nat (SSITSize S - 1))"

definition calcSSID :: "StoreSet \<Rightarrow> Addr \<Rightarrow> nat" where
  "calcSSID S PC = unat ((PC XOR drop_bit 10 PC) mod word_of_nat (LFSTSize S))"

section \<open>Operations\<close>

definition leastSigBit :: "32 word \<Rightarrow> 32 word" where
  "leastSigBit n = n AND NOT (n - 1)"

definition isPowerOf2 :: "32 word \<Rightarrow> bool" where
  "isPowerOf2 n \<longleftrightarrow> n \<noteq> 0 \<and> leastSigBit n = n"

definition ss_init :: "nat \<Rightarrow> nat \<Rightarrow> nat \<Rightarrow> StoreSet" where
  "ss_init clear_period SSIT_size LFST_size =
     \<lparr>SSIT = (\<lambda>_. 0), validSSIT = (\<lambda>_. False), LFST = (\<lambda>_. 0), validLFST = (\<lambda>_. False),
      storeList = [], clearPeriod = clear_period, SSITSize = SSIT_size, LFSTSize = LFST_size,
      memOpsPred = 0\<rparr>"

text \<open>The constructor checks the sizes; \<open>init\<close> does the same work without the checks.\<close>

definition StoreSet_new :: "nat \<Rightarrow> nat \<Rightarrow> nat \<Rightarrow> StoreSet option" where
  "StoreSet_new clear_period SSIT_size LFST_size =
     do {
       assert_that (isPowerOf2 (word_of_nat SSIT_size));
       assert_that (isPowerOf2 (word_of_nat LFST_size));
       Some (ss_init clear_period SSIT_size LFST_size)
     }"

definition ss_violation :: "Addr \<Rightarrow> Addr \<Rightarrow> StoreSet \<Rightarrow> StoreSet option" where
  "ss_violation store_PC load_PC S =
     (let l = calcIndex S load_PC; s = calcIndex S store_PC in
      do {
        assert_that (l < SSITSize S \<and> s < SSITSize S);
        if \<not> validSSIT S l \<and> \<not> validSSIT S s then
          let new_set = calcSSID S load_PC in do {
            assert_that (new_set < LFSTSize S);
            Some (S\<lparr>validSSIT := (validSSIT S)(l := True, s := True),
                    SSIT := (SSIT S)(l := new_set, s := new_set)\<rparr>)
          }
        else if validSSIT S l \<and> \<not> validSSIT S s then do {
          assert_that (SSIT S l < LFSTSize S);
          Some (S\<lparr>validSSIT := (validSSIT S)(s := True), SSIT := (SSIT S)(s := SSIT S l)\<rparr>)
        }
        else if \<not> validSSIT S l \<and> validSSIT S s then
          Some (S\<lparr>validSSIT := (validSSIT S)(l := True), SSIT := (SSIT S)(l := SSIT S s)\<rparr>)
        else do {
          assert_that (SSIT S l < LFSTSize S \<and> SSIT S s < LFSTSize S);
          if SSIT S s > SSIT S l then Some (S\<lparr>SSIT := (SSIT S)(s := SSIT S l)\<rparr>)
          else Some (S\<lparr>SSIT := (SSIT S)(l := SSIT S s)\<rparr>)
        }
      })"

definition ss_clear :: "StoreSet \<Rightarrow> StoreSet" where
  "ss_clear S = S\<lparr>validSSIT := (\<lambda>i. validSSIT S i \<and> \<not> i < SSITSize S),
                  validLFST := (\<lambda>i. validLFST S i \<and> \<not> i < LFSTSize S), storeList := []\<rparr>"

definition checkClear :: "StoreSet \<Rightarrow> StoreSet" where
  "checkClear S =
     (let S = S\<lparr>memOpsPred := memOpsPred S + 1\<rparr>
      in if memOpsPred S > clearPeriod S then ss_clear (S\<lparr>memOpsPred := 0\<rparr>) else S)"

definition ss_insertLoad :: "Addr \<Rightarrow> InstSeqNum \<Rightarrow> StoreSet \<Rightarrow> StoreSet" where
  "ss_insertLoad load_PC load_seq_num S = checkClear S"

text \<open>Writing a binding of the ordered map.\<close>

fun map_put :: "InstSeqNum \<Rightarrow> nat \<Rightarrow> (InstSeqNum \<times> nat) list \<Rightarrow> (InstSeqNum \<times> nat) list" where
  "map_put k v [] = [(k, v)]"
| "map_put k v ((k', v') # r) =
     (if k > k' then (k, v) # (k', v') # r
      else if k = k' then (k, v) # r
      else (k', v') # map_put k v r)"

definition map_erase :: "InstSeqNum \<Rightarrow> (InstSeqNum \<times> nat) list \<Rightarrow> (InstSeqNum \<times> nat) list" where
  "map_erase k l = filter (\<lambda>(k', _). k' \<noteq> k) l"

definition ss_insertStore :: "Addr \<Rightarrow> InstSeqNum \<Rightarrow> StoreSet \<Rightarrow> StoreSet option" where
  "ss_insertStore store_PC store_seq_num S =
     (let index = calcIndex S store_PC; S = checkClear S in
      do {
        assert_that (index < SSITSize S);
        if \<not> validSSIT S index then Some S
        else let store_SSID = SSIT S index in do {
          assert_that (store_SSID < LFSTSize S);
          Some (S\<lparr>LFST := (LFST S)(store_SSID := store_seq_num),
                  validLFST := (validLFST S)(store_SSID := True),
                  storeList := map_put store_seq_num store_SSID (storeList S)\<rparr>)
        }
      })"

definition checkInst :: "Addr \<Rightarrow> StoreSet \<Rightarrow> InstSeqNum option" where
  "checkInst PC S =
     (let index = calcIndex S PC in
      do {
        assert_that (index < SSITSize S);
        if \<not> validSSIT S index then Some 0
        else let inst_SSID = SSIT S index in do {
          assert_that (inst_SSID < LFSTSize S);
          if \<not> validLFST S inst_SSID then Some 0 else Some (LFST S inst_SSID)
        }
      })"

definition ss_issued :: "Addr \<Rightarrow> InstSeqNum \<Rightarrow> bool \<Rightarrow> StoreSet \<Rightarrow> StoreSet option" where
  "ss_issued issued_PC issued_seq_num is_store S =
     (if \<not> is_store then Some S
      else let index = calcIndex S issued_PC in
      do {
        assert_that (index < SSITSize S);
        let S = S\<lparr>storeList := map_erase issued_seq_num (storeList S)\<rparr>;
        if \<not> validSSIT S index then Some S
        else let store_SSID = SSIT S index in do {
          assert_that (store_SSID < LFSTSize S);
          if validLFST S store_SSID \<and> LFST S store_SSID = issued_seq_num
          then Some (S\<lparr>validLFST := (validLFST S)(store_SSID := False)\<rparr>)
          else Some S
        }
      })"

text \<open>
  The loop of \<open>squash\<close>. Both branches of the body erase the youngest entry; when neither is
  taken the state does not change and the loop goes round again.
\<close>

partial_function (option) ss_squash_loop ::
  "InstSeqNum \<Rightarrow> (nat \<Rightarrow> InstSeqNum) \<Rightarrow> (nat \<Rightarrow> bool) \<Rightarrow> (InstSeqNum \<times> nat) list \<Rightarrow>
     ((nat \<Rightarrow> bool) \<times> (InstSeqNum \<times> nat) list) option" where
  "ss_squash_loop squashed_num lfst valid l =
     (case l of
        [] \<Rightarrow> Some (valid, l)
      | (sn, idx) # r \<Rightarrow>
          if sn \<le> squashed_num then Some (valid, l)
          else if valid idx \<and> lfst idx > squashed_num
          then ss_squash_loop squashed_num lfst (valid(idx := False)) r
          else if \<not> valid idx \<and> lfst idx > squashed_num
          then ss_squash_loop squashed_num lfst valid r
          else ss_squash_loop squashed_num lfst valid l)"

definition ss_squash :: "InstSeqNum \<Rightarrow> StoreSet \<Rightarrow> StoreSet option" where
  "ss_squash squashed_num S =
     do {
       (valid, l) \<leftarrow> ss_squash_loop squashed_num (LFST S) (validLFST S) (storeList S);
       Some (S\<lparr>validLFST := valid, storeList := l\<rparr>)
     }"

section \<open>Invariant\<close>

text \<open>
  The stores in flight are listed strictly youngest first, each belongs to a set of the table
  whose last fetched store is not older, and every valid table entry names a set.
\<close>

definition ss_ok :: "StoreSet \<Rightarrow> bool" where
  "ss_ok S \<longleftrightarrow>
     0 < SSITSize S \<and> SSITSize S < 2 ^ 31 \<and> 0 < LFSTSize S \<and> LFSTSize S < 2 ^ 31 \<and>
     memOpsPred S \<le> clearPeriod S \<and>
     (\<forall>i. validSSIT S i \<longrightarrow> SSIT S i < LFSTSize S) \<and>
     sorted_wrt (\<lambda>x y. fst x > fst y) (storeList S) \<and>
     (\<forall>(sn, idx) \<in> set (storeList S). idx < LFSTSize S \<and> sn \<le> LFST S idx)"

lemma ss_ok_sizes: "ss_ok S \<Longrightarrow> 0 < SSITSize S \<and> SSITSize S < 2 ^ 31 \<and> 0 < LFSTSize S \<and> LFSTSize S < 2 ^ 31"
  by (simp add: ss_ok_def)

lemma ss_ok_SSIT: "ss_ok S \<Longrightarrow> validSSIT S i \<Longrightarrow> SSIT S i < LFSTSize S"
  by (simp add: ss_ok_def)

text \<open>Both index computations stay inside their tables.\<close>

lemma calcIndex_bound:
  assumes "ss_ok S"
  shows "calcIndex S PC < SSITSize S"
proof -
  have "(drop_bit offsetBits PC AND word_of_nat (SSITSize S - 1)) \<le> (word_of_nat (SSITSize S - 1) :: Addr)"
    by (simp add: word_and_le1)
  moreover have "unat (word_of_nat (SSITSize S - 1) :: Addr) = SSITSize S - 1"
    using ss_ok_sizes [OF assms] by (intro unat_Addr_of_nat) linarith
  ultimately show ?thesis
    using ss_ok_sizes [OF assms] unfolding calcIndex_def word_le_nat_alt by linarith
qed

lemma calcSSID_bound:
  assumes "ss_ok S"
  shows "calcSSID S PC < LFSTSize S"
proof -
  have "unat (word_of_nat (LFSTSize S) :: Addr) = LFSTSize S"
    using ss_ok_sizes [OF assms] by (simp add: unat_Addr_of_nat)
  then show ?thesis
    using ss_ok_sizes [OF assms] by (simp add: calcSSID_def unat_mod)
qed

lemma calcIndex_checkClear [simp]: "calcIndex (checkClear S) PC = calcIndex S PC"
  by (simp add: calcIndex_def checkClear_def ss_clear_def Let_def)

lemma checkClear_ok: "ss_ok S \<Longrightarrow> ss_ok (checkClear S)"
  by (auto simp: ss_ok_def checkClear_def ss_clear_def Let_def)

lemma checkClear_sizes [simp]:
  "SSITSize (checkClear S) = SSITSize S" "LFSTSize (checkClear S) = LFSTSize S"
  by (simp_all add: checkClear_def ss_clear_def Let_def)

lemma checkClear_storeList: "set (storeList (checkClear S)) \<subseteq> set (storeList S)"
  by (auto simp: checkClear_def ss_clear_def Let_def split: if_splits)

lemma ss_init_ok:
  "0 < m \<Longrightarrow> m < 2 ^ 31 \<Longrightarrow> 0 < n \<Longrightarrow> n < 2 ^ 31 \<Longrightarrow> ss_ok (ss_init cp m n)"
  by (simp add: ss_ok_def ss_init_def)

subsection \<open>Training\<close>

text \<open>
  A violation never fails and leaves the load and the store in the same set.
\<close>

lemma ss_violation_shares:
  assumes "ss_ok S"
  shows "\<exists>S'. ss_violation store_PC load_PC S = Some S' \<and> ss_ok S' \<and>
    validSSIT S' (calcIndex S load_PC) \<and> validSSIT S' (calcIndex S store_PC) \<and>
    SSIT S' (calcIndex S store_PC) = SSIT S' (calcIndex S load_PC) \<and>
    calcIndex S' = calcIndex S \<and> memOpsPred S' = memOpsPred S \<and> clearPeriod S' = clearPeriod S \<and>
    storeList S' = storeList S"
proof -
  have "calcIndex S load_PC < SSITSize S" "calcIndex S store_PC < SSITSize S"
    "calcSSID S load_PC < LFSTSize S"
    using assms by (simp_all add: calcIndex_bound calcSSID_bound)
  moreover have "calcIndex (S\<lparr>SSIT := a\<rparr>) = calcIndex S"
    "calcIndex (S\<lparr>validSSIT := b, SSIT := a\<rparr>) = calcIndex S" for a b
    by (auto simp: calcIndex_def fun_eq_iff)
  ultimately show ?thesis
    using assms unfolding ss_violation_def Let_def ss_ok_def by auto
qed

subsection \<open>Inserting and issuing stores\<close>

lemma set_map_put: "set (map_put k v l) \<subseteq> insert (k, v) (set l)"
  by (induction k v l rule: map_put.induct) auto

lemma map_put_mem: "(k, v) \<in> set (map_put k v l)"
  by (induction k v l rule: map_put.induct) auto

lemma sorted_map_put:
  "sorted_wrt (\<lambda>x y. fst x > fst y) l \<Longrightarrow> sorted_wrt (\<lambda>x y. fst x > fst y) (map_put k v l)"
proof (induction k v l rule: map_put.induct)
  case (2 k v k' v' r)
  then show ?case using set_map_put [of k v r] by (fastforce split: if_splits)
qed simp

lemma map_put_youngest:
  assumes "\<forall>(s, i)\<in>set l. s < k"
  shows "map_put k v l = (k, v) # l"
  using assms by (cases l) auto

lemma ss_insertStore_effect:
  assumes "ss_ok S" and young: "\<forall>(s, i)\<in>set (storeList S). s < sn"
  shows "\<exists>S'. ss_insertStore PC sn S = Some S' \<and> ss_ok S' \<and>
    (let C = checkClear S; i = calcIndex S PC in
     if validSSIT C i
     then S' = C\<lparr>LFST := (LFST C)(SSIT C i := sn), validLFST := (validLFST C)(SSIT C i := True),
                 storeList := (sn, SSIT C i) # storeList C\<rparr>
     else S' = C)"
proof -
  let ?C = "checkClear S" and ?i = "calcIndex S PC"
  note ok = checkClear_ok [OF assms(1)]
  have i: "?i < SSITSize S" using assms(1) by (rule calcIndex_bound)
  have young': "\<forall>(s, i)\<in>set (storeList ?C). s < sn" using young checkClear_storeList by blast
  show ?thesis
  proof (cases "validSSIT ?C ?i")
    case False
    with i ok show ?thesis by (simp add: ss_insertStore_def Let_def)
  next
    case True
    with ss_ok_SSIT [OF ok True] i young' have
      "ss_insertStore PC sn S = Some (?C\<lparr>LFST := (LFST ?C)(SSIT ?C ?i := sn),
         validLFST := (validLFST ?C)(SSIT ?C ?i := True), storeList := (sn, SSIT ?C ?i) # storeList ?C\<rparr>)"
      by (simp add: ss_insertStore_def Let_def map_put_youngest)
    moreover have "ss_ok (?C\<lparr>LFST := (LFST ?C)(SSIT ?C ?i := sn),
         validLFST := (validLFST ?C)(SSIT ?C ?i := True), storeList := (sn, SSIT ?C ?i) # storeList ?C\<rparr>)"
      using ok young' True by (auto simp: ss_ok_def less_imp_le)
    ultimately show ?thesis using True by (simp add: Let_def)
  qed
qed

lemma sorted_map_erase:
  "sorted_wrt (\<lambda>x y. fst x > fst y) l \<Longrightarrow> sorted_wrt (\<lambda>x y. fst x > fst y) (map_erase k l)"
  unfolding map_erase_def by (rule sorted_wrt_filter)

lemma ss_issued_effect:
  assumes "ss_ok S"
  shows "\<exists>S'. ss_issued PC sn st S = Some S' \<and> ss_ok S' \<and>
    SSIT S' = SSIT S \<and> validSSIT S' = validSSIT S \<and> calcIndex S' = calcIndex S \<and>
    (st \<longrightarrow> storeList S' = map_erase sn (storeList S)) \<and>
    (\<forall>i. validLFST S' i = (validLFST S i \<and>
       \<not> (st \<and> validSSIT S (calcIndex S PC) \<and> i = SSIT S (calcIndex S PC) \<and> LFST S i = sn)))"
proof -
  have 1: "calcIndex S PC < SSITSize S" using assms by (rule calcIndex_bound)
  have 2: "ss_ok (S\<lparr>storeList := map_erase sn (storeList S)\<rparr>)"
    using assms sorted_map_erase by (auto simp: ss_ok_def) (auto simp: map_erase_def)
  then have 3: "ss_ok (S\<lparr>storeList := map_erase sn (storeList S), validLFST := v\<rparr>)" for v
    by (simp add: ss_ok_def)
  have 4: "calcIndex (S\<lparr>storeList := l, validLFST := v\<rparr>) = calcIndex S"
    "calcIndex (S\<lparr>storeList := l\<rparr>) = calcIndex S" for l v
    by (auto simp: calcIndex_def fun_eq_iff)
  show ?thesis
    using assms 1 2 3 4 ss_ok_SSIT [OF assms]
    by (auto simp: ss_issued_def Let_def)
qed

subsection \<open>Squashing\<close>

text \<open>
  With the last fetched store of each set at least as young as every store in flight of the
  set, each iteration erases the youngest entry; without it the loop does not return.
\<close>

lemma ss_squash_loop_returns:
  assumes "sorted_wrt (\<lambda>x y. fst x > fst y) l" and "\<forall>(sn, idx)\<in>set l. sn \<le> lfst idx"
  shows "ss_squash_loop k lfst v l =
     Some (\<lambda>i. v i \<and> \<not> (\<exists>sn>k. (sn, i) \<in> set l), filter (\<lambda>(sn, _). sn \<le> k) l)"
  using assms
proof (induction l arbitrary: v)
  case Nil
  then show ?case by (simp add: ss_squash_loop.simps)
next
  case (Cons x l)
  obtain sn idx where x: "x = (sn, idx)" by (cases x)
  show ?case
  proof (cases "sn \<le> k")
    case True
    with Cons.prems x have "\<forall>(s, i)\<in>set l. s \<le> k" by fastforce
    with True x have "filter (\<lambda>(s, _). s \<le> k) (x # l) = x # l" "\<not> (\<exists>s>k. (s, i) \<in> set (x # l))" for i
      by (auto simp: filter_id_conv)
    with True x show ?thesis by (simp add: ss_squash_loop.simps)
  next
    case False
    with Cons.prems x have "lfst idx > k" by simp
    with False x have "ss_squash_loop k lfst v (x # l) = ss_squash_loop k lfst (v(idx := False)) l"
      by (cases "v idx") (auto simp: ss_squash_loop.simps [of _ _ _ "(sn, idx) # l"] fun_upd_idem)
    also have "\<dots> = Some (\<lambda>i. (v(idx := False)) i \<and> \<not> (\<exists>s>k. (s, i) \<in> set l), filter (\<lambda>(s, _). s \<le> k) l)"
      using Cons by simp
    finally show ?thesis using False x by (auto simp: fun_eq_iff not_le)
  qed
qed

lemma ss_squash_loop_stuck:
  assumes "ss_squash_loop k lfst v l = Some r" and "l = (sn, idx) # l'" and "sn > k"
  shows "lfst idx > k"
proof -
  have "\<forall>sn idx l'. l = (sn, idx) # l' \<longrightarrow> sn > k \<longrightarrow> lfst idx > k"
    by (rule ss_squash_loop.raw_induct [OF _ assms(1),
          where P = "\<lambda>k lfst v l r. \<forall>sn idx l'. l = (sn, idx) # l' \<longrightarrow> sn > k \<longrightarrow> lfst idx > k"])
      (auto split: list.splits if_splits)
  with assms(2,3) show ?thesis by blast
qed

lemma ss_squash_effect:
  assumes "ss_ok S"
  shows "ss_squash k S = Some (S\<lparr>validLFST := \<lambda>i. validLFST S i \<and> \<not> (\<exists>sn>k. (sn, i) \<in> set (storeList S)),
      storeList := filter (\<lambda>(sn, _). sn \<le> k) (storeList S)\<rparr>)"
proof -
  have "sorted_wrt (\<lambda>x y. fst x > fst y) (storeList S)"
    and "\<forall>(sn, idx)\<in>set (storeList S). sn \<le> LFST S idx"
    using assms by (auto simp: ss_ok_def)
  from ss_squash_loop_returns [OF this] show ?thesis by (simp add: ss_squash_def)
qed

lemma ss_squash_ok: "ss_ok S \<Longrightarrow> ss_squash k S = Some S' \<Longrightarrow> ss_ok S'"
  by (auto simp: ss_squash_effect ss_ok_def intro: sorted_wrt_filter)

section \<open>Properties\<close>

text \<open>
  C15. A memory-order violation trains the predictor: from a well-formed state, after the
  violation and the fetch of the store with the youngest sequence number (with no periodic
  clear due) the predictor makes the load wait for exactly that store; once the store has
  issued, or has been squashed, the load waits for nothing. No assertion fails on the way.
\<close>

theorem violation_trains:
  assumes "ss_ok S" and "memOpsPred S < clearPeriod S"
    and "\<forall>(s, i)\<in>set (storeList S). s < sn" and "k < sn"
  shows "\<exists>S1 S2 S3 S4.
     ss_violation store_PC load_PC S = Some S1 \<and> ss_insertStore store_PC sn S1 = Some S2 \<and>
     checkInst load_PC S2 = Some sn \<and>
     ss_issued store_PC sn True S2 = Some S3 \<and> checkInst load_PC S3 = Some 0 \<and>
     ss_squash k S2 = Some S4 \<and> checkInst load_PC S4 = Some 0 \<and>
     ss_ok S2 \<and> ss_ok S3 \<and> ss_ok S4"
proof -
  obtain S1 where S1: "ss_violation store_PC load_PC S = Some S1" "ss_ok S1"
    "validSSIT S1 (calcIndex S load_PC)" "validSSIT S1 (calcIndex S store_PC)"
    "SSIT S1 (calcIndex S store_PC) = SSIT S1 (calcIndex S load_PC)"
    "calcIndex S1 = calcIndex S" "memOpsPred S1 < clearPeriod S1" "storeList S1 = storeList S"
    using ss_violation_shares [OF assms(1)] assms(2) by metis
  have noclear: "checkClear S1 = S1\<lparr>memOpsPred := memOpsPred S1 + 1\<rparr>"
    using S1(7) by (simp add: checkClear_def Let_def)
  obtain S2 where S2: "ss_insertStore store_PC sn S1 = Some S2" "ss_ok S2"
    "SSIT S2 = SSIT S1" "validSSIT S2 = validSSIT S1" "LFST S2 (SSIT S1 (calcIndex S load_PC)) = sn"
    "validLFST S2 (SSIT S1 (calcIndex S load_PC))"
    "(sn, SSIT S1 (calcIndex S load_PC)) \<in> set (storeList S2)"
    "SSITSize S2 = SSITSize S1" "calcIndex S2 = calcIndex S"
    using ss_insertStore_effect [OF S1(2), of sn store_PC] S1 assms(3)
    by (auto simp: noclear Let_def) (auto simp: calcIndex_def fun_eq_iff)
  obtain S3 where S3: "ss_issued store_PC sn True S2 = Some S3" "ss_ok S3" "SSIT S3 = SSIT S2"
    "validSSIT S3 = validSSIT S2" "\<not> validLFST S3 (SSIT S1 (calcIndex S load_PC))"
    "calcIndex S3 = calcIndex S"
    using ss_issued_effect [OF S2(2), of store_PC sn True] S2 S1 by auto
  obtain S4 where S4: "ss_squash k S2 = Some S4" "SSIT S4 = SSIT S2"
    "validSSIT S4 = validSSIT S2" "\<not> validLFST S4 (SSIT S1 (calcIndex S load_PC))"
    "calcIndex S4 = calcIndex S"
    using ss_squash_effect [OF S2(2), of k] S2(7,9) assms(4)
    by (auto simp: calcIndex_def fun_eq_iff)
  note ok4 = ss_squash_ok [OF S2(2) S4(1)]
  have "checkInst load_PC T = Some (if validLFST T (SSIT T (calcIndex T load_PC))
          then LFST T (SSIT T (calcIndex T load_PC)) else 0)"
    if "ss_ok T" "validSSIT T (calcIndex T load_PC)" for T
    using that calcIndex_bound [OF that(1)] ss_ok_SSIT [OF that]
    by (simp add: checkInst_def Let_def)
  with S1 S2 S3 S4 ok4 show ?thesis by auto
qed

theorem violation_trains_witness:
  "\<exists>S1 S2 S3 S4.
     ss_violation 64 32 (ss_init 250000 1024 1024) = Some S1 \<and> ss_insertStore 64 7 S1 = Some S2 \<and>
     checkInst 32 S2 = Some 7 \<and>
     ss_issued 64 7 True S2 = Some S3 \<and> checkInst 32 S3 = Some 0 \<and>
     ss_squash 5 S2 = Some S4 \<and> checkInst 32 S4 = Some 0 \<and>
     ss_ok S2 \<and> ss_ok S3 \<and> ss_ok S4"
  by (rule violation_trains) (simp_all add: ss_init_ok, simp_all add: ss_init_def)

text \<open>
  C16. The squash loop of the predictor returns exactly when it never meets a store younger
  than the squash point whose set has an older last fetched store: from a well-formed state
  it returns, erases exactly the squashed stores and invalidates exactly their sets, and the
  result is well formed; from a list whose youngest store violates the condition it runs
  forever.
\<close>

theorem squash_returns:
  assumes "ss_ok S"
  shows "(\<exists>S'. ss_squash k S = Some S' \<and> ss_ok S' \<and>
            storeList S' = filter (\<lambda>(sn, _). sn \<le> k) (storeList S) \<and>
            (\<forall>i. validLFST S' i = (validLFST S i \<and> \<not> (\<exists>sn>k. (sn, i) \<in> set (storeList S))))) \<and>
         (\<forall>sn idx l. sn > k \<and> LFST S idx \<le> k \<longrightarrow>
            ss_squash k (S\<lparr>storeList := (sn, idx) # l\<rparr>) = None)"
proof (intro conjI allI impI)
  show "\<exists>S'. ss_squash k S = Some S' \<and> ss_ok S' \<and>
            storeList S' = filter (\<lambda>(sn, _). sn \<le> k) (storeList S) \<and>
            (\<forall>i. validLFST S' i = (validLFST S i \<and> \<not> (\<exists>sn>k. (sn, i) \<in> set (storeList S))))"
    using ss_squash_effect [OF assms, of k] ss_squash_ok [OF assms] by auto
next
  fix sn idx l
  assume "sn > k \<and> LFST S idx \<le> k"
  then show "ss_squash k (S\<lparr>storeList := (sn, idx) # l\<rparr>) = None"
    using ss_squash_loop_stuck [of k "LFST S" "validLFST S" "(sn, idx) # l"]
    by (cases "ss_squash_loop k (LFST S) (validLFST S) ((sn, idx) # l)")
      (auto simp: ss_squash_def)
qed

definition demo_ss :: StoreSet where
  "demo_ss = (ss_init 250000 1024 1024)
     \<lparr>storeList := [(9, 3), (4, 3), (2, 1)], LFST := (\<lambda>_. 0)(3 := 9, 1 := 2),
      validLFST := (\<lambda>_. False)(3 := True, 1 := True)\<rparr>"

theorem squash_returns_witness:
  "(\<exists>S'. ss_squash 4 demo_ss = Some S' \<and> storeList S' = [(4, 3), (2, 1)] \<and>
      \<not> validLFST S' 3 \<and> validLFST S' 1) \<and>
   ss_squash 4 (demo_ss\<lparr>storeList := [(9, 1)]\<rparr>) = None"
proof -
  have "ss_ok demo_ss" by (simp add: demo_ss_def ss_init_def ss_ok_def)
  from squash_returns [OF this, of 4] show ?thesis by (fastforce simp: demo_ss_def)
qed

end
