(* ===== verification/MemDepUnit.thy ===== *)
theory MemDepUnit
  imports ReadyQueues StoreSet
begin

text \<open>
  The memory dependence unit (\<open>cpu/o3/mem_dep_unit.hh\<close>, \<open>cpu/o3/mem_dep_unit_impl.hh\<close>): it
  holds every memory instruction and barrier of the instruction queue until the store or
  barrier it depends on is done, and then hands it to the queue's ready lists
  (\<^const>\<open>addReadyMemInst\<close>).

  Entries are shared pointers: the hash table and the dependents vectors of other entries
  refer to the same entry, and an entry removed from the hash can still be on a dependents
  vector. An entry is therefore a number, and \<open>md_entry\<close> the store of the entries allocated
  so far.
\<close>

section \<open>State\<close>

record MemDepEntry =
  e_inst :: inst_ptr
  dependInsts :: "nat list"
  e_regsReady :: bool
  memDepReady :: bool
  e_squashed :: bool

record MemDepUnit =
  md_entry :: "nat \<Rightarrow> MemDepEntry"
  nextEntry :: nat
  memDepHash :: "InstSeqNum \<rightharpoonup> nat"
  md_instList :: "ThreadID \<Rightarrow> inst_ptr list"
  instsToReplay :: "inst_ptr list"
  depPred :: StoreSet
  loadBarrier :: bool
  loadBarrierSN :: InstSeqNum
  storeBarrier :: bool
  storeBarrierSN :: InstSeqNum

text \<open>A call sees the instructions, the ready queues of the instruction queue and the unit.\<close>

type_synonym md_state = "inst_store \<times> ReadyQueues \<times> MemDepUnit"

definition MemDepEntry_new :: "inst_ptr \<Rightarrow> MemDepEntry" where
  "MemDepEntry_new p = \<lparr>e_inst = p, dependInsts = [], e_regsReady = False, memDepReady = False,
                        e_squashed = False\<rparr>"

definition md_init :: "nat \<Rightarrow> nat \<Rightarrow> nat \<Rightarrow> MemDepUnit" where
  "md_init clear_period SSIT_size LFST_size =
     \<lparr>md_entry = (\<lambda>_. MemDepEntry_new 0), nextEntry = 0, memDepHash = Map.empty,
      md_instList = (\<lambda>_. []), instsToReplay = [],
      depPred = ss_init clear_period SSIT_size LFST_size,
      loadBarrier = False, loadBarrierSN = 0, storeBarrier = False, storeBarrierSN = 0\<rparr>"

definition md_isDrained :: "nat \<Rightarrow> MemDepUnit \<Rightarrow> bool" where
  "md_isDrained MaxThreads m \<longleftrightarrow> instsToReplay m = [] \<and> memDepHash m = Map.empty \<and>
     list_all (\<lambda>tid. md_instList m tid = []) [0..<MaxThreads]"

definition md_takeOverFrom :: "MemDepUnit \<Rightarrow> MemDepUnit" where
  "md_takeOverFrom m = m\<lparr>loadBarrier := False, storeBarrier := False, loadBarrierSN := 0,
                         storeBarrierSN := 0, depPred := ss_clear (depPred m)\<rparr>"

section \<open>Operations\<close>

definition upd_md_entry :: "nat \<Rightarrow> (MemDepEntry \<Rightarrow> MemDepEntry) \<Rightarrow> MemDepUnit \<Rightarrow> MemDepUnit" where
  "upd_md_entry e f m = m\<lparr>md_entry := (md_entry m)(e := f (md_entry m e))\<rparr>"

text \<open>
  The common start of the insert operations: a new entry, bound in the hash unless the
  sequence number is bound already, and the instruction at the end of its thread's list.
\<close>

definition new_entry :: "inst_store \<Rightarrow> inst_ptr \<Rightarrow> MemDepUnit \<Rightarrow> MemDepUnit" where
  "new_entry h p m =
     (let sn = seqNum (h p); tid = threadNumber (h p); e = nextEntry m in
      m\<lparr>md_entry := (md_entry m)(e := MemDepEntry_new p), nextEntry := e + 1,
        memDepHash := (if memDepHash m sn = None then (memDepHash m)(sn \<mapsto> e) else memDepHash m),
        md_instList := (md_instList m)(tid := md_instList m tid @ [p])\<rparr>)"

definition findInHash :: "inst_store \<Rightarrow> inst_ptr \<Rightarrow> MemDepUnit \<Rightarrow> nat option" where
  "findInHash h p m = memDepHash m (seqNum (h p))"

definition moveToReady :: "bool \<Rightarrow> nat \<Rightarrow> md_state \<Rightarrow> md_state option" where
  "moveToReady prio e s =
     (case s of (h, q, m) \<Rightarrow> do {
        assert_that (\<not> e_squashed (md_entry m e));
        q \<leftarrow> addReadyMemInst prio h (e_inst (md_entry m e)) q;
        Some (h, q, m)
      })"

text \<open>The store or barrier a new memory instruction has to wait for, 0 if there is none.\<close>

definition producing_store :: "dyn_inst \<Rightarrow> MemDepUnit \<Rightarrow> InstSeqNum option" where
  "producing_store i m =
     (if sflag i IsLoad \<and> loadBarrier m then Some (loadBarrierSN m)
      else if sflag i IsStore \<and> storeBarrier m then Some (storeBarrierSN m)
      else checkInst (instAddr i) (depPred m))"

text \<open>Telling the predictor of a new store; a barrier here is a panic.\<close>

definition predict_insert :: "dyn_inst \<Rightarrow> MemDepUnit \<Rightarrow> MemDepUnit option" where
  "predict_insert i m =
     (if sflag i IsStore then do {
        P \<leftarrow> ss_insertStore (instAddr i) (seqNum i) (depPred m);
        Some (m\<lparr>depPred := P\<rparr>)
      }
      else if sflag i IsLoad then Some m
      else None)"

definition md_insert :: "bool \<Rightarrow> inst_ptr \<Rightarrow> md_state \<Rightarrow> md_state option" where
  "md_insert prio p s =
     (case s of (h, q, m) \<Rightarrow> do {
        let e = nextEntry m;
        let m = new_entry h p m;
        prod \<leftarrow> producing_store (h p) m;
        (h, q, m) \<leftarrow>
          (case (if prod \<noteq> 0 then memDepHash m prod else None) of
             None \<Rightarrow>
               let m = upd_md_entry e (\<lambda>x. x\<lparr>memDepReady := True\<rparr>) m in
               if has (h p) CanIssue
               then moveToReady prio e (h, q, upd_md_entry e (\<lambda>x. x\<lparr>e_regsReady := True\<rparr>) m)
               else Some (h, q, m)
           | Some st \<Rightarrow>
               let m = (if has (h p) CanIssue
                        then upd_md_entry e (\<lambda>x. x\<lparr>e_regsReady := True\<rparr>) m else m) in
               Some (upd_inst p (reset_status CanIssue) h, q,
                     upd_md_entry st (\<lambda>x. x\<lparr>dependInsts := dependInsts x @ [e]\<rparr>) m));
        m \<leftarrow> predict_insert (h p) m;
        Some (h, q, m)
      })"

definition md_insertNonSpec :: "inst_ptr \<Rightarrow> md_state \<Rightarrow> md_state option" where
  "md_insertNonSpec p s =
     (case s of (h, q, m) \<Rightarrow> do {
        m \<leftarrow> predict_insert (h p) (new_entry h p m);
        Some (h, q, m)
      })"

definition md_insertBarrier :: "inst_ptr \<Rightarrow> md_state \<Rightarrow> md_state" where
  "md_insertBarrier p s =
     (case s of (h, q, m) \<Rightarrow>
        let sn = seqNum (h p);
            m = (if sflag (h p) IsMemBarrier
                 then m\<lparr>loadBarrier := True, loadBarrierSN := sn, storeBarrier := True,
                        storeBarrierSN := sn\<rparr>
                 else if sflag (h p) IsWriteBarrier
                 then m\<lparr>storeBarrier := True, storeBarrierSN := sn\<rparr>
                 else m)
        in (h, q, new_entry h p m))"

definition md_regsReady :: "bool \<Rightarrow> inst_ptr \<Rightarrow> md_state \<Rightarrow> md_state option" where
  "md_regsReady prio p s =
     (case s of (h, q, m) \<Rightarrow> do {
        e \<leftarrow> findInHash h p m;
        let m = upd_md_entry e (\<lambda>x. x\<lparr>e_regsReady := True\<rparr>) m;
        if memDepReady (md_entry m e) then moveToReady prio e (h, q, m) else Some (h, q, m)
      })"

definition md_nonSpecInstReady :: "bool \<Rightarrow> inst_ptr \<Rightarrow> md_state \<Rightarrow> md_state option" where
  "md_nonSpecInstReady prio p s =
     (case s of (h, q, m) \<Rightarrow> do {
        e \<leftarrow> findInHash h p m;
        moveToReady prio e (h, q, m)
      })"

definition md_reschedule :: "inst_ptr \<Rightarrow> MemDepUnit \<Rightarrow> MemDepUnit" where
  "md_reschedule p m = m\<lparr>instsToReplay := instsToReplay m @ [p]\<rparr>"

definition md_replay :: "bool \<Rightarrow> md_state \<Rightarrow> md_state option" where
  "md_replay prio s =
     (case s of (h, q, m) \<Rightarrow> do {
        (h, q, m) \<leftarrow> foldM (md_nonSpecInstReady prio) (instsToReplay m) (h, q, m);
        Some (h, q, m\<lparr>instsToReplay := []\<rparr>)
      })"

text \<open>
  \<open>completed\<close> erases the node the entry's iterator points to: the entry's instruction.
\<close>

definition md_completed :: "inst_ptr \<Rightarrow> inst_store \<times> MemDepUnit \<Rightarrow> MemDepUnit option" where
  "md_completed p s =
     (case s of (h, m) \<Rightarrow> do {
        let tid = threadNumber (h p);
        e \<leftarrow> memDepHash m (seqNum (h p));
        Some (m\<lparr>md_instList := (md_instList m)(tid := remove1 (e_inst (md_entry m e)) (md_instList m tid)),
                memDepHash := (memDepHash m)(seqNum (h p) := None)\<rparr>)
      })"

definition wake_dependent :: "bool \<Rightarrow> nat \<Rightarrow> md_state \<Rightarrow> md_state option" where
  "wake_dependent prio e s =
     (case s of (h, q, m) \<Rightarrow>
        if e_regsReady (md_entry m e) \<and> \<not> e_squashed (md_entry m e)
        then moveToReady prio e (h, q, m)
        else Some (h, q, upd_md_entry e (\<lambda>x. x\<lparr>memDepReady := True\<rparr>) m))"

definition md_wakeDependents :: "bool \<Rightarrow> inst_ptr \<Rightarrow> md_state \<Rightarrow> md_state option" where
  "md_wakeDependents prio p s =
     (case s of (h, q, m) \<Rightarrow>
        if \<not> sflag (h p) IsStore \<and> \<not> sflag (h p) IsMemBarrier \<and> \<not> sflag (h p) IsWriteBarrier
        then Some (h, q, m)
        else do {
          e \<leftarrow> findInHash h p m;
          (h, q, m) \<leftarrow> foldM (wake_dependent prio) (dependInsts (md_entry m e)) (h, q, m);
          Some (h, q, upd_md_entry e (\<lambda>x. x\<lparr>dependInsts := []\<rparr>) m)
        })"

definition md_completeBarrier :: "bool \<Rightarrow> inst_ptr \<Rightarrow> md_state \<Rightarrow> md_state option" where
  "md_completeBarrier prio p s =
     do {
       (h, q, m) \<leftarrow> md_wakeDependents prio p s;
       m \<leftarrow> md_completed p (h, m);
       let sn = seqNum (h p);
       let m' = (if sflag (h p) IsMemBarrier \<and> loadBarrierSN m = sn
                 then m\<lparr>loadBarrier := False\<rparr> else m);
       Some (h, q, if (sflag (h p) IsMemBarrier \<or> sflag (h p) IsWriteBarrier) \<and> storeBarrierSN m = sn
                   then m'\<lparr>storeBarrier := False\<rparr> else m')
     }"

text \<open>One iteration of the squash loop, on the youngest instruction of the thread.\<close>

definition md_squash_inst :: "ThreadID \<Rightarrow> inst_store \<Rightarrow> inst_ptr \<Rightarrow> MemDepUnit \<Rightarrow> MemDepUnit option" where
  "md_squash_inst tid h p m =
     do {
       let sn = seqNum (h p);
       let m = (if sn = loadBarrierSN m then m\<lparr>loadBarrier := False\<rparr> else m);
       let m = (if sn = storeBarrierSN m then m\<lparr>storeBarrier := False\<rparr> else m);
       e \<leftarrow> memDepHash m sn;
       let m = upd_md_entry e (\<lambda>x. x\<lparr>e_squashed := True\<rparr>) m;
       Some (m\<lparr>memDepHash := (memDepHash m)(sn := None),
               md_instList := (md_instList m)(tid := butlast (md_instList m tid))\<rparr>)
     }"

fun md_squash_loop ::
  "ThreadID \<Rightarrow> InstSeqNum \<Rightarrow> inst_store \<Rightarrow> inst_ptr list \<Rightarrow> MemDepUnit \<Rightarrow> MemDepUnit option" where
  "md_squash_loop tid squashed_num h [] m = Some m"
| "md_squash_loop tid squashed_num h (p # older) m =
     (if seqNum (h p) > squashed_num
      then Option.bind (md_squash_inst tid h p m) (md_squash_loop tid squashed_num h older)
      else Some m)"

definition md_squash :: "InstSeqNum \<Rightarrow> ThreadID \<Rightarrow> inst_store \<Rightarrow> MemDepUnit \<Rightarrow> MemDepUnit option" where
  "md_squash squashed_num tid h m =
     do {
       let m = m\<lparr>instsToReplay := filter (\<lambda>p. \<not> (threadNumber (h p) = tid \<and> seqNum (h p) > squashed_num))
                                         (instsToReplay m)\<rparr>;
       m \<leftarrow> md_squash_loop tid squashed_num h (rev (md_instList m tid)) m;
       P \<leftarrow> ss_squash squashed_num (depPred m);
       Some (m\<lparr>depPred := P\<rparr>)
     }"

definition md_violation :: "inst_ptr \<Rightarrow> inst_ptr \<Rightarrow> inst_store \<Rightarrow> MemDepUnit \<Rightarrow> MemDepUnit option" where
  "md_violation store_inst violating_load h m =
     do {
       P \<leftarrow> ss_violation (instAddr (h store_inst)) (instAddr (h violating_load)) (depPred m);
       Some (m\<lparr>depPred := P\<rparr>)
     }"

definition md_issue :: "inst_ptr \<Rightarrow> inst_store \<Rightarrow> MemDepUnit \<Rightarrow> MemDepUnit option" where
  "md_issue p h m =
     do {
       P \<leftarrow> ss_issued (instAddr (h p)) (seqNum (h p)) (sflag (h p) IsStore) (depPred m);
       Some (m\<lparr>depPred := P\<rparr>)
     }"

section \<open>Invariant\<close>

text \<open>
  The hash binds exactly the sequence numbers of the listed instructions, to live entries of
  those instructions; each thread's list is in program order; dependents are allocated
  entries.
\<close>

definition md_ok :: "inst_store \<Rightarrow> MemDepUnit \<Rightarrow> bool" where
  "md_ok h m \<longleftrightarrow>
     ss_ok (depPred m) \<and>
     (\<forall>sn e. memDepHash m sn = Some e \<longrightarrow>
        e < nextEntry m \<and> \<not> e_squashed (md_entry m e) \<and> seqNum (h (e_inst (md_entry m e))) = sn \<and>
        e_inst (md_entry m e) \<in> set (md_instList m (threadNumber (h (e_inst (md_entry m e)))))) \<and>
     (\<forall>tid. sorted_wrt (\<lambda>p r. seqNum (h p) < seqNum (h r)) (md_instList m tid) \<and>
        (\<forall>p\<in>set (md_instList m tid). threadNumber (h p) = tid \<and>
           (\<exists>e. memDepHash m (seqNum (h p)) = Some e \<and> e_inst (md_entry m e) = p))) \<and>
     (\<forall>e<nextEntry m. \<forall>d\<in>set (dependInsts (md_entry m e)). d < nextEntry m)"

text \<open>What a caller guarantees of an instruction it inserts: it is the youngest.\<close>

definition md_fresh :: "inst_store \<Rightarrow> inst_ptr \<Rightarrow> MemDepUnit \<Rightarrow> bool" where
  "md_fresh h p m \<longleftrightarrow> memDepHash m (seqNum (h p)) = None \<and>
     (\<forall>r\<in>set (md_instList m (threadNumber (h p))). seqNum (h r) < seqNum (h p)) \<and>
     (\<forall>(s, i)\<in>set (storeList (depPred m)). s < seqNum (h p))"

lemma md_okD:
  assumes "md_ok h m"
  shows "ss_ok (depPred m)"
    and "memDepHash m sn = Some e \<Longrightarrow> e < nextEntry m \<and> \<not> e_squashed (md_entry m e) \<and>
           seqNum (h (e_inst (md_entry m e))) = sn \<and>
           e_inst (md_entry m e) \<in> set (md_instList m (threadNumber (h (e_inst (md_entry m e)))))"
    and "sorted_wrt (\<lambda>p r. seqNum (h p) < seqNum (h r)) (md_instList m tid)"
    and "p \<in> set (md_instList m tid) \<Longrightarrow> threadNumber (h p) = tid \<and>
           (\<exists>e. memDepHash m (seqNum (h p)) = Some e \<and> e_inst (md_entry m e) = p)"
    and "e < nextEntry m \<Longrightarrow> d \<in> set (dependInsts (md_entry m e)) \<Longrightarrow> d < nextEntry m"
  using assms unfolding md_ok_def by blast+

lemma md_ok_cong:
  assumes "\<And>p. seqNum (h' p) = seqNum (h p) \<and> threadNumber (h' p) = threadNumber (h p)"
  shows "md_ok h' m = md_ok h m"
  using assms by (simp add: md_ok_def)

lemma md_ok_fields:
  assumes "md_ok h m" and "depPred m' = depPred m" and "memDepHash m' = memDepHash m"
    and "md_entry m' = md_entry m" and "nextEntry m' = nextEntry m" and "md_instList m' = md_instList m"
  shows "md_ok h m'"
  using assms(1) unfolding md_ok_def assms(2-6) .

lemma md_ok_init:
  "0 < i \<Longrightarrow> i < 2 ^ 31 \<Longrightarrow> 0 < l \<Longrightarrow> l < 2 ^ 31 \<Longrightarrow> md_ok h (md_init cp i l)"
  by (simp add: md_ok_def md_init_def ss_init_ok)

lemma md_ok_new_entry:
  assumes ok: "md_ok h m" and fresh: "md_fresh h p m"
  shows "md_ok h (new_entry h p m)"
proof -
  have hash: "memDepHash m (seqNum (h p)) = None" using fresh by (simp add: md_fresh_def)
  have "e < nextEntry m" if "memDepHash m sn = Some e" for sn e using md_okD(2) [OF ok that] by simp
  then have ne: "memDepHash m sn \<noteq> Some (nextEntry m)" for sn by blast
  show ?thesis
    unfolding md_ok_def
  proof (intro conjI allI impI ballI)
    fix tid
    show "sorted_wrt (\<lambda>p r. seqNum (h p) < seqNum (h r)) (md_instList (new_entry h p m) tid)"
      using md_okD(3) [OF ok, of tid] fresh
      by (auto simp: new_entry_def Let_def sorted_wrt_snoc md_fresh_def)
  next
    fix tid r
    assume r: "r \<in> set (md_instList (new_entry h p m) tid)"
    then have "r = p \<and> tid = threadNumber (h p) \<or> r \<in> set (md_instList m tid)"
      by (auto simp: new_entry_def Let_def split: if_splits)
    then show "threadNumber (h r) = tid"
      using md_okD(4) [OF ok, of r tid] by auto
    have "memDepHash m (seqNum (h r)) = Some e \<Longrightarrow> e \<noteq> nextEntry m" for e using ne by auto
    with \<open>r = p \<and> _ \<or> _\<close>
    show "\<exists>e. memDepHash (new_entry h p m) (seqNum (h r)) = Some e \<and> e_inst (md_entry (new_entry h p m) e) = r"
      using md_okD(4) [OF ok, of r tid] hash
      by (fastforce simp: new_entry_def Let_def MemDepEntry_new_def)
  next
    fix e d
    assume "e < nextEntry (new_entry h p m)" "d \<in> set (dependInsts (md_entry (new_entry h p m) e))"
    then show "d < nextEntry (new_entry h p m)"
      using md_okD(5) [OF ok, of e d]
      by (auto simp: new_entry_def Let_def MemDepEntry_new_def less_Suc_eq split: if_splits)
  next
    fix sn e
    assume "memDepHash (new_entry h p m) sn = Some e"
    then have "sn = seqNum (h p) \<and> e = nextEntry m \<or> memDepHash m sn = Some e"
      using hash by (auto simp: new_entry_def Let_def split: if_splits)
    then show "e < nextEntry (new_entry h p m)" "\<not> e_squashed (md_entry (new_entry h p m) e)"
      "seqNum (h (e_inst (md_entry (new_entry h p m) e))) = sn"
      "e_inst (md_entry (new_entry h p m) e) \<in>
         set (md_instList (new_entry h p m) (threadNumber (h (e_inst (md_entry (new_entry h p m) e)))))"
      using md_okD(2) [OF ok, of sn e] by (auto simp: new_entry_def Let_def MemDepEntry_new_def)
  qed (use md_okD(1) [OF ok] in \<open>simp add: new_entry_def Let_def\<close>)
qed

text \<open>Changing only the flags of an entry, or adding an allocated dependent, keeps the invariant.\<close>

lemma md_ok_upd_md_entry:
  assumes "md_ok h m"
    and "e_inst (f (md_entry m e)) = e_inst (md_entry m e)"
    and "e_squashed (f (md_entry m e)) = e_squashed (md_entry m e)"
    and "\<And>d. e < nextEntry m \<Longrightarrow> d \<in> set (dependInsts (f (md_entry m e))) \<Longrightarrow>
           d \<in> set (dependInsts (md_entry m e)) \<or> d < nextEntry m"
  shows "md_ok h (upd_md_entry e f m)"
proof -
  let ?m = "upd_md_entry e f m"
  have same: "e_inst (md_entry ?m x) = e_inst (md_entry m x)"
    "e_squashed (md_entry ?m x) = e_squashed (md_entry m x)" for x
    using assms(2,3) by (auto simp: upd_md_entry_def)
  have other: "memDepHash ?m = memDepHash m" "md_instList ?m = md_instList m" "nextEntry ?m = nextEntry m"
    "depPred ?m = depPred m"
    by (simp_all add: upd_md_entry_def)
  have deps: "\<forall>x<nextEntry m. \<forall>d\<in>set (dependInsts (md_entry ?m x)). d < nextEntry m"
    using md_okD(5) [OF assms(1)] assms(4) by (auto simp: upd_md_entry_def)
  show ?thesis
    using assms(1) deps unfolding md_ok_def other same by blast
qed

section \<open>The operations keep the invariant and meet their assertions\<close>

abbreviation push_ready :: "inst_store \<Rightarrow> inst_ptr \<Rightarrow> ReadyQueues \<Rightarrow> ReadyQueues \<Rightarrow> bool" where
  "push_ready h p q q' \<equiv> readyInsts q' = (readyInsts q)(sopClass (staticInst (h p)) :=
     p # readyInsts q (sopClass (staticInst (h p))))"

lemma moveToReady_total:
  assumes "rq_listed q" and "\<not> e_squashed (md_entry m e)"
  shows "\<exists>q'. moveToReady prio e (h, q, m) = Some (h, q', m) \<and> rq_listed q' \<and>
           push_ready h (e_inst (md_entry m e)) q q'"
  using addReadyMemInst_listed [OF assms(1), of prio h "e_inst (md_entry m e)"] assms(2)
    addReadyMemInst_readyInsts [of prio h "e_inst (md_entry m e)" q]
  by (auto simp: moveToReady_def)

lemma md_ok_depPred: "md_ok h m \<Longrightarrow> ss_ok P \<Longrightarrow> md_ok h (m\<lparr>depPred := P\<rparr>)"
  by (simp add: md_ok_def)

lemma predict_insert_total:
  assumes "md_ok h m" and "\<forall>(s, i)\<in>set (storeList (depPred m)). s < seqNum (h p)"
    and "sflag (h p) IsStore \<or> sflag (h p) IsLoad"
  shows "\<exists>P. predict_insert (h p) m = Some (m\<lparr>depPred := P\<rparr>) \<and> md_ok h (m\<lparr>depPred := P\<rparr>)"
proof (cases "sflag (h p) IsStore")
  case True
  from ss_insertStore_effect [OF md_okD(1) [OF assms(1)] assms(2), of "instAddr (h p)"]
  obtain P where "ss_insertStore (instAddr (h p)) (seqNum (h p)) (depPred m) = Some P" "ss_ok P" by blast
  with True md_ok_depPred [OF assms(1)] show ?thesis by (auto simp: predict_insert_def)
next
  case False
  with assms show ?thesis by (intro exI [of _ "depPred m"]) (simp add: predict_insert_def)
qed

lemma predict_insert_reset_status [simp]:
  "predict_insert (reset_status b i) m = predict_insert i m"
  unfolding predict_insert_def by (simp add: reset_status_def)

lemma new_entry_simps [simp]:
  "depPred (new_entry h p m) = depPred m" "loadBarrier (new_entry h p m) = loadBarrier m"
  "storeBarrier (new_entry h p m) = storeBarrier m" "loadBarrierSN (new_entry h p m) = loadBarrierSN m"
  "storeBarrierSN (new_entry h p m) = storeBarrierSN m" "nextEntry (new_entry h p m) = Suc (nextEntry m)"
  "md_entry (new_entry h p m) = (md_entry m)(nextEntry m := MemDepEntry_new p)"
  "instsToReplay (new_entry h p m) = instsToReplay m"
  by (simp_all add: new_entry_def Let_def)

lemma new_entry_instList [simp]:
  "md_instList (new_entry h p m) = (md_instList m)(threadNumber (h p) := md_instList m (threadNumber (h p)) @ [p])"
  by (simp add: new_entry_def Let_def)

lemma new_entry_hash [simp]:
  "md_fresh h p m \<Longrightarrow> memDepHash (new_entry h p m) = (memDepHash m)(seqNum (h p) \<mapsto> nextEntry m)"
  by (simp add: new_entry_def md_fresh_def Let_def)

lemma upd_md_entry_simps [simp]:
  "depPred (upd_md_entry e f m) = depPred m" "memDepHash (upd_md_entry e f m) = memDepHash m"
  "md_instList (upd_md_entry e f m) = md_instList m" "nextEntry (upd_md_entry e f m) = nextEntry m"
  "md_entry (upd_md_entry e f m) = (md_entry m)(e := f (md_entry m e))"
  "loadBarrier (upd_md_entry e f m) = loadBarrier m" "storeBarrier (upd_md_entry e f m) = storeBarrier m"
  "loadBarrierSN (upd_md_entry e f m) = loadBarrierSN m"
  "storeBarrierSN (upd_md_entry e f m) = storeBarrierSN m"
  "instsToReplay (upd_md_entry e f m) = instsToReplay m"
  by (simp_all add: upd_md_entry_def)

lemma producing_store_new_entry [simp]: "producing_store i (new_entry h p m) = producing_store i m"
  by (simp add: producing_store_def)

text \<open>The entry a new instruction has to wait for.\<close>

definition waits_for :: "inst_store \<Rightarrow> inst_ptr \<Rightarrow> MemDepUnit \<Rightarrow> nat option" where
  "waits_for h p m =
     (case producing_store (h p) m of
        None \<Rightarrow> None
      | Some k \<Rightarrow> if k \<noteq> 0 then memDepHash (new_entry h p m) k else None)"

lemma checkInst_total: "ss_ok S \<Longrightarrow> \<exists>k. checkInst PC S = Some k"
  using calcIndex_bound [of S PC] ss_ok_SSIT [of S "calcIndex S PC"] by (auto simp: checkInst_def Let_def)

lemma producing_store_total: "md_ok h m \<Longrightarrow> \<exists>k. producing_store i m = Some k"
  using checkInst_total [OF md_okD(1)] by (auto simp: producing_store_def)

lemma md_insert_free:
  assumes ok: "md_ok h m" and fresh: "md_fresh h p m" and q: "rq_listed q"
    and ls: "sflag (h p) IsStore \<or> sflag (h p) IsLoad" and free: "waits_for h p m = None"
  shows "\<exists>q' m'. md_insert prio p (h, q, m) = Some (h, q', m') \<and> md_ok h m' \<and> rq_listed q' \<and>
     (if has (h p) CanIssue then push_ready h p q q' else q' = q) \<and>
     memDepHash m' = (memDepHash m)(seqNum (h p) \<mapsto> nextEntry m) \<and>
     memDepReady (md_entry m' (nextEntry m)) \<and> instsToReplay m' = instsToReplay m \<and>
     md_instList m' = (md_instList m)(threadNumber (h p) := md_instList m (threadNumber (h p)) @ [p])"
proof -
  let ?e = "nextEntry m"
  obtain k where k: "producing_store (h p) m = Some k" using producing_store_total [OF ok] by blast
  have k': "producing_store (h p) (new_entry h p m) = Some k"
    using k by simp
  have dep: "(if k \<noteq> 0 then memDepHash (new_entry h p m) k else None) = None"
    using free k by (simp add: waits_for_def)
  let ?m1 = "upd_md_entry ?e (\<lambda>x. x\<lparr>memDepReady := True\<rparr>) (new_entry h p m)"
  let ?m2 = "upd_md_entry ?e (\<lambda>x. x\<lparr>e_regsReady := True\<rparr>) ?m1"
  have m1: "md_ok h ?m1" using md_ok_new_entry [OF ok fresh] by (rule md_ok_upd_md_entry) auto
  then have m2: "md_ok h ?m2" by (rule md_ok_upd_md_entry) auto
  have young: "\<forall>(s, i)\<in>set (storeList (depPred m)). s < seqNum (h p)" using fresh by (simp add: md_fresh_def)
  show ?thesis
  proof (cases "has (h p) CanIssue")
    case True
    from moveToReady_total [OF q, of ?m2 ?e prio h] obtain q' where
      q': "moveToReady prio ?e (h, q, ?m2) = Some (h, q', ?m2)" "rq_listed q'" "push_ready h p q q'"
      by (auto simp: MemDepEntry_new_def)
    from predict_insert_total [OF m2, of p] young ls obtain P where
      "predict_insert (h p) ?m2 = Some (?m2\<lparr>depPred := P\<rparr>)" "md_ok h (?m2\<lparr>depPred := P\<rparr>)" by auto
    with True dep k' q' fresh show ?thesis by (simp add: md_insert_def Let_def)
  next
    case False
    from predict_insert_total [OF m1, of p] young ls obtain P where
      "predict_insert (h p) ?m1 = Some (?m1\<lparr>depPred := P\<rparr>)" "md_ok h (?m1\<lparr>depPred := P\<rparr>)" by auto
    with False dep k' fresh q show ?thesis by (simp add: md_insert_def Let_def)
  qed
qed

lemma md_insert_waits:
  assumes ok: "md_ok h m" and fresh: "md_fresh h p m"
    and ls: "sflag (h p) IsStore \<or> sflag (h p) IsLoad" and st: "waits_for h p m = Some st"
  shows "\<exists>m'. md_insert prio p (h, q, m) = Some (upd_inst p (reset_status CanIssue) h, q, m') \<and>
     md_ok h m' \<and> memDepHash m' = (memDepHash m)(seqNum (h p) \<mapsto> nextEntry m) \<and>
     nextEntry m \<in> set (dependInsts (md_entry m' st)) \<and> nextEntry m' = Suc (nextEntry m) \<and>
     \<not> memDepReady (md_entry m' (nextEntry m)) \<and> e_inst (md_entry m' (nextEntry m)) = p \<and>
     \<not> e_squashed (md_entry m' (nextEntry m)) \<and> instsToReplay m' = instsToReplay m \<and>
     md_instList m' = (md_instList m)(threadNumber (h p) := md_instList m (threadNumber (h p)) @ [p]) \<and>
     (\<forall>x<nextEntry m. e_inst (md_entry m' x) = e_inst (md_entry m x)) \<and>
     (loadBarrierSN m' = loadBarrierSN m \<and> storeBarrierSN m' = storeBarrierSN m)"
proof -
  let ?e = "nextEntry m"
  let ?h = "upd_inst p (reset_status CanIssue) h"
  obtain k where k: "producing_store (h p) m = Some k" using producing_store_total [OF ok] by blast
  have k': "producing_store (h p) (new_entry h p m) = Some k"
    using k by simp
  have dep: "(if k \<noteq> 0 then memDepHash (new_entry h p m) k else None) = Some st"
    using st k by (simp add: waits_for_def)
  define m1 where "m1 = (if has (h p) CanIssue
    then upd_md_entry ?e (\<lambda>x. x\<lparr>e_regsReady := True\<rparr>) (new_entry h p m) else new_entry h p m)"
  define m2 where "m2 = upd_md_entry st (\<lambda>x. x\<lparr>dependInsts := dependInsts x @ [?e]\<rparr>) m1"
  have "md_ok h m1"
    using md_ok_new_entry [OF ok fresh] by (auto simp: m1_def intro: md_ok_upd_md_entry)
  moreover have "nextEntry m1 = Suc (nextEntry m)" by (simp add: m1_def)
  ultimately have m2: "md_ok h m2"
    unfolding m2_def by (intro md_ok_upd_md_entry) auto
  have "ss_ok (depPred m2)" "storeList (depPred m2) = storeList (depPred m)"
    using md_okD(1) [OF m2] by (simp_all add: m2_def m1_def)
  then obtain P where P: "predict_insert (?h p) m2 = Some (m2\<lparr>depPred := P\<rparr>)" "md_ok h (m2\<lparr>depPred := P\<rparr>)"
    using predict_insert_total [OF m2, of p] fresh ls by (auto simp: md_fresh_def upd_inst_def)
  have "md_insert prio p (h, q, m) = Some (?h, q, m2\<lparr>depPred := P\<rparr>)"
    using dep k' P(1) by (simp add: md_insert_def Let_def m1_def [symmetric] m2_def [symmetric])
  with P(2) show ?thesis
    by (auto simp: m2_def m1_def fresh MemDepEntry_new_def)
qed

lemma md_insertNonSpec_total:
  assumes "md_ok h m" and "md_fresh h p m" and "sflag (h p) IsStore \<or> sflag (h p) IsLoad"
  shows "\<exists>m'. md_insertNonSpec p (h, q, m) = Some (h, q, m') \<and> md_ok h m' \<and>
     memDepHash m' = (memDepHash m)(seqNum (h p) \<mapsto> nextEntry m) \<and> instsToReplay m' = instsToReplay m \<and>
     md_instList m' = (md_instList m)(threadNumber (h p) := md_instList m (threadNumber (h p)) @ [p])"
  using predict_insert_total [OF md_ok_new_entry [OF assms(1,2)], of p] assms(2,3)
  by (auto simp: md_insertNonSpec_def md_fresh_def new_entry_def Let_def)

lemma md_ok_barrier_fields:
  "md_ok h m \<Longrightarrow> md_ok h (m\<lparr>loadBarrier := a\<rparr>)" "md_ok h m \<Longrightarrow> md_ok h (m\<lparr>storeBarrier := b\<rparr>)"
  "md_ok h m \<Longrightarrow> md_ok h (m\<lparr>loadBarrierSN := c\<rparr>)" "md_ok h m \<Longrightarrow> md_ok h (m\<lparr>storeBarrierSN := d\<rparr>)"
  by (simp_all add: md_ok_def)

lemma md_insertBarrier_effect:
  assumes "md_ok h m" and "md_fresh h p m"
  shows "\<exists>m'. md_insertBarrier p (h, q, m) = (h, q, m') \<and> md_ok h m' \<and>
     memDepHash m' = (memDepHash m)(seqNum (h p) \<mapsto> nextEntry m) \<and> nextEntry m' = Suc (nextEntry m) \<and>
     dependInsts (md_entry m' (nextEntry m)) = [] \<and> e_inst (md_entry m' (nextEntry m)) = p \<and>
     depPred m' = depPred m \<and> instsToReplay m' = instsToReplay m \<and>
     md_instList m' = (md_instList m)(threadNumber (h p) := md_instList m (threadNumber (h p)) @ [p]) \<and>
     (sflag (h p) IsMemBarrier \<longrightarrow> loadBarrier m' \<and> storeBarrier m' \<and>
        loadBarrierSN m' = seqNum (h p) \<and> storeBarrierSN m' = seqNum (h p))"
proof -
  define m1 where "m1 = (if sflag (h p) IsMemBarrier
      then m\<lparr>loadBarrier := True, loadBarrierSN := seqNum (h p), storeBarrier := True,
             storeBarrierSN := seqNum (h p)\<rparr>
      else if sflag (h p) IsWriteBarrier
      then m\<lparr>storeBarrier := True, storeBarrierSN := seqNum (h p)\<rparr> else m)"
  have ok: "md_ok h m1" and fresh: "md_fresh h p m1"
    using assms by (auto simp: m1_def md_fresh_def intro!: md_ok_barrier_fields)
  have "md_insertBarrier p (h, q, m) = (h, q, new_entry h p m1)"
    by (simp add: md_insertBarrier_def m1_def Let_def)
  with md_ok_new_entry [OF ok fresh] fresh show ?thesis
    by (auto simp: m1_def MemDepEntry_new_def)
qed

lemma md_regsReady_total:
  assumes ok: "md_ok h m" and q: "rq_listed q" and e: "memDepHash m (seqNum (h p)) = Some e"
  shows "\<exists>q' m'. md_regsReady prio p (h, q, m) = Some (h, q', m') \<and> md_ok h m' \<and> rq_listed q' \<and>
     m' = upd_md_entry e (\<lambda>x. x\<lparr>e_regsReady := True\<rparr>) m \<and>
     (if memDepReady (md_entry m e) then push_ready h (e_inst (md_entry m e)) q q' else q' = q)"
proof -
  let ?m = "upd_md_entry e (\<lambda>x. x\<lparr>e_regsReady := True\<rparr>) m"
  have ok': "md_ok h ?m" using ok by (rule md_ok_upd_md_entry) auto
  from moveToReady_total [OF q, of ?m e prio h] md_okD(2) [OF ok e] ok' q e show ?thesis
    by (auto simp: md_regsReady_def findInHash_def Let_def)
qed

subsection \<open>Waking the dependents of a store or barrier\<close>

definition md_frame :: "MemDepUnit \<Rightarrow> MemDepUnit \<Rightarrow> bool" where
  "md_frame m m' \<longleftrightarrow>
     memDepHash m' = memDepHash m \<and> md_instList m' = md_instList m \<and> nextEntry m' = nextEntry m \<and>
     depPred m' = depPred m \<and> instsToReplay m' = instsToReplay m \<and>
     loadBarrier m' = loadBarrier m \<and> loadBarrierSN m' = loadBarrierSN m \<and>
     storeBarrier m' = storeBarrier m \<and> storeBarrierSN m' = storeBarrierSN m \<and>
     (\<forall>x. e_inst (md_entry m' x) = e_inst (md_entry m x) \<and>
          dependInsts (md_entry m' x) = dependInsts (md_entry m x) \<and>
          e_regsReady (md_entry m' x) = e_regsReady (md_entry m x) \<and>
          e_squashed (md_entry m' x) = e_squashed (md_entry m x) \<and>
          (memDepReady (md_entry m x) \<longrightarrow> memDepReady (md_entry m' x)))"

definition on_ready :: "inst_store \<Rightarrow> ReadyQueues \<Rightarrow> inst_ptr \<Rightarrow> bool" where
  "on_ready h q p \<longleftrightarrow> p \<in> set (readyInsts q (sopClass (staticInst (h p))))"

lemma on_ready_push: "push_ready h p q q' \<Longrightarrow> on_ready h q' r = (r = p \<or> on_ready h q r)"
  by (auto simp: on_ready_def)

lemma wake_dependent_total:
  assumes ok: "md_ok h m" and q: "rq_listed q"
  shows "\<exists>q' m'. wake_dependent prio e (h, q, m) = Some (h, q', m') \<and> md_ok h m' \<and> rq_listed q' \<and>
     md_frame m m' \<and> (\<forall>r. on_ready h q r \<longrightarrow> on_ready h q' r) \<and>
     (if e_regsReady (md_entry m e) \<and> \<not> e_squashed (md_entry m e)
      then on_ready h q' (e_inst (md_entry m e)) else memDepReady (md_entry m' e))"
proof (cases "e_regsReady (md_entry m e) \<and> \<not> e_squashed (md_entry m e)")
  case True
  from moveToReady_total [OF q, of m e prio h] True obtain q' where
    "moveToReady prio e (h, q, m) = Some (h, q', m)" "rq_listed q'"
    "push_ready h (e_inst (md_entry m e)) q q'" by blast
  with True ok on_ready_push [where h = h and p = "e_inst (md_entry m e)" and q = q and q' = q'] show ?thesis
    by (auto simp: wake_dependent_def md_frame_def)
next
  case False
  have "md_ok h (upd_md_entry e (\<lambda>x. x\<lparr>memDepReady := True\<rparr>) m)"
    using ok by (rule md_ok_upd_md_entry) auto
  with False q show ?thesis by (auto simp: wake_dependent_def md_frame_def)
qed

lemma md_frame_trans: "md_frame a b \<Longrightarrow> md_frame b c \<Longrightarrow> md_frame a c"
  by (auto simp: md_frame_def)

lemma wake_dependents_total:
  assumes "md_ok h m" and "rq_listed q"
  shows "\<exists>q' m'. foldM (wake_dependent prio) ds (h, q, m) = Some (h, q', m') \<and> md_ok h m' \<and>
     rq_listed q' \<and> md_frame m m' \<and> (\<forall>r. on_ready h q r \<longrightarrow> on_ready h q' r) \<and>
     (\<forall>d\<in>set ds. if e_regsReady (md_entry m d) \<and> \<not> e_squashed (md_entry m d)
        then on_ready h q' (e_inst (md_entry m d)) else memDepReady (md_entry m' d))"
  using assms
proof (induction ds arbitrary: q m)
  case Nil
  then show ?case by (auto simp: md_frame_def)
next
  case (Cons d ds)
  obtain q1 m1 where 1: "wake_dependent prio d (h, q, m) = Some (h, q1, m1)" "md_ok h m1" "rq_listed q1"
    "md_frame m m1" "\<forall>r. on_ready h q r \<longrightarrow> on_ready h q1 r"
    "if e_regsReady (md_entry m d) \<and> \<not> e_squashed (md_entry m d)
      then on_ready h q1 (e_inst (md_entry m d)) else memDepReady (md_entry m1 d)"
    using wake_dependent_total [OF Cons.prems, of prio d] by blast
  obtain q2 m2 where 2: "foldM (wake_dependent prio) ds (h, q1, m1) = Some (h, q2, m2)" "md_ok h m2"
    "rq_listed q2" "md_frame m1 m2" "\<forall>r. on_ready h q1 r \<longrightarrow> on_ready h q2 r"
    "\<forall>d\<in>set ds. if e_regsReady (md_entry m1 d) \<and> \<not> e_squashed (md_entry m1 d)
        then on_ready h q2 (e_inst (md_entry m1 d)) else memDepReady (md_entry m2 d)"
    using Cons.IH [OF 1(2,3)] by blast
  have "\<forall>d\<in>set (d # ds). if e_regsReady (md_entry m d) \<and> \<not> e_squashed (md_entry m d)
        then on_ready h q2 (e_inst (md_entry m d)) else memDepReady (md_entry m2 d)"
    using 1(4,6) 2(4-6) by (auto simp: md_frame_def)
  with 1 2 md_frame_trans [OF 1(4) 2(4)] show ?case by auto
qed

lemma md_wakeDependents_total:
  assumes ok: "md_ok h m" and q: "rq_listed q" and e: "memDepHash m (seqNum (h p)) = Some e"
    and b: "sflag (h p) IsStore \<or> sflag (h p) IsMemBarrier \<or> sflag (h p) IsWriteBarrier"
  shows "\<exists>q' m1. md_wakeDependents prio p (h, q, m) =
       Some (h, q', upd_md_entry e (\<lambda>x. x\<lparr>dependInsts := []\<rparr>) m1) \<and>
     md_ok h (upd_md_entry e (\<lambda>x. x\<lparr>dependInsts := []\<rparr>) m1) \<and> rq_listed q' \<and> md_frame m m1 \<and>
     (\<forall>r. on_ready h q r \<longrightarrow> on_ready h q' r) \<and>
     (\<forall>d\<in>set (dependInsts (md_entry m e)).
        if e_regsReady (md_entry m d) \<and> \<not> e_squashed (md_entry m d)
        then on_ready h q' (e_inst (md_entry m d)) else memDepReady (md_entry m1 d))"
proof -
  obtain q' m1 where 1: "foldM (wake_dependent prio) (dependInsts (md_entry m e)) (h, q, m) = Some (h, q', m1)"
    "md_ok h m1" "rq_listed q'" "md_frame m m1" "\<forall>r. on_ready h q r \<longrightarrow> on_ready h q' r"
    "\<forall>d\<in>set (dependInsts (md_entry m e)).
        if e_regsReady (md_entry m d) \<and> \<not> e_squashed (md_entry m d)
        then on_ready h q' (e_inst (md_entry m d)) else memDepReady (md_entry m1 d)"
    using wake_dependents_total [OF ok q] by blast
  have "md_ok h (upd_md_entry e (\<lambda>x. x\<lparr>dependInsts := []\<rparr>) m1)"
    using 1(2) by (rule md_ok_upd_md_entry) auto
  moreover have "md_wakeDependents prio p (h, q, m) =
       Some (h, q', upd_md_entry e (\<lambda>x. x\<lparr>dependInsts := []\<rparr>) m1)"
    using 1(1) b e by (auto simp: md_wakeDependents_def findInHash_def)
  ultimately show ?thesis using 1 by blast
qed

lemma md_completed_total:
  assumes ok: "md_ok h m" and p: "p \<in> set (md_instList m (threadNumber (h p)))"
  shows "\<exists>m'. md_completed p (h, m) = Some m' \<and> md_ok h m' \<and>
     m' = m\<lparr>md_instList := (md_instList m)(threadNumber (h p) := remove1 p (md_instList m (threadNumber (h p)))),
            memDepHash := (memDepHash m)(seqNum (h p) := None)\<rparr>"
proof -
  let ?l = "md_instList m (threadNumber (h p))"
  let ?m = "m\<lparr>md_instList := (md_instList m)(threadNumber (h p) := remove1 p ?l),
            memDepHash := (memDepHash m)(seqNum (h p) := None)\<rparr>"
  obtain e where e: "memDepHash m (seqNum (h p)) = Some e" "e_inst (md_entry m e) = p"
    using md_okD(4) [OF ok p] by blast
  have dist: "distinct (md_instList m t)" for t
    using sorted_wrt_less_distinct [OF md_okD(3) [OF ok]] .
  have keep: "seqNum (h r) \<noteq> seqNum (h p)" if "r \<in> set (md_instList m t)" "r \<noteq> p" for r t
    using md_okD(4) [OF ok that(1)] e that(2) by auto
  have "md_ok h ?m"
    unfolding md_ok_def
  proof (intro conjI allI impI ballI)
    fix t
    show "sorted_wrt (\<lambda>p r. seqNum (h p) < seqNum (h r)) (md_instList ?m t)"
      using md_okD(3) [OF ok] by (simp add: distinct_remove1_removeAll dist removeAll_filter_not_eq sorted_wrt_filter)
  next
    fix t r
    assume "r \<in> set (md_instList ?m t)"
    then have "r \<in> set (md_instList m t)" "r \<noteq> p \<or> t \<noteq> threadNumber (h p)"
      using dist by (auto split: if_splits)
    with md_okD(4) [OF ok this(1)] keep [OF this(1)] show "threadNumber (h r) = t"
      "\<exists>e. memDepHash ?m (seqNum (h r)) = Some e \<and> e_inst (md_entry ?m e) = r" by auto
  next
    fix sn x
    assume "memDepHash ?m sn = Some x"
    then have x: "memDepHash m sn = Some x" "sn \<noteq> seqNum (h p)" by (auto split: if_splits)
    with md_okD(2) [OF ok x(1)] dist show "x < nextEntry ?m" "\<not> e_squashed (md_entry ?m x)"
      "seqNum (h (e_inst (md_entry ?m x))) = sn"
      "e_inst (md_entry ?m x) \<in> set (md_instList ?m (threadNumber (h (e_inst (md_entry ?m x)))))" by auto
  qed (use md_okD(1,5) [OF ok] in auto)
  with e show ?thesis by (auto simp: md_completed_def Let_def)
qed

subsection \<open>Squashing\<close>

lemma md_ok_squash_entry:
  assumes "md_ok h m" and "\<And>sn. memDepHash m sn \<noteq> Some e"
  shows "md_ok h (upd_md_entry e (\<lambda>x. x\<lparr>e_squashed := True\<rparr>) m)"
proof -
  let ?m = "upd_md_entry e (\<lambda>x. x\<lparr>e_squashed := True\<rparr>) m"
  have same: "e_inst (md_entry ?m x) = e_inst (md_entry m x)"
    "dependInsts (md_entry ?m x) = dependInsts (md_entry m x)" for x by auto
  have sq: "memDepHash m sn = Some x \<Longrightarrow> e_squashed (md_entry ?m x) = e_squashed (md_entry m x)" for sn x
    using assms(2) [of sn] by auto
  have other: "memDepHash ?m = memDepHash m" "md_instList ?m = md_instList m" "nextEntry ?m = nextEntry m"
    "depPred ?m = depPred m" by simp_all
  show ?thesis using assms(1) sq unfolding md_ok_def other same by blast
qed

lemma md_squash_inst_total:
  assumes ok: "md_ok h m" and l: "md_instList m tid = xs @ [p]"
  shows "\<exists>m'. md_squash_inst tid h p m = Some m' \<and> md_ok h m' \<and>
     md_instList m' = (md_instList m)(tid := xs) \<and> memDepHash m' = (memDepHash m)(seqNum (h p) := None) \<and>
     depPred m' = depPred m \<and> instsToReplay m' = instsToReplay m \<and>
     loadBarrierSN m' = loadBarrierSN m \<and> storeBarrierSN m' = storeBarrierSN m \<and>
     loadBarrier m' = (loadBarrier m \<and> seqNum (h p) \<noteq> loadBarrierSN m) \<and>
     storeBarrier m' = (storeBarrier m \<and> seqNum (h p) \<noteq> storeBarrierSN m)"
proof -
  have tid: "threadNumber (h p) = tid" and p: "p \<in> set (md_instList m (threadNumber (h p)))"
    using md_okD(4) [OF ok, of p tid] l by auto
  obtain e where e: "memDepHash m (seqNum (h p)) = Some e" "e_inst (md_entry m e) = p"
    using md_okD(4) [OF ok p] by blast
  have "distinct (xs @ [p])" using sorted_wrt_less_distinct [OF md_okD(3) [OF ok, of tid]] l by simp
  then have rem: "remove1 p (xs @ [p]) = xs" by (simp add: remove1_append)
  let ?m0 = "m\<lparr>md_instList := (md_instList m)(tid := xs), memDepHash := (memDepHash m)(seqNum (h p) := None)\<rparr>"
  have ok0: "md_ok h ?m0"
    using md_completed_total [OF ok p] tid l rem by auto
  have ne: "memDepHash ?m0 sn \<noteq> Some e" for sn
    using md_okD(2) [OF ok, of sn e] e by auto
  define m1 where "m1 = (if seqNum (h p) = loadBarrierSN m then m\<lparr>loadBarrier := False\<rparr> else m)"
  define m2 where "m2 = (if seqNum (h p) = storeBarrierSN m1 then m1\<lparr>storeBarrier := False\<rparr> else m1)"
  let ?m = "(upd_md_entry e (\<lambda>x. x\<lparr>e_squashed := True\<rparr>) m2)
     \<lparr>memDepHash := (memDepHash m)(seqNum (h p) := None), md_instList := (md_instList m)(tid := xs)\<rparr>"
  have "md_squash_inst tid h p m = Some ?m"
    using e(1) l by (auto simp: md_squash_inst_def Let_def m1_def m2_def)
  moreover have "md_ok h ?m"
    by (rule md_ok_fields [OF md_ok_squash_entry [OF ok0 ne]]) (simp_all add: m2_def m1_def)
  ultimately show ?thesis by (auto simp: m2_def m1_def)
qed

text \<open>The effect of squashing: exactly the younger instructions of the thread are gone.\<close>

definition md_squashed :: "InstSeqNum \<Rightarrow> ThreadID \<Rightarrow> inst_store \<Rightarrow> MemDepUnit \<Rightarrow> MemDepUnit \<Rightarrow> bool" where
  "md_squashed k tid h m m' \<longleftrightarrow>
     md_instList m' = (md_instList m)(tid := filter (\<lambda>p. seqNum (h p) \<le> k) (md_instList m tid)) \<and>
     (\<forall>sn. memDepHash m' sn =
        (if sn > k \<and> sn \<in> (seqNum \<circ> h) ` set (md_instList m tid) then None else memDepHash m sn)) \<and>
     loadBarrierSN m' = loadBarrierSN m \<and> storeBarrierSN m' = storeBarrierSN m \<and>
     loadBarrier m' = (loadBarrier m \<and>
        \<not> (loadBarrierSN m > k \<and> loadBarrierSN m \<in> (seqNum \<circ> h) ` set (md_instList m tid))) \<and>
     storeBarrier m' = (storeBarrier m \<and>
        \<not> (storeBarrierSN m > k \<and> storeBarrierSN m \<in> (seqNum \<circ> h) ` set (md_instList m tid)))"

lemma md_squash_loop_total:
  assumes "md_ok h m" and "rev (md_instList m tid) = l"
  shows "\<exists>m'. md_squash_loop tid k h l m = Some m' \<and> md_ok h m' \<and> md_squashed k tid h m m' \<and>
     depPred m' = depPred m \<and> instsToReplay m' = instsToReplay m"
  using assms
proof (induction l arbitrary: m)
  case Nil
  then show ?case by (auto simp: md_squashed_def)
next
  case (Cons p older)
  then have l: "md_instList m tid = rev older @ [p]" by (metis rev_eq_Cons_iff)
  show ?case
  proof (cases "seqNum (h p) > k")
    case False
    have "\<forall>r\<in>set (md_instList m tid). seqNum (h r) \<le> k"
      using md_okD(3) [OF Cons.prems(1), of tid] False l by (fastforce simp: sorted_wrt_append)
    with False Cons.prems(1) show ?thesis by (auto simp: filter_id_conv fun_eq_iff md_squashed_def)
  next
    case True
    from md_squash_inst_total [OF Cons.prems(1) l] obtain m1 where m1:
      "md_squash_inst tid h p m = Some m1" "md_ok h m1" "md_instList m1 = (md_instList m)(tid := rev older)"
      "memDepHash m1 = (memDepHash m)(seqNum (h p) := None)" "depPred m1 = depPred m"
      "instsToReplay m1 = instsToReplay m" "loadBarrierSN m1 = loadBarrierSN m"
      "storeBarrierSN m1 = storeBarrierSN m"
      "loadBarrier m1 = (loadBarrier m \<and> seqNum (h p) \<noteq> loadBarrierSN m)"
      "storeBarrier m1 = (storeBarrier m \<and> seqNum (h p) \<noteq> storeBarrierSN m)" by blast
    have "rev (md_instList m1 tid) = older" using m1(3) by simp
    from Cons.IH [OF m1(2) this] obtain m2 where m2: "md_squash_loop tid k h older m1 = Some m2"
      "md_ok h m2" "md_squashed k tid h m1 m2" "depPred m2 = depPred m1"
      "instsToReplay m2 = instsToReplay m1" by blast
    have "md_squashed k tid h m m2"
      using m2(3) True unfolding md_squashed_def m1 l by (auto simp: fun_eq_iff)
    with m1 m2 True show ?thesis by simp
  qed
qed

lemma md_squash_total:
  assumes ok: "md_ok h m"
  shows "\<exists>m'. md_squash k tid h m = Some m' \<and> md_ok h m' \<and> md_squashed k tid h m m' \<and>
     instsToReplay m' = filter (\<lambda>p. \<not> (threadNumber (h p) = tid \<and> seqNum (h p) > k)) (instsToReplay m)"
proof -
  let ?m = "m\<lparr>instsToReplay := filter (\<lambda>p. \<not> (threadNumber (h p) = tid \<and> seqNum (h p) > k)) (instsToReplay m)\<rparr>"
  have "md_ok h ?m" using ok by (simp add: md_ok_def)
  from md_squash_loop_total [OF this refl, of tid k] obtain m1 where
    m1: "md_squash_loop tid k h (rev (md_instList ?m tid)) ?m = Some m1" "md_ok h m1"
    "md_squashed k tid h ?m m1" "instsToReplay m1 = instsToReplay ?m" by blast
  obtain P where P: "ss_squash k (depPred m1) = Some P" "ss_ok P"
    using ss_squash_effect [OF md_okD(1) [OF m1(2)]] ss_squash_ok [OF md_okD(1) [OF m1(2)]] by blast
  have "md_squash k tid h m = Some (m1\<lparr>depPred := P\<rparr>)"
    using m1(1) P(1) by (simp add: md_squash_def Let_def)
  with md_ok_depPred [OF m1(2) P(2)] m1(3,4) show ?thesis by (auto simp: md_squashed_def)
qed

subsection \<open>Completing a barrier\<close>

lemma md_completeBarrier_total:
  assumes ok: "md_ok h m" and q: "rq_listed q" and e: "memDepHash m (seqNum (h b)) = Some e"
    and b: "e_inst (md_entry m e) = b" and bar: "sflag (h b) IsMemBarrier \<or> sflag (h b) IsWriteBarrier"
  shows "\<exists>q' m'. md_completeBarrier prio b (h, q, m) = Some (h, q', m') \<and> md_ok h m' \<and> rq_listed q' \<and>
     memDepHash m' = (memDepHash m)(seqNum (h b) := None) \<and> instsToReplay m' = instsToReplay m \<and>
     md_instList m' = (md_instList m)(threadNumber (h b) := remove1 b (md_instList m (threadNumber (h b)))) \<and>
     (\<forall>d\<in>set (dependInsts (md_entry m e)).
        e_regsReady (md_entry m d) \<and> \<not> e_squashed (md_entry m d) \<longrightarrow> on_ready h q' (e_inst (md_entry m d)))"
proof -
  from md_wakeDependents_total [OF ok q e, of prio] bar obtain q' m1 where
    1: "md_wakeDependents prio b (h, q, m) = Some (h, q', upd_md_entry e (\<lambda>x. x\<lparr>dependInsts := []\<rparr>) m1)"
    "md_ok h (upd_md_entry e (\<lambda>x. x\<lparr>dependInsts := []\<rparr>) m1)" "rq_listed q'" "md_frame m m1"
    "\<forall>d\<in>set (dependInsts (md_entry m e)). e_regsReady (md_entry m d) \<and> \<not> e_squashed (md_entry m d) \<longrightarrow>
       on_ready h q' (e_inst (md_entry m d))" by metis
  let ?m2 = "upd_md_entry e (\<lambda>x. x\<lparr>dependInsts := []\<rparr>) m1"
  have "b \<in> set (md_instList m (threadNumber (h b)))" using md_okD(2) [OF ok e] b by auto
  then have "b \<in> set (md_instList ?m2 (threadNumber (h b)))" using 1(4) by (simp add: md_frame_def)
  from md_completed_total [OF 1(2) this] obtain m3 where m3: "md_completed b (h, ?m2) = Some m3" "md_ok h m3"
    "memDepHash m3 = (memDepHash m)(seqNum (h b) := None)" "instsToReplay m3 = instsToReplay m"
    "md_instList m3 = (md_instList m)(threadNumber (h b) := remove1 b (md_instList m (threadNumber (h b))))"
    using 1(4) by (auto simp: md_frame_def)
  then show ?thesis
    using 1 by (auto simp: md_completeBarrier_def Let_def intro!: md_ok_barrier_fields)
qed

section \<open>Properties\<close>


definition demo_md :: MemDepUnit where
  "demo_md = md_init 250000 1024 1024"

definition demo_store :: inst_store where
  "demo_store = (\<lambda>_. sample_inst 0 {} {})(2 := sample_inst 5 {IsMemBarrier} {},
     3 := sample_inst 9 {IsMemBarrier} {}, 4 := sample_inst 10 {IsLoad} {CanIssue})"

lemma demo_md_ok [simp]: "md_ok demo_store demo_md"
  by (simp add: demo_md_def md_ok_init)

lemma demo_store_simps [simp]:
  "demo_store 2 = sample_inst 5 {IsMemBarrier} {}" "demo_store 3 = sample_inst 9 {IsMemBarrier} {}"
  "demo_store 4 = sample_inst 10 {IsLoad} {CanIssue}"
  by (simp_all add: demo_store_def)

lemma demo_fresh [simp]: "md_fresh demo_store p demo_md"
  by (simp add: md_fresh_def demo_md_def md_init_def ss_init_def)

definition demo_bar :: MemDepUnit where
  "demo_bar = snd (snd (md_insertBarrier 2 (demo_store, rq_init, demo_md)))"

lemma demo_bar: "md_insertBarrier 2 (demo_store, rq_init, demo_md) = (demo_store, rq_init, demo_bar)"
  by (simp add: demo_bar_def md_insertBarrier_def Let_def)


text \<open>
  C7. Squashing a younger memory barrier forgets an older one that is still in flight: the
  unit keeps one sequence number for the last barrier only, and the squash of that barrier
  clears the flag. A load inserted afterwards goes to the ready queues at once, although the
  older barrier has not completed.
\<close>

theorem squash_forgets_older_barrier:
  assumes ok: "md_ok h m" and q: "rq_listed q"
    and b1: "md_fresh h b1 m" "md_insertBarrier b1 (h, q, m) = (h, q, m1)"
    and b2: "md_fresh h b2 m1" "sflag (h b2) IsMemBarrier" "threadNumber (h b2) = tid"
      "md_insertBarrier b2 (h, q, m1) = (h, q, m2)"
    and k: "seqNum (h b1) \<le> k" "k < seqNum (h b2)"
    and sq: "md_squash k tid h m2 = Some m3"
    and p: "md_fresh h p m3" "sflag (h p) IsLoad" "has (h p) CanIssue" "\<not> sflag (h p) IsStore"
      "checkInst (instAddr (h p)) (depPred m3) = Some 0"
  shows "memDepHash m3 (seqNum (h b1)) \<noteq> None \<and>
     (\<exists>q4 m4. md_insert prio p (h, q, m3) = Some (h, q4, m4) \<and> on_ready h q4 p)"
proof -
  from md_insertBarrier_effect [OF ok b1(1), of q] b1(2) have m1: "md_ok h m1"
    "memDepHash m1 (seqNum (h b1)) = Some (nextEntry m)" by auto
  from md_insertBarrier_effect [OF m1(1) b2(1), of q] b2 have m2: "md_ok h m2"
    "memDepHash m2 = (memDepHash m1)(seqNum (h b2) \<mapsto> nextEntry m1)" "loadBarrierSN m2 = seqNum (h b2)"
    "b2 \<in> set (md_instList m2 tid)" by auto
  from md_squash_total [OF m2(1), of k tid] sq have m3: "md_ok h m3" "md_squashed k tid h m2 m3"
    by auto
  have "loadBarrierSN m2 \<in> (seqNum \<circ> h) ` set (md_instList m2 tid)" using m2(3,4) by auto
  with m3(2) k m2(3) have nb: "\<not> loadBarrier m3" by (simp add: md_squashed_def)
  have hash: "memDepHash m3 (seqNum (h b1)) \<noteq> None"
    using m3(2) k m2(2) m1(2) by (auto simp: md_squashed_def)
  have "waits_for h p m3 = None" using nb p by (simp add: waits_for_def producing_store_def)
  from md_insert_free [OF m3(1) p(1) q _ this, of prio] p obtain q4 m4 where
    "md_insert prio p (h, q, m3) = Some (h, q4, m4)" "push_ready h p q q4" by auto
  with hash show ?thesis by (auto simp: on_ready_def)
qed

definition demo_bar2 :: MemDepUnit where
  "demo_bar2 = snd (snd (md_insertBarrier 3 (demo_store, rq_init, demo_bar)))"

definition demo_sq :: MemDepUnit where
  "demo_sq = the (md_squash 7 0 demo_store demo_bar2)"

lemmas demo_md_defs = demo_bar2_def demo_bar_def demo_md_def md_init_def ss_init_def
  md_insertBarrier_def new_entry_def Let_def

lemma demo_bar2: "md_insertBarrier 3 (demo_store, rq_init, demo_bar) = (demo_store, rq_init, demo_bar2)"
  by (simp add: demo_bar2_def md_insertBarrier_def Let_def)

lemma demo_sq: "md_squash 7 0 demo_store demo_bar2 = Some demo_sq"
  "depPred demo_sq = depPred demo_md" "memDepHash demo_sq 10 = None" "md_instList demo_sq 0 = [2]"
  by (simp_all add: demo_sq_def md_squash_def md_squash_inst_def demo_md_defs ss_squash_def
      ss_squash_loop.simps upd_md_entry_def)

theorem squash_forgets_older_barrier_witness:
  "memDepHash demo_sq 5 \<noteq> None \<and>
   (\<exists>q4 m4. md_insert False 4 (demo_store, rq_init, demo_sq) = Some (demo_store, q4, m4) \<and>
      on_ready demo_store q4 4)"
proof -
  have f2: "md_fresh demo_store 3 demo_bar" by (simp add: md_fresh_def demo_md_defs)
  have f3: "md_fresh demo_store 4 demo_sq"
    by (simp add: md_fresh_def demo_sq demo_md_def md_init_def ss_init_def)
  have "checkInst PC (depPred demo_sq) = Some 0" for PC
    using calcIndex_bound [of "depPred demo_md" PC]
    by (simp add: demo_sq checkInst_def Let_def demo_md_def md_init_def ss_init_ok)
      (simp add: ss_init_def)
  then show ?thesis
    using squash_forgets_older_barrier [OF demo_md_ok rq_init_listed demo_fresh demo_bar f2 _ _ demo_bar2 _ _ demo_sq(1) f3, of False]
    by simp
qed

section \<open>No assertion of the unit fails\<close>

text \<open>
  The unit's calls as the instruction queue makes them, with what the queue guarantees for
  each: an inserted instruction is younger than all others of its thread, and the other
  calls are for instructions the unit holds.
\<close>

datatype md_op = MDInsert inst_ptr | MDInsertNonSpec inst_ptr | MDInsertBarrier inst_ptr
  | MDRegsReady inst_ptr | MDNonSpecInstReady inst_ptr | MDReschedule inst_ptr | MDReplay
  | MDWakeDependents inst_ptr | MDCompleted inst_ptr | MDCompleteBarrier inst_ptr
  | MDSquash InstSeqNum ThreadID | MDViolation inst_ptr inst_ptr | MDIssue inst_ptr

fun md_exec :: "bool \<Rightarrow> md_op \<Rightarrow> md_state \<Rightarrow> md_state option" where
  "md_exec prio (MDInsert p) s = md_insert prio p s"
| "md_exec prio (MDInsertNonSpec p) s = md_insertNonSpec p s"
| "md_exec prio (MDInsertBarrier p) s = Some (md_insertBarrier p s)"
| "md_exec prio (MDRegsReady p) s = md_regsReady prio p s"
| "md_exec prio (MDNonSpecInstReady p) s = md_nonSpecInstReady prio p s"
| "md_exec prio (MDReschedule p) (h, q, m) = Some (h, q, md_reschedule p m)"
| "md_exec prio MDReplay s = md_replay prio s"
| "md_exec prio (MDWakeDependents p) s = md_wakeDependents prio p s"
| "md_exec prio (MDCompleted p) (h, q, m) = map_option (\<lambda>m. (h, q, m)) (md_completed p (h, m))"
| "md_exec prio (MDCompleteBarrier p) s = md_completeBarrier prio p s"
| "md_exec prio (MDSquash k tid) (h, q, m) = map_option (\<lambda>m. (h, q, m)) (md_squash k tid h m)"
| "md_exec prio (MDViolation st ld) (h, q, m) = map_option (\<lambda>m. (h, q, m)) (md_violation st ld h m)"
| "md_exec prio (MDIssue p) (h, q, m) = map_option (\<lambda>m. (h, q, m)) (md_issue p h m)"

definition md_holds :: "inst_store \<Rightarrow> MemDepUnit \<Rightarrow> inst_ptr \<Rightarrow> bool" where
  "md_holds h m p \<longleftrightarrow> p \<in> set (md_instList m (threadNumber (h p)))"

fun md_pre :: "md_op \<Rightarrow> md_state \<Rightarrow> bool" where
  "md_pre (MDInsert p) (h, q, m) = (md_fresh h p m \<and> (sflag (h p) IsStore \<or> sflag (h p) IsLoad))"
| "md_pre (MDInsertNonSpec p) (h, q, m) = (md_fresh h p m \<and> (sflag (h p) IsStore \<or> sflag (h p) IsLoad))"
| "md_pre (MDInsertBarrier p) (h, q, m) = md_fresh h p m"
| "md_pre (MDRegsReady p) (h, q, m) = md_holds h m p"
| "md_pre (MDNonSpecInstReady p) (h, q, m) = md_holds h m p"
| "md_pre (MDReschedule p) (h, q, m) = md_holds h m p"
| "md_pre MDReplay s = True"
| "md_pre (MDWakeDependents p) (h, q, m) = md_holds h m p"
| "md_pre (MDCompleted p) (h, q, m) = (md_holds h m p \<and> p \<notin> set (instsToReplay m))"
| "md_pre (MDCompleteBarrier p) (h, q, m) = (md_holds h m p \<and> p \<notin> set (instsToReplay m) \<and>
     (sflag (h p) IsMemBarrier \<or> sflag (h p) IsWriteBarrier))"
| "md_pre (MDSquash k tid) s = True"
| "md_pre (MDViolation st ld) s = True"
| "md_pre (MDIssue p) s = True"

fun md_inv :: "md_state \<Rightarrow> bool" where
  "md_inv (h, q, m) \<longleftrightarrow> md_ok h m \<and> rq_listed q \<and> (\<forall>p\<in>set (instsToReplay m). md_holds h m p)"

lemma md_holds_entry:
  assumes "md_ok h m" and "md_holds h m p"
  obtains e where "memDepHash m (seqNum (h p)) = Some e" "e_inst (md_entry m e) = p"
    "\<not> e_squashed (md_entry m e)"
  using md_okD(4) [OF assms(1), of p "threadNumber (h p)"] md_okD(2) [OF assms(1)] assms(2)
  by (metis md_holds_def)

lemma md_exec_insert:
  assumes "md_inv (h, q, m)" and "md_pre (MDInsert p) (h, q, m)"
  shows "\<exists>s'. md_insert prio p (h, q, m) = Some s' \<and> md_inv s'"
proof (cases "waits_for h p m")
  case None
  with md_insert_free [of h m p q prio] assms obtain q' m' where
    "md_insert prio p (h, q, m) = Some (h, q', m')" "md_ok h m'" "rq_listed q'"
    "instsToReplay m' = instsToReplay m"
    "md_instList m' = (md_instList m)(threadNumber (h p) := md_instList m (threadNumber (h p)) @ [p])"
    by auto
  with assms(1) show ?thesis by (auto simp: md_holds_def)
next
  case (Some st)
  let ?h = "upd_inst p (reset_status CanIssue) h"
  from md_insert_waits [OF _ _ _ Some, of prio q] assms obtain m' where
    m': "md_insert prio p (h, q, m) = Some (?h, q, m')" "md_ok h m'" "instsToReplay m' = instsToReplay m"
    "md_instList m' = (md_instList m)(threadNumber (h p) := md_instList m (threadNumber (h p)) @ [p])"
    by auto
  have ids: "seqNum (?h x) = seqNum (h x) \<and> threadNumber (?h x) = threadNumber (h x)" for x
    by (simp add: upd_inst_apply reset_status_def)
  with m'(2) have "md_ok ?h m'" using md_ok_cong by blast
  with m' assms(1) ids show ?thesis by (auto simp: md_holds_def)
qed

lemma md_nonSpecInstReady_total:
  assumes "md_ok h m" and "rq_listed q" and "md_holds h m p"
  shows "\<exists>q'. md_nonSpecInstReady prio p (h, q, m) = Some (h, q', m) \<and> rq_listed q' \<and> push_ready h p q q'"
proof -
  obtain e where e: "memDepHash m (seqNum (h p)) = Some e" "e_inst (md_entry m e) = p"
    "\<not> e_squashed (md_entry m e)" using md_holds_entry [OF assms(1,3)] .
  with moveToReady_total [OF assms(2) e(3), of prio h] show ?thesis
    by (auto simp: md_nonSpecInstReady_def findInHash_def)
qed

lemma md_replay_loop:
  assumes "md_ok h m" and "rq_listed q" and "\<forall>p\<in>set ps. md_holds h m p"
  shows "\<exists>q'. foldM (md_nonSpecInstReady prio) ps (h, q, m) = Some (h, q', m) \<and> rq_listed q' \<and>
     (\<forall>r. on_ready h q' r = (on_ready h q r \<or> r \<in> set ps))"
  using assms
proof (induction ps arbitrary: q)
  case Nil
  then show ?case by auto
next
  case (Cons p ps)
  obtain q1 where q1: "md_nonSpecInstReady prio p (h, q, m) = Some (h, q1, m)" "rq_listed q1"
    "push_ready h p q q1" using md_nonSpecInstReady_total Cons.prems by (metis list.set_intros(1))
  with Cons.IH [of q1] Cons.prems on_ready_push [where h = h and p = p and q = q and q' = q1]
  show ?case by auto
qed

lemma md_exec_squash:
  assumes "md_inv (h, q, m)"
  shows "\<exists>s'. md_exec prio (MDSquash k tid) (h, q, m) = Some s' \<and> md_inv s'"
proof -
  from md_squash_total [of h m k tid] assms obtain m' where m': "md_squash k tid h m = Some m'"
    "md_ok h m'" "md_squashed k tid h m m'"
    "instsToReplay m' = filter (\<lambda>p. \<not> (threadNumber (h p) = tid \<and> seqNum (h p) > k)) (instsToReplay m)"
    by auto
  with assms show ?thesis by (auto simp: md_holds_def md_squashed_def)
qed

lemma md_exec_completed:
  assumes "md_inv (h, q, m)" and "md_pre (MDCompleted p) (h, q, m)"
  shows "\<exists>s'. md_exec prio (MDCompleted p) (h, q, m) = Some s' \<and> md_inv s'"
proof -
  from md_completed_total [of h m p] assms obtain m' where "md_completed p (h, m) = Some m'" "md_ok h m'"
    "m' = m\<lparr>md_instList := (md_instList m)(threadNumber (h p) := remove1 p (md_instList m (threadNumber (h p)))),
            memDepHash := (memDepHash m)(seqNum (h p) := None)\<rparr>" by (auto simp: md_holds_def)
  with assms show ?thesis by (auto simp: md_holds_def) (metis in_set_remove1)+
qed

lemma md_exec_completeBarrier:
  assumes "md_inv (h, q, m)" and "md_pre (MDCompleteBarrier p) (h, q, m)"
  shows "\<exists>s'. md_exec prio (MDCompleteBarrier p) (h, q, m) = Some s' \<and> md_inv s'"
proof -
  obtain e where e: "memDepHash m (seqNum (h p)) = Some e" "e_inst (md_entry m e) = p"
    using md_holds_entry [of h m p] assms by auto
  with md_completeBarrier_total [of h m q p e prio] assms obtain q' m' where
    "md_completeBarrier prio p (h, q, m) = Some (h, q', m')" "md_ok h m'" "rq_listed q'"
    "instsToReplay m' = instsToReplay m"
    "md_instList m' = (md_instList m)(threadNumber (h p) := remove1 p (md_instList m (threadNumber (h p))))"
    by auto
  with assms show ?thesis by (auto simp: md_holds_def) (metis in_set_remove1)+
qed

lemma md_exec_wakeDependents:
  assumes "md_inv (h, q, m)" and "md_pre (MDWakeDependents p) (h, q, m)"
  shows "\<exists>s'. md_exec prio (MDWakeDependents p) (h, q, m) = Some s' \<and> md_inv s'"
proof (cases "sflag (h p) IsStore \<or> sflag (h p) IsMemBarrier \<or> sflag (h p) IsWriteBarrier")
  case False
  with assms show ?thesis by (simp add: md_wakeDependents_def)
next
  case True
  obtain e where e: "memDepHash m (seqNum (h p)) = Some e" using md_holds_entry [of h m p] assms by auto
  with md_wakeDependents_total [of h m q p e prio] True assms obtain q' m1 where
    "md_wakeDependents prio p (h, q, m) = Some (h, q', upd_md_entry e (\<lambda>x. x\<lparr>dependInsts := []\<rparr>) m1)"
    "md_ok h (upd_md_entry e (\<lambda>x. x\<lparr>dependInsts := []\<rparr>) m1)" "rq_listed q'" "md_frame m m1" by auto
  with assms show ?thesis by (auto simp: md_holds_def md_frame_def)
qed

lemma md_exec_regsReady:
  assumes "md_inv (h, q, m)" and "md_pre (MDRegsReady p) (h, q, m)"
  shows "\<exists>s'. md_exec prio (MDRegsReady p) (h, q, m) = Some s' \<and> md_inv s'"
proof -
  obtain e where e: "memDepHash m (seqNum (h p)) = Some e" using md_holds_entry [of h m p] assms by auto
  with md_regsReady_total [of h m q p e prio] assms obtain q' where
    "md_regsReady prio p (h, q, m) = Some (h, q', upd_md_entry e (\<lambda>x. x\<lparr>e_regsReady := True\<rparr>) m)"
    "md_ok h (upd_md_entry e (\<lambda>x. x\<lparr>e_regsReady := True\<rparr>) m)" "rq_listed q'" by auto
  with assms show ?thesis by (auto simp: md_holds_def)
qed

lemma md_exec_replay:
  assumes "md_inv (h, q, m)"
  shows "\<exists>s'. md_exec prio MDReplay (h, q, m) = Some s' \<and> md_inv s'"
proof -
  from md_replay_loop [of h m q "instsToReplay m" prio] assms obtain q' where
    "foldM (md_nonSpecInstReady prio) (instsToReplay m) (h, q, m) = Some (h, q', m)" "rq_listed q'" by auto
  moreover have "md_ok h (m\<lparr>instsToReplay := []\<rparr>)"
    using assms by (auto intro: md_ok_fields)
  ultimately show ?thesis by (simp add: md_replay_def)
qed

lemma md_exec_predictor:
  assumes "md_inv (h, q, m)"
  shows "\<exists>s'. md_exec prio (MDViolation st ld) (h, q, m) = Some s' \<and> md_inv s'"
    and "\<exists>s'. md_exec prio (MDIssue p) (h, q, m) = Some s' \<and> md_inv s'"
proof -
  have ok: "md_ok h m" and ss: "ss_ok (depPred m)" using assms md_okD(1) by auto
  obtain P where "ss_violation (instAddr (h st)) (instAddr (h ld)) (depPred m) = Some P" "ss_ok P"
    using ss_violation_shares [OF ss] by blast
  with md_ok_depPred [OF ok this(2)] assms
  show "\<exists>s'. md_exec prio (MDViolation st ld) (h, q, m) = Some s' \<and> md_inv s'"
    by (simp add: md_violation_def md_holds_def)
  obtain P where "ss_issued (instAddr (h p)) (seqNum (h p)) (sflag (h p) IsStore) (depPred m) = Some P"
    "ss_ok P" using ss_issued_effect [OF ss] by blast
  with md_ok_depPred [OF ok this(2)] assms
  show "\<exists>s'. md_exec prio (MDIssue p) (h, q, m) = Some s' \<and> md_inv s'"
    by (simp add: md_issue_def md_holds_def)
qed

lemma md_exec_total:
  assumes "md_inv s" and "md_pre a s"
  shows "\<exists>s'. md_exec prio a s = Some s' \<and> md_inv s'"
proof -
  obtain h q m where s: "s = (h, q, m)" by (cases s)
  note inv = assms(1) [unfolded s] and pre = assms(2) [unfolded s]
  show ?thesis unfolding s
  proof (cases a)
    case (MDInsert p)
    with md_exec_insert inv pre show "\<exists>s'. md_exec prio a (h, q, m) = Some s' \<and> md_inv s'" by simp
  next
    case (MDInsertNonSpec p)
    with inv pre md_insertNonSpec_total [of h m p q]
    show "\<exists>s'. md_exec prio a (h, q, m) = Some s' \<and> md_inv s'" by (auto simp: md_holds_def) metis+
  next
    case (MDInsertBarrier p)
    with inv pre md_insertBarrier_effect [of h m p q]
    show "\<exists>s'. md_exec prio a (h, q, m) = Some s' \<and> md_inv s'" by (auto simp: md_holds_def) metis+
  next
    case (MDNonSpecInstReady p)
    with inv pre md_nonSpecInstReady_total [of h m q p prio]
    show "\<exists>s'. md_exec prio a (h, q, m) = Some s' \<and> md_inv s'" by auto
  next
    case (MDReschedule p)
    with inv pre show "\<exists>s'. md_exec prio a (h, q, m) = Some s' \<and> md_inv s'"
      by (auto simp: md_reschedule_def md_holds_def intro: md_ok_fields)
  qed (use inv pre in \<open>auto simp del: md_inv.simps md_exec.simps md_pre.simps split_paired_Ex
    intro: md_exec_regsReady md_exec_replay md_exec_wakeDependents md_exec_completeBarrier
      md_exec_squash md_exec_completed md_exec_predictor\<close>)
qed

text \<open>Any sequence of calls, each made in a state that satisfies its precondition.\<close>

fun md_run_ok :: "bool \<Rightarrow> md_op list \<Rightarrow> md_state \<Rightarrow> bool" where
  "md_run_ok prio [] s = True"
| "md_run_ok prio (a # as) s =
     (md_pre a s \<longrightarrow> (case md_exec prio a s of None \<Rightarrow> False | Some s' \<Rightarrow> md_inv s' \<and> md_run_ok prio as s'))"

text \<open>
  C6. From a unit that has just been initialised, no sequence of calls whose arguments meet
  the instruction queue's obligations runs into a failing assertion, a panic or an endless
  squash, and the unit's invariant holds after every call: the hash table binds exactly the
  listed instructions to live entries, in program order per thread.
\<close>

theorem md_never_fails:
  assumes "0 < i" "i < 2 ^ 31" "0 < l" "l < 2 ^ 31"
  shows "md_inv (h, rq_init, md_init cp i l) \<and> md_run_ok prio ops (h, rq_init, md_init cp i l)"
proof -
  have run: "md_inv s \<Longrightarrow> md_run_ok prio ops s" for s
  proof (induction ops arbitrary: s)
    case (Cons a as)
    then show ?case
      using md_exec_total [of s a prio] by auto
  qed simp
  have "md_inv (h, rq_init, md_init cp i l)"
    using assms by (simp add: md_ok_init) (simp add: md_init_def)
  with run show ?thesis by blast
qed

theorem md_never_fails_witness:
  "md_inv (demo_store, rq_init, md_init 250000 1024 1024) \<and>
   md_run_ok False [MDInsertBarrier 2, MDInsert 4, MDRegsReady 4, MDSquash 7 0, MDCompleteBarrier 2]
     (demo_store, rq_init, md_init 250000 1024 1024)"
  by (rule md_never_fails) simp_all

end
