(* ===== verification/InstQueue.thy ===== *)
theory InstQueue
  imports DepGraph FUPool MemDepUnit
begin

text \<open>
  The instruction queue (\<open>cpu/o3/inst_queue.hh\<close>, \<open>cpu/o3/inst_queue_impl.hh\<close>): it holds the
  dispatched instructions until their operands are ready, issues them to the functional
  units oldest first, and wakes the dependents of a completed instruction. Its parts are the
  ready queues, the dependency graph, the functional unit pool and one memory dependence
  unit per thread.

  The unsigned counters \<open>count\<close> and \<open>freeEntries\<close> are integers here. Statistics are left out.
\<close>

section \<open>State\<close>

datatype IQPolicy = Dynamic | Partitioned | Threshold

text \<open>A functional unit completion event that is scheduled and has not fired.\<close>

record FUCompletion =
  fuc_inst :: inst_ptr
  fuIdx :: nat
  freeFU :: bool
  fuc_delay :: nat

record InstructionQueue =
  rq :: ReadyQueues
  dependGraph :: DependencyGraph
  regScoreboard :: "nat \<Rightarrow> bool"
  regToProducerInst :: "nat \<Rightarrow> inst_ptr option"
  memDepUnit :: "ThreadID \<Rightarrow> MemDepUnit"
  fuPool :: FUPool
  pendingFU :: "FUCompletion list"
  wbOutstanding :: int
  iq_instList :: "ThreadID \<Rightarrow> inst_ptr list"
  instsToExecute :: "inst_ptr list"
  deferredMemInsts :: "inst_ptr list"
  blockedMemInsts :: "inst_ptr list"
  retryMemInsts :: "inst_ptr list"
  nonSpecInsts :: "InstSeqNum \<rightharpoonup> inst_ptr"
  iq_count :: "ThreadID \<Rightarrow> int"
  freeEntries :: int
  iq_maxEntries :: "ThreadID \<Rightarrow> int"
  squashedSeqNum :: "ThreadID \<Rightarrow> InstSeqNum"
  iqPolicy :: IQPolicy
  iq_numThreads :: nat
  iq_numEntries :: int
  iq_numPhysRegs :: nat
  totalWidth :: nat

type_synonym iq_state = "inst_store \<times> InstructionQueue"

section \<open>Capacity\<close>

definition iq_resetState :: "InstructionQueue \<Rightarrow> InstructionQueue" where
  "iq_resetState q =
     (let T = iq_numThreads q in
      q\<lparr>iq_count := (\<lambda>t. if t < T then 0 else iq_count q t),
        iq_instList := (\<lambda>t. if t < T then [] else iq_instList q t),
        freeEntries := iq_numEntries q,
        regScoreboard := (\<lambda>i. if i < iq_numPhysRegs q then False else regScoreboard q i),
        squashedSeqNum := (\<lambda>t. if t < T then 0 else squashedSeqNum q t),
        rq := rq_init, nonSpecInsts := Map.empty, deferredMemInsts := [], blockedMemInsts := [],
        retryMemInsts := [], wbOutstanding := 0\<rparr>)"

definition iq_entryAmount :: "ThreadID \<Rightarrow> InstructionQueue \<Rightarrow> int" where
  "iq_entryAmount num_threads q =
     (if iqPolicy q = Partitioned then iq_numEntries q div int num_threads else 0)"

definition iq_resetEntries :: "ThreadID list \<Rightarrow> InstructionQueue \<Rightarrow> InstructionQueue" where
  "iq_resetEntries activeThreads q =
     (if iqPolicy q \<noteq> Dynamic \<or> iq_numThreads q > 1
      then let active = int (length activeThreads) in
        fold (\<lambda>tid q.
          if iqPolicy q = Partitioned
          then q\<lparr>iq_maxEntries := (iq_maxEntries q)(tid := iq_numEntries q div active)\<rparr>
          else if iqPolicy q = Threshold \<and> active = 1
          then q\<lparr>iq_maxEntries := (iq_maxEntries q)(tid := iq_numEntries q)\<rparr>
          else q) activeThreads q
      else q)"

definition iq_numFreeEntries_tid :: "ThreadID \<Rightarrow> InstructionQueue \<Rightarrow> int" where
  "iq_numFreeEntries_tid tid q = iq_maxEntries q tid - iq_count q tid"

definition iq_isFull :: "InstructionQueue \<Rightarrow> bool" where
  "iq_isFull q \<longleftrightarrow> freeEntries q = 0"

definition iq_isFull_tid :: "ThreadID \<Rightarrow> InstructionQueue \<Rightarrow> bool" where
  "iq_isFull_tid tid q \<longleftrightarrow> iq_numFreeEntries_tid tid q = 0"

definition countInsts :: "InstructionQueue \<Rightarrow> int" where
  "countInsts q = iq_numEntries q - freeEntries q"

definition hasReadyInsts :: "nat \<Rightarrow> InstructionQueue \<Rightarrow> bool" where
  "hasReadyInsts Num_OpClasses q \<longleftrightarrow>
     listOrder (rq q) \<noteq> [] \<or> list_ex (\<lambda>c. readyInsts (rq q) c \<noteq> []) [0..<Num_OpClasses]"

definition iq_isDrained :: "nat \<Rightarrow> InstructionQueue \<Rightarrow> bool" where
  "iq_isDrained MaxThreads q \<longleftrightarrow>
     dg_empty (dependGraph q) \<and> instsToExecute q = [] \<and> wbOutstanding q = 0 \<and>
     list_all (\<lambda>tid. md_isDrained MaxThreads (memDepUnit q tid)) [0..<iq_numThreads q]"

section \<open>Inserting instructions\<close>

text \<open>A call of a memory dependence unit from the queue.\<close>

definition with_md ::
  "ThreadID \<Rightarrow> (md_state \<Rightarrow> md_state option) \<Rightarrow> iq_state \<Rightarrow> iq_state option" where
  "with_md tid f s =
     (case s of (h, q) \<Rightarrow> do {
        (h, r, m) \<leftarrow> f (h, rq q, memDepUnit q tid);
        Some (h, q\<lparr>rq := r, memDepUnit := (memDepUnit q)(tid := m)\<rparr>)
      })"

text \<open>One source operand of \<open>addToDependents\<close>.\<close>

definition add_source :: "inst_ptr \<Rightarrow> nat \<Rightarrow> iq_state \<Rightarrow> iq_state option" where
  "add_source p idx s =
     (case s of (h, q) \<Rightarrow>
        if idx \<in> readySrcRegIdx (h p) then Some (h, q)
        else let src_reg = srcRegIdx (h p) idx in
          if isFixedMapping src_reg then Some (h, q)
          else if \<not> regScoreboard q (flatIdx src_reg)
          then Some (h, q\<lparr>dependGraph := dg_insert (flatIdx src_reg) p (dependGraph q)\<rparr>)
          else do {
            h \<leftarrow> updM_inst p (markSrcRegReady_idx idx) h;
            Some (h, q)
          })"

definition addToDependents :: "inst_ptr \<Rightarrow> iq_state \<Rightarrow> iq_state option" where
  "addToDependents p s =
     (case s of (h, q) \<Rightarrow> foldM (add_source p) [0..<numSrcRegs (h p)] (h, q))"

definition add_producer :: "inst_ptr \<Rightarrow> PhysRegId \<Rightarrow> InstructionQueue \<Rightarrow> InstructionQueue option" where
  "add_producer p dest_reg q =
     (if isFixedMapping dest_reg then Some q
      else do {
        assert_that (dg_empty_at (flatIdx dest_reg) (dependGraph q));
        Some (q\<lparr>dependGraph := setInst (flatIdx dest_reg) p (dependGraph q),
                regScoreboard := (regScoreboard q)(flatIdx dest_reg := False),
                regToProducerInst := (regToProducerInst q)(flatIdx dest_reg := Some p)\<rparr>)
      })"

definition addToProducers :: "inst_ptr \<Rightarrow> iq_state \<Rightarrow> iq_state option" where
  "addToProducers p s =
     (case s of (h, q) \<Rightarrow> do {
        q \<leftarrow> foldM (add_producer p) (dest_regs (h p)) q;
        Some (h, q)
      })"

definition addIfReady :: "cd_flags \<Rightarrow> inst_ptr \<Rightarrow> iq_state \<Rightarrow> iq_state option" where
  "addIfReady fl p s =
     (case s of (h, q) \<Rightarrow>
        if has (h p) CanIssue
        then if sflag (h p) IsMemRef
             then with_md (threadNumber (h p)) (md_regsReady (CD_Prioritize_Branch_Execution fl) p) (h, q)
             else do {
               r \<leftarrow> addReadyMemInst (CD_Prioritize_Branch_Execution fl) h p (rq q);
               Some (h, q\<lparr>rq := r\<rparr>)
             }
        else Some (h, q))"

text \<open>The part of the inserts that claims an entry.\<close>

definition claim_entry :: "inst_ptr \<Rightarrow> iq_state \<Rightarrow> iq_state option" where
  "claim_entry p s =
     (case s of (h, q) \<Rightarrow>
        let tid = threadNumber (h p) in do {
          assert_that (freeEntries q \<noteq> 0);
          Some (upd_inst p (set_status IqEntry) h,
                q\<lparr>iq_instList := (iq_instList q)(tid := iq_instList q tid @ [p]),
                  freeEntries := freeEntries q - 1\<rparr>)
        })"

definition count_up :: "inst_ptr \<Rightarrow> iq_state \<Rightarrow> iq_state option" where
  "count_up p s =
     (case s of (h, q) \<Rightarrow>
        let tid = threadNumber (h p);
            q = q\<lparr>iq_count := (iq_count q)(tid := iq_count q tid + 1)\<rparr>
        in do {
          assert_that (freeEntries q = iq_numEntries q - countInsts q);
          Some (h, q)
        })"

definition iq_insert :: "cd_flags \<Rightarrow> inst_ptr \<Rightarrow> iq_state \<Rightarrow> iq_state option" where
  "iq_insert fl p s =
     do {
       s \<leftarrow> claim_entry p s;
       s \<leftarrow> addToDependents p s;
       (h, q) \<leftarrow> addToProducers p s;
       s \<leftarrow> (if sflag (h p) IsMemRef
             then with_md (threadNumber (h p)) (md_insert (CD_Prioritize_Branch_Execution fl) p) (h, q)
             else addIfReady fl p (h, q));
       count_up p s
     }"

definition iq_insertNonSpec :: "inst_ptr \<Rightarrow> iq_state \<Rightarrow> iq_state option" where
  "iq_insertNonSpec p s =
     (case s of (h, q) \<Rightarrow> do {
        s \<leftarrow> claim_entry p (h, q\<lparr>nonSpecInsts := (nonSpecInsts q)(seqNum (h p) \<mapsto> p)\<rparr>);
        (h, q) \<leftarrow> addToProducers p s;
        s \<leftarrow> (if sflag (h p) IsMemRef
              then with_md (threadNumber (h p)) (md_insertNonSpec p) (h, q)
              else Some (h, q));
        count_up p s
      })"

definition iq_insertBarrier :: "inst_ptr \<Rightarrow> iq_state \<Rightarrow> iq_state option" where
  "iq_insertBarrier p s =
     do {
       s \<leftarrow> with_md (threadNumber (fst s p)) (\<lambda>m. Some (md_insertBarrier p m)) s;
       iq_insertNonSpec p s
     }"

section \<open>Issue\<close>

definition getInstToExecute :: "InstructionQueue \<Rightarrow> (inst_ptr \<times> InstructionQueue) option" where
  "getInstToExecute q =
     (case instsToExecute q of
        [] \<Rightarrow> None
      | p # ps \<Rightarrow> Some (p, q\<lparr>instsToExecute := ps\<rparr>))"

definition processFUCompletion :: "FUCompletion \<Rightarrow> InstructionQueue \<Rightarrow> InstructionQueue option" where
  "processFUCompletion ev q =
     do {
       P \<leftarrow> (if freeFU ev then freeUnitNextCycle (fuIdx ev) (fuPool q) else Some (fuPool q));
       Some (q\<lparr>pendingFU := remove1 ev (pendingFU q), wbOutstanding := wbOutstanding q - 1,
               fuPool := P, instsToExecute := instsToExecute q @ [fuc_inst ev]\<rparr>)
     }"

definition getDeferredMemInstToExecute ::
  "inst_store \<Rightarrow> InstructionQueue \<Rightarrow> (inst_ptr \<times> InstructionQueue) option" where
  "getDeferredMemInstToExecute h q =
     (case List.extract (\<lambda>p. TranslationCompleted \<in> instFlags (h p) \<or> has (h p) Squashed)
             (deferredMemInsts q) of
        None \<Rightarrow> None
      | Some (ys, p, zs) \<Rightarrow> Some (p, q\<lparr>deferredMemInsts := ys @ zs\<rparr>))"

definition getBlockedMemInstToExecute ::
  "InstructionQueue \<Rightarrow> (inst_ptr \<times> InstructionQueue) option" where
  "getBlockedMemInstToExecute q =
     (case retryMemInsts q of
        [] \<Rightarrow> None
      | p # ps \<Rightarrow> Some (p, q\<lparr>retryMemInsts := ps\<rparr>))"

lemma getDeferred_shorter:
  "getDeferredMemInstToExecute h q = Some (p, q') \<Longrightarrow>
     length (deferredMemInsts q') < length (deferredMemInsts q)"
  by (auto simp: getDeferredMemInstToExecute_def extract_Some_iff split: option.splits)

lemma getBlocked_shorter:
  "getBlockedMemInstToExecute q = Some (p, q') \<Longrightarrow> length (retryMemInsts q') < length (retryMemInsts q)"
  by (auto simp: getBlockedMemInstToExecute_def split: list.splits)

text \<open>The two loops that move waiting memory instructions back to the ready queues.\<close>

function retry_deferred :: "bool \<Rightarrow> inst_store \<Rightarrow> InstructionQueue \<Rightarrow> InstructionQueue option" where
  "retry_deferred prio h q =
     (case getDeferredMemInstToExecute h q of
        None \<Rightarrow> Some q
      | Some (p, q') \<Rightarrow>
          (case addReadyMemInst prio h p (rq q') of
             None \<Rightarrow> None
           | Some r \<Rightarrow> retry_deferred prio h (q'\<lparr>rq := r\<rparr>)))"
  by pat_completeness auto
termination
  by (relation "measure (\<lambda>(prio, h, q). length (deferredMemInsts q))") (auto dest: getDeferred_shorter)

function retry_blocked :: "bool \<Rightarrow> inst_store \<Rightarrow> InstructionQueue \<Rightarrow> InstructionQueue option" where
  "retry_blocked prio h q =
     (case getBlockedMemInstToExecute q of
        None \<Rightarrow> Some q
      | Some (p, q') \<Rightarrow>
          (case addReadyMemInst prio h p (rq q') of
             None \<Rightarrow> None
           | Some r \<Rightarrow> retry_blocked prio h (q'\<lparr>rq := r\<rparr>)))"
  by pat_completeness auto
termination
  by (relation "measure (\<lambda>(prio, h, q). length (retryMemInsts q))") (auto dest: getBlocked_shorter)

declare retry_deferred.simps [simp del] retry_blocked.simps [simp del]

text \<open>
  Popping the top of a class's queue while the order list is at the class's entry: the class
  is listed again behind its next instruction, or taken off the list. \<open>post\<close> is the part of
  the order list after the entry.
\<close>

definition pop_ready ::
  "bool \<Rightarrow> inst_store \<Rightarrow> nat \<Rightarrow> ListOrderEntry list \<Rightarrow> ReadyQueues \<Rightarrow>
     (ListOrderEntry list \<times> ReadyQueues) option" where
  "pop_ready prio h c post r =
     (let ready = pq_pop (pqCompare prio h) (readyInsts r c);
          r = r\<lparr>readyInsts := (readyInsts r)(c := ready)\<rparr>
      in if ready \<noteq> []
         then do {
           post \<leftarrow> moveToYoungerInst prio h c ready post;
           Some (post, r)
         }
         else Some (post, r\<lparr>queueOnList := (queueOnList r)(c := False)\<rparr>))"

text \<open>Sending an instruction to its functional unit, or to execution directly.\<close>

definition start_execution ::
  "inst_ptr \<Rightarrow> nat \<Rightarrow> int \<Rightarrow> nat \<Rightarrow> InstructionQueue \<Rightarrow> InstructionQueue option" where
  "start_execution p c idx op_latency q =
     (if op_latency = 1
      then do {
        P \<leftarrow> (if idx \<ge> 0 then freeUnitNextCycle (nat idx) (fuPool q) else Some (fuPool q));
        Some (q\<lparr>instsToExecute := instsToExecute q @ [p], fuPool := P\<rparr>)
      }
      else do {
        let pl = poolPipelined (fuPool q) c;
        P \<leftarrow> (if pl then freeUnitNextCycle (nat idx) (fuPool q) else Some (fuPool q));
        Some (q\<lparr>wbOutstanding := wbOutstanding q + 1,
                pendingFU := pendingFU q @
                  [\<lparr>fuc_inst = p, fuIdx = nat idx, freeFU = \<not> pl, fuc_delay = op_latency - 1\<rparr>],
                fuPool := P\<rparr>)
      })"

text \<open>
  After issue: an instruction that is not a memory reference leaves the queue; a memory
  reference stays until it completes.
\<close>

definition leave_or_issue :: "inst_ptr \<Rightarrow> iq_state \<Rightarrow> iq_state option" where
  "leave_or_issue p s =
     (case s of (h, q) \<Rightarrow>
        let tid = threadNumber (h p) in
        if \<not> sflag (h p) IsMemRef
        then Some (upd_inst p (reset_status IqEntry) h,
                   q\<lparr>freeEntries := freeEntries q + 1,
                     iq_count := (iq_count q)(tid := iq_count q tid - 1)\<rparr>)
        else do {
          m \<leftarrow> md_issue p h (memDepUnit q tid);
          Some (h, q\<lparr>memDepUnit := (memDepUnit q)(tid := m)\<rparr>)
        })"

text \<open>
  One iteration of the issue loop. The order list is split at the loop's iterator; the third
  component counts the issued instructions. Operation class 0 is \<open>No_OpClass\<close>.
\<close>

type_synonym issue_state =
  "ListOrderEntry list \<times> ListOrderEntry list \<times> nat \<times> inst_store \<times> InstructionQueue"

fun issue_step :: "cd_flags \<Rightarrow> issue_state \<Rightarrow> issue_state option" where
  "issue_step fl (pre, [], n, h, q) = None"
| "issue_step fl (pre, e # post, n, h, q) =
     (let prio = CD_Prioritize_Branch_Execution fl; c = queueType e in
      do {
        p \<leftarrow> pq_top (pqCompare prio h) (readyInsts (rq q) c);
        if has (h p) Squashed
        then do {
          (post, r) \<leftarrow> pop_ready prio h c post (rq q);
          Some (pre, post, n, h, q\<lparr>rq := r\<rparr>)
        }
        else do {
          (idx, P) \<leftarrow> (if c \<noteq> 0 then getUnit c (fuPool q) else Some (NoCapableFU, fuPool q));
          let op_latency = (if idx > NoFreeFU then maxOpLatencies P c else 1);
          if idx \<noteq> NoFreeFU
          then do {
            let h = upd_inst p (set_status Executing) h;
            q \<leftarrow> start_execution p c idx op_latency (q\<lparr>fuPool := P\<rparr>);
            (post, r) \<leftarrow> pop_ready prio h c post (rq q);
            let h = upd_inst p (set_status Issued) h;
            (h, q) \<leftarrow> leave_or_issue p (h, q\<lparr>rq := r\<rparr>);
            Some (pre, post, n + 1, h, q)
          }
          else Some (pre @ [e], post, n, h, q\<lparr>fuPool := P\<rparr>)
        }
      })"

partial_function (option) issue_loop :: "cd_flags \<Rightarrow> issue_state \<Rightarrow> issue_state option" where
  "issue_loop fl s =
     (case s of (pre, post, n, h, q) \<Rightarrow>
        if n < totalWidth q \<and> post \<noteq> []
        then Option.bind (issue_step fl s) (issue_loop fl)
        else Some s)"

text \<open>The result is the number of issued instructions and the new state.\<close>

definition scheduleReadyInsts :: "cd_flags \<Rightarrow> iq_state \<Rightarrow> (nat \<times> iq_state) option" where
  "scheduleReadyInsts fl s =
     (case s of (h, q) \<Rightarrow>
        let prio = CD_Prioritize_Branch_Execution fl in
        do {
          q \<leftarrow> retry_deferred prio h q;
          q \<leftarrow> retry_blocked prio h q;
          (pre, post, n, h, q) \<leftarrow> issue_loop fl ([], listOrder (rq q), 0, h, q);
          Some (n, h, q\<lparr>rq := (rq q)\<lparr>listOrder := pre @ post\<rparr>\<rparr>)
        })"

definition scheduleNonSpec :: "cd_flags \<Rightarrow> InstSeqNum \<Rightarrow> iq_state \<Rightarrow> iq_state option" where
  "scheduleNonSpec fl sn s =
     (case s of (h, q) \<Rightarrow> do {
        p \<leftarrow> nonSpecInsts q sn;
        let h = upd_inst p (set_status CanIssue) (upd_inst p (set_status AtCommit) h);
        (h, q) \<leftarrow> (if \<not> sflag (h p) IsMemRef then addIfReady fl p (h, q)
                   else with_md (threadNumber (h p))
                          (md_nonSpecInstReady (CD_Prioritize_Branch_Execution fl) p) (h, q));
        Some (h, q\<lparr>nonSpecInsts := (nonSpecInsts q)(sn := None)\<rparr>)
      })"

definition iq_commit :: "InstSeqNum \<Rightarrow> ThreadID \<Rightarrow> iq_state \<Rightarrow> InstructionQueue option" where
  "iq_commit sn tid s =
     (case s of (h, q) \<Rightarrow>
        let q = q\<lparr>iq_instList := (iq_instList q)(tid :=
                   dropWhile (\<lambda>p. seqNum (h p) \<le> sn) (iq_instList q tid))\<rparr>
        in do {
          assert_that (freeEntries q = iq_numEntries q - countInsts q);
          Some q
        })"

section \<open>Wakeup\<close>

text \<open>One iteration of the loop over a register's dependents: pop the first and mark it.\<close>

definition wake_next :: "cd_flags \<Rightarrow> nat \<Rightarrow> iq_state \<Rightarrow> iq_state option" where
  "wake_next fl idx s =
     (case s of (h, q) \<Rightarrow>
        (case dg_pop idx (dependGraph q) of
           (None, g) \<Rightarrow> Some (h, q\<lparr>dependGraph := g\<rparr>)
         | (Some dep, g) \<Rightarrow> do {
             h \<leftarrow> updM_inst dep markSrcRegReady h;
             addIfReady fl dep (h, q\<lparr>dependGraph := g\<rparr>)
           }))"

text \<open>
  The loop pops until the chain is empty; no iteration adds to a chain, so it runs once for
  each node the chain has when the loop starts.
\<close>

definition wake_register :: "cd_flags \<Rightarrow> PhysRegId \<Rightarrow> nat \<times> iq_state \<Rightarrow> (nat \<times> iq_state) option" where
  "wake_register fl r s =
     (case s of (n, h, q) \<Rightarrow>
        if isFixedMapping r then Some (n, h, q)
        else let idx = flatIdx r; nodes = chain (entries (dependGraph q) idx) in do {
          (h, q) \<leftarrow> foldM (\<lambda>_. wake_next fl idx) nodes (h, q);
          assert_that (dg_empty_at idx (dependGraph q));
          Some (n + length nodes, h, q\<lparr>dependGraph := clearInst idx (dependGraph q),
                        regScoreboard := (regScoreboard q)(idx := True)\<rparr>)
        })"

definition wakeDependentInstructions :: "cd_flags \<Rightarrow> inst_ptr \<Rightarrow> iq_state \<Rightarrow> (nat \<times> iq_state) option" where
  "wakeDependentInstructions fl p s =
     (case s of (h, q) \<Rightarrow> foldM (wake_register fl) (dest_regs (h p)) (0, h, q))"

definition completeMemInst :: "inst_ptr \<Rightarrow> iq_state \<Rightarrow> iq_state option" where
  "completeMemInst p s =
     (case s of (h, q) \<Rightarrow>
        let tid = threadNumber (h p); h = upd_inst p (set_flag MemOpDone True) h in do {
          m \<leftarrow> md_completed p (h, memDepUnit q tid);
          Some (h, q\<lparr>freeEntries := freeEntries q + 1,
                     memDepUnit := (memDepUnit q)(tid := m),
                     iq_count := (iq_count q)(tid := iq_count q tid - 1)\<rparr>)
        })"

definition iq_wakeDependents :: "cd_flags \<Rightarrow> inst_ptr \<Rightarrow> iq_state \<Rightarrow> (nat \<times> iq_state) option" where
  "iq_wakeDependents fl p s =
     (case s of (h, q) \<Rightarrow>
        let prio = CD_Prioritize_Branch_Execution fl; tid = threadNumber (h p) in do {
          assert_that (\<not> has (h p) Squashed);
          if CD_Runahead_QuickOutputPropagation fl \<and> has (h p) Runahead
          then wakeDependentInstructions fl p (h, q)
          else do {
            s \<leftarrow> (if sflag (h p) IsMemRef
                  then Option.bind (with_md tid (md_wakeDependents prio p) (h, q)) (completeMemInst p)
                  else if sflag (h p) IsMemBarrier \<or> sflag (h p) IsWriteBarrier
                  then with_md tid (md_completeBarrier prio p) (h, q)
                  else Some (h, q));
            wakeDependentInstructions fl p s
          }
        })"

section \<open>Memory instructions that wait or retry\<close>

definition rescheduleMemInst :: "inst_ptr \<Rightarrow> iq_state \<Rightarrow> iq_state" where
  "rescheduleMemInst p s =
     (case s of (h, q) \<Rightarrow>
        let tid = threadNumber (h p) in
        (upd_inst p (reset_status CanIssue \<circ> set_flag TranslationCompleted False \<circ>
                     set_flag TranslationStarted False) h,
         q\<lparr>memDepUnit := (memDepUnit q)(tid := md_reschedule p (memDepUnit q tid))\<rparr>))"

definition replayMemInst :: "cd_flags \<Rightarrow> inst_ptr \<Rightarrow> iq_state \<Rightarrow> iq_state option" where
  "replayMemInst fl p s =
     with_md (threadNumber (fst s p)) (md_replay (CD_Prioritize_Branch_Execution fl)) s"

definition deferMemInst :: "inst_ptr \<Rightarrow> InstructionQueue \<Rightarrow> InstructionQueue" where
  "deferMemInst p q = q\<lparr>deferredMemInsts := deferredMemInsts q @ [p]\<rparr>"

definition blockMemInst :: "inst_ptr \<Rightarrow> iq_state \<Rightarrow> iq_state" where
  "blockMemInst p s =
     (case s of (h, q) \<Rightarrow>
        (upd_inst p (reset_status CanIssue \<circ> reset_status Issued \<circ> set_flag TranslationCompleted False \<circ>
                     set_flag TranslationStarted False) h,
         q\<lparr>blockedMemInsts := blockedMemInsts q @ [p]\<rparr>))"

definition cacheUnblocked :: "InstructionQueue \<Rightarrow> InstructionQueue" where
  "cacheUnblocked q = q\<lparr>retryMemInsts := retryMemInsts q @ blockedMemInsts q, blockedMemInsts := []\<rparr>"

definition iq_violation :: "inst_ptr \<Rightarrow> inst_ptr \<Rightarrow> iq_state \<Rightarrow> iq_state option" where
  "iq_violation st ld s =
     (case s of (h, q) \<Rightarrow>
        let tid = threadNumber (h st) in do {
          m \<leftarrow> md_violation st ld h (memDepUnit q tid);
          Some (h, q\<lparr>memDepUnit := (memDepUnit q)(tid := m)\<rparr>)
        })"

section \<open>Squash\<close>

text \<open>Taking one source operand of a squashed instruction out of the dependency graph.\<close>

definition remove_source :: "inst_ptr \<Rightarrow> nat \<Rightarrow> iq_state \<Rightarrow> iq_state option" where
  "remove_source p idx s =
     (case s of (h, q) \<Rightarrow>
        let src_reg = srcRegIdx (h p) idx in
        if idx \<notin> readySrcRegIdx (h p) \<and> \<not> isFixedMapping src_reg
        then do {
          g \<leftarrow> dg_remove (flatIdx src_reg) p (dependGraph q);
          Some (h, q\<lparr>dependGraph := g\<rparr>)
        }
        else Some (h, q))"

definition in_dependency_lists :: "dyn_inst \<Rightarrow> bool" where
  "in_dependency_lists i \<longleftrightarrow>
     (sflag i IsMemBarrier \<and>
        (sflag i IsLoad \<or> (sflag i IsStore \<and> \<not> sflag i IsStoreConditional))) \<or>
     (\<not> sflag i IsNonSpeculative \<and> \<not> sflag i IsStoreConditional \<and> \<not> sflag i IsMemBarrier \<and>
      \<not> sflag i IsWriteBarrier)"

definition remove_nonspec :: "inst_ptr \<Rightarrow> iq_state \<Rightarrow> iq_state option" where
  "remove_nonspec p s =
     (case s of (h, q) \<Rightarrow>
        if \<not> sflag (h p) IsStoreConditional \<or> \<not> has (h p) Completed
        then (case nonSpecInsts q (seqNum (h p)) of
                None \<Rightarrow> do {
                  assert_that (fault (h p) \<noteq> None \<or> sflag (h p) IsMemRef);
                  Some (h, q)
                }
              | Some _ \<Rightarrow> Some (h, q\<lparr>nonSpecInsts := (nonSpecInsts q)(seqNum (h p) := None)\<rparr>))
        else Some (h, q))"

definition squash_waiting :: "inst_ptr \<Rightarrow> iq_state \<Rightarrow> iq_state option" where
  "squash_waiting p s =
     (case s of (h, q) \<Rightarrow>
        if \<not> has (h p) Issued \<or> (sflag (h p) IsMemRef \<and> MemOpDone \<notin> instFlags (h p))
        then do {
          (h, q) \<leftarrow> (if in_dependency_lists (h p)
                     then foldM (remove_source p) [0..<numSrcRegs (h p)] (h, q)
                     else remove_nonspec p (h, q));
          let tid = threadNumber (h p);
          Some (upd_inst p (reset_status IqEntry \<circ> set_status CanCommit \<circ> set_status Issued \<circ>
                            setSquashedInIQ) h,
                q\<lparr>iq_count := (iq_count q)(tid := iq_count q tid - 1),
                  freeEntries := freeEntries q + 1\<rparr>)
        }
        else Some (h, q))"

definition clear_producer :: "PhysRegId \<Rightarrow> InstructionQueue \<Rightarrow> InstructionQueue option" where
  "clear_producer r q =
     (if isFixedMapping r then Some q
      else do {
        assert_that (dg_empty_at (flatIdx r) (dependGraph q));
        Some (q\<lparr>dependGraph := clearInst (flatIdx r) (dependGraph q)\<rparr>)
      })"

text \<open>
  The loop walks the thread's list from the tail; \<open>kept\<close> collects the instructions it
  passes without erasing them.
\<close>

fun iq_squash_loop ::
  "ThreadID \<Rightarrow> InstSeqNum \<Rightarrow> inst_ptr list \<Rightarrow> inst_ptr list \<Rightarrow> iq_state \<Rightarrow>
     (inst_ptr list \<times> iq_state) option" where
  "iq_squash_loop tid k [] kept s = Some (kept, s)"
| "iq_squash_loop tid k (p # older) kept (h, q) =
     (if seqNum (h p) > k
      then if threadNumber (h p) \<noteq> tid \<or> has (h p) SquashedInIQ
        then iq_squash_loop tid k older (p # kept) (h, q)
        else do {
          (h, q) \<leftarrow> squash_waiting p (h, q);
          q \<leftarrow> foldM clear_producer (dest_regs (h p)) q;
          iq_squash_loop tid k older kept (h, q)
        }
      else Some (rev (p # older) @ kept, h, q))"

definition iq_doSquash :: "ThreadID \<Rightarrow> iq_state \<Rightarrow> iq_state option" where
  "iq_doSquash tid s =
     (case s of (h, q) \<Rightarrow> do {
        (l, h, q) \<leftarrow> iq_squash_loop tid (squashedSeqNum q tid) (rev (iq_instList q tid)) [] (h, q);
        Some (h, q\<lparr>iq_instList := (iq_instList q)(tid := l)\<rparr>)
      })"

definition iq_squash :: "InstSeqNum \<Rightarrow> ThreadID \<Rightarrow> iq_state \<Rightarrow> iq_state option" where
  "iq_squash doneSeqNum tid s =
     (case s of (h, q) \<Rightarrow> do {
        (h, q) \<leftarrow> iq_doSquash tid (h, q\<lparr>squashedSeqNum := (squashedSeqNum q)(tid := doneSeqNum)\<rparr>);
        m \<leftarrow> md_squash doneSeqNum tid h (memDepUnit q tid);
        Some (h, q\<lparr>memDepUnit := (memDepUnit q)(tid := m)\<rparr>)
      })"

section \<open>The issue loop\<close>

text \<open>
  The invariant of the issue loop: each class has at most one entry, exactly the classes with
  ready instructions have one, and a class the loop has passed without issuing is starved of
  units.
\<close>

definition listed :: "ListOrderEntry list \<Rightarrow> ReadyQueues \<Rightarrow> bool" where
  "listed es r \<longleftrightarrow> distinct (map queueType es) \<and>
     (\<forall>c. c \<in> queueType ` set es \<longleftrightarrow> readyInsts r c \<noteq> []) \<and>
     (\<forall>c. c \<in> queueType ` set es \<longleftrightarrow> queueOnList r c)"

definition pool_preds_ok :: "InstructionQueue \<Rightarrow> bool" where
  "pool_preds_ok q \<longleftrightarrow> pool_ok (fuPool q) \<and> (\<forall>t. ss_ok (depPred (memDepUnit q t)))"

fun issue_inv :: "issue_state \<Rightarrow> bool" where
  "issue_inv (pre, post, n, h, q) \<longleftrightarrow>
     pool_preds_ok q \<and> listed (pre @ post) (rq q) \<and>
     (\<forall>e\<in>set pre. queueType e \<noteq> 0 \<and> starved (fuPool q) (queueType e)) \<and> n \<le> totalWidth q"

fun issue_measure :: "issue_state \<Rightarrow> nat" where
  "issue_measure (pre, post, n, h, q) =
     (\<Sum>e\<leftarrow>post. Suc (length (readyInsts (rq q) (queueType e))))"

lemma length_pq_pop: "pq_top cmp xs = Some t \<Longrightarrow> Suc (length (pq_pop cmp xs)) = length xs"
  using pq_top_in_set [of cmp xs t] by (auto simp: pq_pop_def length_remove1 dest: length_pos_if_in_set)

lemma mset_insert_middle: "mset (takeWhile P xs @ y # dropWhile P xs) = add_mset y (mset xs)"
  using mset_takeWhile_dropWhile [of P xs] by simp

lemma sum_list_mset_cong:
  fixes f :: "'a \<Rightarrow> nat"
  assumes "mset xs = mset ys"
  shows "sum_list (map f xs) = sum_list (map f ys)"
proof -
  have "sum_mset (image_mset f (mset xs)) = sum_mset (image_mset f (mset ys))" using assms by simp
  then show ?thesis by (simp flip: mset_map add: sum_mset_sum_list)
qed

text \<open>Popping keeps the invariant and lowers the measure by one or two.\<close>

lemma pop_ready_total:
  assumes l: "listed (pre @ e # post) r" and top: "pq_top (pqCompare prio h) (readyInsts r (queueType e)) = Some p"
  shows "\<exists>post' r'. pop_ready prio h (queueType e) post r = Some (post', r') \<and> listed (pre @ post') r' \<and>
     readyInsts r' = (readyInsts r)(queueType e := pq_pop (pqCompare prio h) (readyInsts r (queueType e))) \<and>
     (\<Sum>e\<leftarrow>post'. Suc (length (readyInsts r' (queueType e)))) <
     (\<Sum>e\<leftarrow>e # post. Suc (length (readyInsts r (queueType e))))"
proof -
  let ?c = "queueType e" and ?cmp = "pqCompare prio h"
  define rest where "rest = pq_pop ?cmp (readyInsts r ?c)"
  have len: "Suc (length rest) = length (readyInsts r ?c)"
    using length_pq_pop [OF top] by (simp add: rest_def)
  have nc: "?c \<notin> queueType ` set pre" "?c \<notin> queueType ` set post"
    using l by (auto simp: listed_def)
  have ne: "\<forall>x\<in>set post. queueType x \<noteq> ?c" using nc(2) by (metis imageI)
  show ?thesis
  proof (cases "rest = []")
    case True
    let ?r = "r\<lparr>readyInsts := (readyInsts r)(?c := rest), queueOnList := (queueOnList r)(?c := False)\<rparr>"
    have "pop_ready prio h ?c post r = Some (post, ?r)"
      using True by (simp add: pop_ready_def rest_def [symmetric])
    moreover have "listed (pre @ post) ?r"
      using l nc True unfolding listed_def by auto
    moreover have "(\<Sum>e\<leftarrow>post. Suc (length (readyInsts ?r (queueType e)))) =
        (\<Sum>e\<leftarrow>post. Suc (length (readyInsts r (queueType e))))"
      using ne by (intro arg_cong [where f = sum_list] map_cong) auto
    ultimately show ?thesis by (intro exI [of _ post] exI [of _ ?r]) (simp add: rest_def)
  next
    case False
    let ?r = "r\<lparr>readyInsts := (readyInsts r)(?c := rest)\<rparr>"
    obtain t where t: "pq_top ?cmp rest = Some t" using pq_top_Some [OF False] by blast
    define e' where "e' = \<lparr>queueType = ?c, oldestInst = seqNum (h t)\<rparr>"
    define post' where "post' = takeWhile (\<lambda>x. oldestInst x < oldestInst e') post @ e' #
             dropWhile (\<lambda>x. oldestInst x < oldestInst e') post"
    have ms: "mset post' = add_mset e' (mset post)" unfolding post'_def by (rule mset_insert_middle)
    have pr: "pop_ready prio h ?c post r = Some (post', ?r)"
      using False t by (simp add: pop_ready_def rest_def [symmetric] moveToYoungerInst_def post'_def e'_def)
    have types: "queueType ` set (pre @ post') = queueType ` set (pre @ e # post)"
      using arg_cong [OF ms, of set_mset] by (auto simp: e'_def)
    have "mset (map queueType (pre @ post')) = mset (map queueType (pre @ e # post))"
      using ms by (simp add: e'_def)
    then have "distinct (map queueType (pre @ post')) = distinct (map queueType (pre @ e # post))"
      by (rule mset_eq_imp_distinct_iff)
    with l types False have "listed (pre @ post') ?r" by (auto simp: listed_def)
    moreover have "(\<Sum>e\<leftarrow>post'. Suc (length (readyInsts ?r (queueType e)))) =
        (\<Sum>e\<leftarrow>e' # post. Suc (length (readyInsts ?r (queueType e))))"
      by (rule sum_list_mset_cong) (simp add: ms)
    moreover have "(\<Sum>e\<leftarrow>post. Suc (length (readyInsts ?r (queueType e)))) =
        (\<Sum>e\<leftarrow>post. Suc (length (readyInsts r (queueType e))))"
      using ne by (intro arg_cong [where f = sum_list] map_cong) auto
    ultimately show ?thesis using pr len
      by (intro exI [of _ post'] exI [of _ ?r]) (simp add: rest_def e'_def)
  qed
qed

lemma start_execution_total:
  assumes ok: "pool_ok (fuPool q)"
    and idx: "idx \<ge> 0 \<Longrightarrow> nat idx < numFU (fuPool q) \<and> unitBusy (fuPool q) ! nat idx \<and>
                nat idx \<notin> set (unitsToBeFreed (fuPool q))"
    and lat: "idx < 0 \<Longrightarrow> lat = 1"
  shows "\<exists>q'. start_execution p c idx lat q = Some q' \<and> pool_ok (fuPool q') \<and>
     pool_le (fuPool q) (fuPool q') \<and> rq q' = rq q \<and> memDepUnit q' = memDepUnit q \<and>
     totalWidth q' = totalWidth q"
proof (cases "idx \<ge> 0")
  case True
  then obtain P where "freeUnitNextCycle (nat idx) (fuPool q) = Some P" "pool_ok P" "pool_le (fuPool q) P"
    using freeUnitNextCycle_total [OF ok] idx by blast
  with True ok show ?thesis by (auto simp: start_execution_def Let_def)
next
  case False
  with lat ok show ?thesis by (auto simp: start_execution_def)
qed

lemma leave_or_issue_total:
  assumes "pool_preds_ok q"
  shows "\<exists>h' q'. leave_or_issue p (h, q) = Some (h', q') \<and> pool_preds_ok q' \<and> fuPool q' = fuPool q \<and>
     rq q' = rq q \<and> totalWidth q' = totalWidth q"
proof (cases "sflag (h p) IsMemRef")
  case False
  with assms show ?thesis by (auto simp: leave_or_issue_def pool_preds_ok_def Let_def)
next
  case True
  from ss_issued_effect [of "depPred (memDepUnit q (threadNumber (h p)))" "instAddr (h p)" "seqNum (h p)"
      "sflag (h p) IsStore"] assms
  obtain S where "ss_issued (instAddr (h p)) (seqNum (h p)) (sflag (h p) IsStore)
      (depPred (memDepUnit q (threadNumber (h p)))) = Some S" "ss_ok S"
    by (auto simp: pool_preds_ok_def)
  with True assms show ?thesis by (auto simp: leave_or_issue_def md_issue_def pool_preds_ok_def Let_def)
qed

lemma issue_step_total:
  assumes inv: "issue_inv (pre, e # post, n, h, q)" and n: "n < totalWidth q"
  shows "\<exists>s'. issue_step fl (pre, e # post, n, h, q) = Some s' \<and> issue_inv s' \<and>
     issue_measure s' < issue_measure (pre, e # post, n, h, q)"
proof -
  let ?c = "queueType e" and ?prio = "CD_Prioritize_Branch_Execution fl"
  have l: "listed (pre @ e # post) (rq q)" and pq: "pool_preds_ok q"
    and st: "\<forall>e\<in>set pre. queueType e \<noteq> 0 \<and> starved (fuPool q) (queueType e)" using inv by auto
  have "readyInsts (rq q) ?c \<noteq> []" using l by (auto simp: listed_def)
  then obtain p where p: "pq_top (pqCompare ?prio h) (readyInsts (rq q) ?c) = Some p"
    using pq_top_Some by blast
  show ?thesis
  proof (cases "has (h p) Squashed")
    case True
    from pop_ready_total [OF l p] obtain post' r' where
      "pop_ready ?prio h ?c post (rq q) = Some (post', r')" "listed (pre @ post') r'"
      "(\<Sum>e\<leftarrow>post'. Suc (length (readyInsts r' (queueType e)))) <
         (\<Sum>e\<leftarrow>e # post. Suc (length (readyInsts (rq q) (queueType e))))" by blast
    with True p inv show ?thesis by (auto simp: pool_preds_ok_def)
  next
    case False
    obtain idx P where u: "(if ?c \<noteq> 0 then getUnit ?c (fuPool q) else Some (NoCapableFU, fuPool q)) = Some (idx, P)"
      "pool_ok P" "pool_le (fuPool q) P"
      "if idx \<ge> 0 then nat idx < numFU P \<and> unitBusy P ! nat idx \<and> nat idx \<notin> set (unitsToBeFreed P)
       else idx = NoCapableFU \<or> idx = NoFreeFU \<and> ?c \<noteq> 0 \<and> starved (fuPool q) ?c"
    proof (cases "?c = 0")
      case False
      with getUnit_result [of "fuPool q" ?c] pq that show ?thesis
        unfolding pool_preds_ok_def by (metis (no_types, lifting))
    qed (use pq that in \<open>auto simp: pool_preds_ok_def NoCapableFU_def\<close>)
    show ?thesis
    proof (cases "idx = NoFreeFU")
      case True
      with u have "starved P ?c" "?c \<noteq> 0" using starved_mono by (auto simp: NoFreeFU_def NoCapableFU_def)
      with True False u p inv n show ?thesis
        by (auto simp: pool_preds_ok_def starved_mono)
    next
      case idx: False
      let ?q = "q\<lparr>fuPool := P\<rparr>" and ?h = "upd_inst p (set_status Executing) h"
      let ?lat = "if idx > NoFreeFU then maxOpLatencies P ?c else 1"
      have lat: "idx < 0 \<Longrightarrow> ?lat = 1" using idx by (auto simp: NoFreeFU_def)
      from start_execution_total [of ?q idx ?lat p ?c] u lat obtain q1 where q1:
        "start_execution p ?c idx ?lat ?q = Some q1" "pool_ok (fuPool q1)" "pool_le P (fuPool q1)"
        "rq q1 = rq q" "memDepUnit q1 = memDepUnit q" "totalWidth q1 = totalWidth q" by auto
      have cmp: "pqCompare ?prio ?h = pqCompare ?prio h"
        by (auto simp: fun_eq_iff pqCompare_def branch_load_preq_def upd_inst_apply set_status_def)
      from pop_ready_total [OF l, of ?prio ?h p] p cmp obtain post' r' where pop:
        "pop_ready ?prio ?h ?c post (rq q) = Some (post', r')" "listed (pre @ post') r'"
        "(\<Sum>e\<leftarrow>post'. Suc (length (readyInsts r' (queueType e)))) <
         (\<Sum>e\<leftarrow>e # post. Suc (length (readyInsts (rq q) (queueType e))))" by auto
      have "pool_preds_ok (q1\<lparr>rq := r'\<rparr>)" using q1 pq by (simp add: pool_preds_ok_def)
      from leave_or_issue_total [OF this, of p "upd_inst p (set_status Issued) ?h"] obtain h2 q2 where
        q2: "leave_or_issue p (upd_inst p (set_status Issued) ?h, q1\<lparr>rq := r'\<rparr>) = Some (h2, q2)"
        "pool_preds_ok q2" "fuPool q2 = fuPool q1" "rq q2 = r'" "totalWidth q2 = totalWidth q1" by auto
      have "\<forall>e\<in>set pre. starved (fuPool q2) (queueType e)"
        using st u(3) q1(3) q2(3) starved_mono by metis
      with idx False u(1) p q1 pop q2 st n show ?thesis by simp
    qed
  qed
qed

lemma issue_loop_total:
  assumes "issue_inv (pre, post, n, h, q)"
  shows "\<exists>pre' post' n' h' q'. issue_loop fl (pre, post, n, h, q) = Some (pre', post', n', h', q') \<and>
     issue_inv (pre', post', n', h', q') \<and> (n' < totalWidth q' \<longrightarrow> post' = [])"
  using assms
proof (induction "issue_measure (pre, post, n, h, q)" arbitrary: pre post n h q rule: less_induct)
  case less
  show ?case
  proof (cases "n < totalWidth q \<and> post \<noteq> []")
    case False
    with less.prems show ?thesis by (auto simp: issue_loop.simps [of fl "(pre, post, n, h, q)"])
  next
    case True
    then obtain e post1 where post: "post = e # post1" by (cases post) auto
    with issue_step_total [of pre e post1 n h q fl] less.prems True obtain s' where
      s': "issue_step fl (pre, post, n, h, q) = Some s'" "issue_inv s'"
      "issue_measure s' < issue_measure (pre, post, n, h, q)" by auto
    obtain pre' post' n' h' q' where "s' = (pre', post', n', h', q')" by (cases s')
    with less.hyps [of pre' post' n' h' q'] s' True show ?thesis
      by (auto simp: issue_loop.simps [of fl "(pre, post, n, h, q)"])
  qed
qed

subsection \<open>The retry loops\<close>

lemma listed_addToOrderList:
  assumes "addToOrderList prio h c r = Some r'" and "distinct (map queueType (listOrder r))"
    and "c \<notin> queueType ` set (listOrder r)"
    and "\<And>d. d \<noteq> c \<Longrightarrow> (d \<in> queueType ` set (listOrder r)) = (readyInsts r d \<noteq> [])"
    and "\<And>d. d \<noteq> c \<Longrightarrow> (d \<in> queueType ` set (listOrder r)) = queueOnList r d"
  shows "listed (listOrder r') r'"
proof -
  from assms(1) obtain t where t: "pq_top (pqCompare prio h) (readyInsts r c) = Some t"
    and r': "r' = r\<lparr>listOrder := order_insert \<lparr>queueType = c, oldestInst = seqNum (h t)\<rparr> (listOrder r),
                     queueOnList := (queueOnList r)(c := True)\<rparr>"
    by (auto simp: addToOrderList_def bind_eq_Some_conv)
  from t have "readyInsts r c \<noteq> []" by auto
  moreover have "queueType ` set (listOrder r') = insert c (queueType ` set (listOrder r))"
    by (simp add: r')
  ultimately have "(d \<in> queueType ` set (listOrder r')) = (readyInsts r' d \<noteq> [])"
    "(d \<in> queueType ` set (listOrder r')) = queueOnList r' d" for d
    using assms(4,5) [of d] by (cases "d = c"; simp add: r')+
  moreover have "distinct (map queueType (listOrder r'))"
    using assms(2,3) by (simp add: r' distinct_order_insert)
  ultimately show ?thesis unfolding listed_def by blast
qed

lemma listed_addReadyMemInst:
  assumes l: "listed (listOrder r) r"
  shows "\<exists>r'. addReadyMemInst prio h p r = Some r' \<and> listed (listOrder r') r'"
proof -
  define c where "c = sopClass (staticInst (h p))"
  define r1 where "r1 = r\<lparr>readyInsts := (readyInsts r)(c := p # readyInsts r c)\<rparr>"
  have "rq_listed r" using l by (auto simp: listed_def rq_listed_def)
  then obtain r' where r': "addReadyMemInst prio h p r = Some r'" using addReadyMemInst_listed by blast
  have r1: "listOrder r1 = listOrder r" "queueOnList r1 = queueOnList r" "readyInsts r1 c \<noteq> []"
    "d \<noteq> c \<Longrightarrow> readyInsts r1 d = readyInsts r d" for d by (auto simp: r1_def)
  from r' consider "queueOnList r c" "r' = r1" | "\<not> queueOnList r c" "addToOrderList prio h c r1 = Some r'"
    | "queueOnList r c" "addToOrderList prio h c (r1\<lparr>listOrder := erase_class c (listOrder r1)\<rparr>) = Some r'"
    by (auto simp: addReadyMemInst_def Let_def c_def r1_def bind_eq_Some_conv
        simp del: pq_top.simps split: if_splits)
  then have "listed (listOrder r') r'"
  proof cases
    case 1
    with l r1 show ?thesis unfolding listed_def by metis
  next
    case 2
    show ?thesis
      by (rule listed_addToOrderList [OF 2(2)]) (use l 2(1) r1 in \<open>auto simp: listed_def\<close>)
  next
    case 3
    have "distinct (map queueType (listOrder r))" using l by (simp add: listed_def)
    note er = erase_class_props [OF this, of c]
    have ty: "(d \<in> queueType ` set (erase_class c (listOrder r))) = (d \<in> queueType ` set (listOrder r) \<and> d \<noteq> c)" for d
      using er(1) by auto
    show ?thesis
      by (rule listed_addToOrderList [OF 3(2)]) (use l r1 er(2) ty in \<open>auto simp: listed_def\<close>)
  qed
  with r' show ?thesis by blast
qed

text \<open>
  The loops keep whatever the pushes keep, empty their lists, and touch nothing but the ready
  queues.
\<close>

lemma getDeferred_effect:
  "getDeferredMemInstToExecute h q = Some (p, q') \<Longrightarrow> \<exists>l. q' = q\<lparr>deferredMemInsts := l\<rparr>"
  by (auto simp: getDeferredMemInstToExecute_def split: option.splits)

lemma getBlocked_effect:
  "getBlockedMemInstToExecute q = Some (p, q') \<Longrightarrow> \<exists>l. q' = q\<lparr>retryMemInsts := l\<rparr>"
  by (auto simp: getBlockedMemInstToExecute_def split: list.splits)

lemma retry_deferred_total:
  assumes "P (rq q)" and "\<And>r p. P r \<Longrightarrow> \<exists>r'. addReadyMemInst prio h p r = Some r' \<and> P r'"
  shows "\<exists>r l. retry_deferred prio h q = Some (q\<lparr>deferredMemInsts := l, rq := r\<rparr>) \<and> P r"
  using assms(1)
proof (induction "length (deferredMemInsts q)" arbitrary: q rule: less_induct)
  case less
  show ?case
  proof (cases "getDeferredMemInstToExecute h q")
    case None
    with less.prems show ?thesis
      by (intro exI [of _ "rq q"] exI [of _ "deferredMemInsts q"]) (simp add: retry_deferred.simps)
  next
    case (Some pq)
    then obtain p l where get: "getDeferredMemInstToExecute h q = Some (p, q\<lparr>deferredMemInsts := l\<rparr>)"
      using getDeferred_effect [of h q "fst pq" "snd pq"] by (cases pq) auto
    obtain r' where r': "addReadyMemInst prio h p (rq q) = Some r'" "P r'" using assms(2) less.prems by blast
    let ?q = "q\<lparr>deferredMemInsts := l, rq := r'\<rparr>"
    obtain r l' where "retry_deferred prio h ?q = Some (?q\<lparr>deferredMemInsts := l', rq := r\<rparr>)" "P r"
      using less.hyps [of ?q] getDeferred_shorter [OF get] r'(2) by auto
    with get r'(1) show ?thesis by (auto simp: retry_deferred.simps [of prio h q])
  qed
qed

lemma retry_blocked_total:
  assumes "P (rq q)" and "\<And>r p. P r \<Longrightarrow> \<exists>r'. addReadyMemInst prio h p r = Some r' \<and> P r'"
  shows "\<exists>r. retry_blocked prio h q = Some (q\<lparr>retryMemInsts := [], rq := r\<rparr>) \<and> P r"
  using assms(1)
proof (induction "length (retryMemInsts q)" arbitrary: q rule: less_induct)
  case less
  show ?case
  proof (cases "retryMemInsts q")
    case Nil
    with less.prems show ?thesis
      by (intro exI [of _ "rq q"]) (simp add: retry_blocked.simps getBlockedMemInstToExecute_def)
  next
    case (Cons p ps)
    obtain r' where r': "addReadyMemInst prio h p (rq q) = Some r'" "P r'" using assms(2) less.prems by blast
    let ?q = "q\<lparr>retryMemInsts := ps, rq := r'\<rparr>"
    obtain r where "retry_blocked prio h ?q = Some (?q\<lparr>retryMemInsts := [], rq := r\<rparr>)" "P r"
      using less.hyps [of ?q] Cons r'(2) by auto
    with Cons r'(1) show ?thesis
      by (auto simp: retry_blocked.simps [of prio h q] getBlockedMemInstToExecute_def)
  qed
qed

subsection \<open>Age order\<close>

lemma sorted_insert_before:
  fixes f :: "'a \<Rightarrow> nat"
  assumes "sorted (map f xs)"
  shows "sorted (map f (takeWhile (\<lambda>x. f x < f e) xs @ e # dropWhile (\<lambda>x. f x < f e) xs))"
  using assms
proof (induction xs)
  case Nil
  then show ?case by simp
next
  case (Cons x xs)
  then show ?case by (auto simp: sorted_append dest!: set_takeWhileD set_dropWhileD)
qed

lemma set_insert_middle:
  "set (takeWhile P xs @ y # dropWhile P xs) = insert y (set xs)"
  using arg_cong [OF mset_insert_middle [of P xs y], of set_mset] by simp

lemma pop_ready_ages:
  assumes pop: "pop_ready False h (queueType e) post r = Some (post', r')"
    and so: "sorted (ages (pre @ e # post))" and di: "distinct (map queueType (pre @ e # post))"
    and en: "\<forall>x\<in>set (pre @ e # post). entry_ok h (readyInsts r) x"
  shows "sorted (ages (pre @ post')) \<and> (\<forall>x\<in>set (pre @ post'). entry_ok h (readyInsts r') x) \<and>
     (\<forall>x\<in>set post'. oldestInst e \<le> oldestInst x)"
proof -
  let ?c = "queueType e"
  define rest where "rest = pq_pop (pqCompare False h) (readyInsts r ?c)"
  obtain p where p: "pq_top (pqCompare False h) (readyInsts r ?c) = Some p" "oldestInst e = seqNum (h p)"
    using en by (auto simp: entry_ok_def)
  have ne: "\<forall>x\<in>set (pre @ post). queueType x \<noteq> ?c" using di by (auto simp: rev_image_eqI)
  have other: "\<forall>x\<in>set (pre @ post). entry_ok h ((readyInsts r)(?c := rest)) x"
    using en ne by (simp add: entry_ok_other_class)
  have ge: "\<forall>x\<in>set post. oldestInst e \<le> oldestInst x" using so by (auto simp: sorted_append)
  show ?thesis
  proof (cases "rest = []")
    case True
    then have "post' = post" "readyInsts r' = (readyInsts r)(?c := rest)"
      using pop by (auto simp: pop_ready_def rest_def [symmetric])
    with so other ge show ?thesis by (auto simp: sorted_append)
  next
    case False
    obtain t where t: "pq_top (pqCompare False h) rest = Some t" using pq_top_Some [OF False] by blast
    define e' where "e' = \<lparr>queueType = ?c, oldestInst = seqNum (h t)\<rparr>"
    have post': "post' = takeWhile (\<lambda>x. oldestInst x < oldestInst e') post @ e' #
             dropWhile (\<lambda>x. oldestInst x < oldestInst e') post"
      and r': "readyInsts r' = (readyInsts r)(?c := rest)"
      using pop False t by (auto simp: pop_ready_def rest_def [symmetric] moveToYoungerInst_def e'_def)
    have set: "set post' = insert e' (set post)" unfolding post' by (rule set_insert_middle)
    have "t \<in> set (readyInsts r ?c)"
      using pq_top_in_set [OF t] p(1) set_remove1_subset [of p "readyInsts r ?c"]
      by (auto simp: rest_def pq_pop_def)
    then have le: "oldestInst e \<le> oldestInst e'"
      using pq_top_oldest [OF p(1)] p(2) by (simp add: e'_def)
    have ge': "\<forall>x\<in>set post'. oldestInst e \<le> oldestInst x" using set ge le by auto
    have "entry_ok h (readyInsts r') e'" using t by (simp add: entry_ok_def r' e'_def)
    then have "\<forall>x\<in>set (pre @ post'). entry_ok h (readyInsts r') x"
      using set other by (auto simp: r')
    moreover have "sorted (ages post')"
      unfolding post' by (rule sorted_insert_before) (use so in \<open>simp add: sorted_append\<close>)
    then have "sorted (ages (pre @ post'))"
      using so ge' by (fastforce simp: sorted_append)
    ultimately show ?thesis using ge' by blast
  qed
qed

text \<open>What one iteration does, case by case.\<close>

lemma start_execution_rq: "start_execution p c idx lat q = Some q' \<Longrightarrow> rq q' = rq q"
  by (auto simp: start_execution_def Let_def bind_eq_Some_conv split: if_splits)

lemma leave_or_issue_frame:
  "leave_or_issue p (h, q) = Some (h', q') \<Longrightarrow>
     rq q' = rq q \<and> (\<forall>i. i \<noteq> p \<longrightarrow> h' i = h i) \<and> seqNum (h' p) = seqNum (h p)"
  by (auto simp: leave_or_issue_def Let_def bind_eq_Some_conv upd_inst_apply reset_status_def
      split: if_splits)

lemma issue_step_cases:
  assumes "issue_step fl (pre, e # post, n, h, q) = Some (pre', post', n', h', q')"
    and prio: "\<not> CD_Prioritize_Branch_Execution fl"
  obtains (squashed) "pre' = pre" "h' = h" "pop_ready False h (queueType e) post (rq q) = Some (post', rq q')"
  | (stalled) "pre' = pre @ [e]" "post' = post" "h' = h" "rq q' = rq q"
  | (issued) p h1 where "pre' = pre" "pq_top (pqCompare False h) (readyInsts (rq q) (queueType e)) = Some p"
      "pop_ready False h1 (queueType e) post (rq q) = Some (post', rq q')"
      "\<forall>i. seqNum (h1 i) = seqNum (h i)" "\<forall>i. i \<noteq> p \<longrightarrow> h' i = h i" "\<forall>i. seqNum (h' i) = seqNum (h i)"
proof -
  let ?c = "queueType e"
  obtain p where p: "pq_top (pqCompare False h) (readyInsts (rq q) ?c) = Some p"
    using assms by (auto simp: bind_eq_Some_conv Let_def)
  show thesis
  proof (cases "has (h p) Squashed")
    case True
    with assms p show thesis
      by (intro squashed) (auto simp: bind_eq_Some_conv Let_def)
  next
    case False
    obtain idx P where u: "(if ?c \<noteq> 0 then getUnit ?c (fuPool q) else Some (NoCapableFU, fuPool q)) = Some (idx, P)"
      using assms p False by (auto simp: bind_eq_Some_conv Let_def simp del: split_paired_Ex split: if_splits)
    show thesis
    proof (cases "idx = NoFreeFU")
      case True
      with assms p False u show thesis by (intro stalled) (auto simp: Let_def)
    next
      case idx: False
      let ?h = "upd_inst p (set_status Executing) h"
      from assms p False u idx obtain q1 r where q1:
        "start_execution p ?c idx (if idx > NoFreeFU then maxOpLatencies P ?c else 1) (q\<lparr>fuPool := P\<rparr>) = Some q1"
        "pop_ready False ?h ?c post (rq q1) = Some (post', r)"
        "leave_or_issue p (upd_inst p (set_status Issued) ?h, q1\<lparr>rq := r\<rparr>) = Some (h', q')" "pre' = pre"
        by (auto simp: Let_def bind_eq_Some_conv)
      from start_execution_rq [OF q1(1)] leave_or_issue_frame [OF q1(3)] q1(2,4) p show thesis
        by (intro issued [of p ?h]) (auto simp: upd_inst_apply set_status_def)
    qed
  qed
qed

text \<open>
  The age invariant of the loop, relative to the instructions \<open>h0\<close> it started with: the whole
  order list is sorted and exact, and everything issued is at least as old as what the loop
  has still to visit.
\<close>

fun age_inv :: "inst_store \<Rightarrow> issue_state \<Rightarrow> bool" where
  "age_inv h0 (pre, post, n, h, q) \<longleftrightarrow>
     sorted (ages (pre @ post)) \<and> (\<forall>x\<in>set (pre @ post). entry_ok h0 (readyInsts (rq q)) x) \<and>
     (\<forall>i. seqNum (h i) = seqNum (h0 i)) \<and>
     (\<forall>i x. has (h i) Issued \<and> \<not> has (h0 i) Issued \<and> x \<in> set post \<longrightarrow> seqNum (h0 i) \<le> oldestInst x)"

lemma pq_top_cong_age:
  "\<forall>i. seqNum (h i) = seqNum (h0 i) \<Longrightarrow> pqCompare False h = pqCompare False h0"
  by (auto simp: fun_eq_iff pqCompare_def)

lemma pop_ready_cong_age:
  "\<forall>i. seqNum (h i) = seqNum (h0 i) \<Longrightarrow> pop_ready False h c post r = pop_ready False h0 c post r"
proof -
  assume a: "\<forall>i. seqNum (h i) = seqNum (h0 i)"
  have "moveToYoungerInst False h = moveToYoungerInst False h0"
    by (intro ext) (simp add: moveToYoungerInst_def a pq_top_cong_age [OF a])
  with pq_top_cong_age [OF a] show ?thesis by (simp add: pop_ready_def Let_def)
qed

lemma age_inv_step:
  assumes step: "issue_step fl (pre, e # post, n, h, q) = Some s'" and prio: "\<not> CD_Prioritize_Branch_Execution fl"
    and inv: "age_inv h0 (pre, e # post, n, h, q)" and di: "distinct (map queueType (pre @ e # post))"
  shows "age_inv h0 s'"
proof -
  obtain pre' post' n' h' q' where s': "s' = (pre', post', n', h', q')" by (cases s')
  have so: "sorted (ages (pre @ e # post))" and en: "\<forall>x\<in>set (pre @ e # post). entry_ok h0 (readyInsts (rq q)) x"
    and sn: "\<forall>i. seqNum (h i) = seqNum (h0 i)"
    and old: "\<And>i x. has (h i) Issued \<Longrightarrow> \<not> has (h0 i) Issued \<Longrightarrow> x \<in> set (e # post) \<Longrightarrow> seqNum (h0 i) \<le> oldestInst x"
    using inv by auto
  from step [unfolded s'] prio show ?thesis unfolding s'
  proof (cases rule: issue_step_cases)
    case squashed
    then have "pop_ready False h0 (queueType e) post (rq q) = Some (post', rq q')"
      using pop_ready_cong_age [OF sn] by simp
    from pop_ready_ages [OF this so di en] have a: "sorted (ages (pre @ post'))"
      "\<forall>x\<in>set (pre @ post'). entry_ok h0 (readyInsts (rq q')) x" "\<forall>x\<in>set post'. oldestInst e \<le> oldestInst x"
      by auto
    have "seqNum (h0 i) \<le> oldestInst x" if "has (h i) Issued" "\<not> has (h0 i) Issued" "x \<in> set post'" for i x
      using old [OF that(1,2), of e] a(3) that(3) by (auto intro: order_trans)
    with a squashed sn show "age_inv h0 (pre', post', n', h', q')" by auto
  next
    case stalled
    with inv show "age_inv h0 (pre', post', n', h', q')" by auto
  next
    case (issued p h1)
    have "\<forall>i. seqNum (h1 i) = seqNum (h0 i)" using issued(4) sn by simp
    with issued(3) have "pop_ready False h0 (queueType e) post (rq q) = Some (post', rq q')"
      using pop_ready_cong_age by metis
    from pop_ready_ages [OF this so di en] have a: "sorted (ages (pre @ post'))"
      "\<forall>x\<in>set (pre @ post'). entry_ok h0 (readyInsts (rq q')) x" "\<forall>x\<in>set post'. oldestInst e \<le> oldestInst x"
      by auto
    have "entry_ok h0 (readyInsts (rq q)) e" using en by simp
    then have "oldestInst e = seqNum (h0 p)"
      using issued(2) pq_top_cong_age [OF sn] by (auto simp: entry_ok_def)
    moreover have "seqNum (h0 i) \<le> oldestInst e" if "has (h' i) Issued" "\<not> has (h0 i) Issued" "i \<noteq> p" for i
      using that issued(5) old [of i e] by auto
    ultimately have "seqNum (h0 i) \<le> oldestInst x"
      if "has (h' i) Issued" "\<not> has (h0 i) Issued" "x \<in> set post'" for i x
      using that a(3) by (cases "i = p") (auto intro: order_trans)
    with a issued sn show "age_inv h0 (pre', post', n', h', q')" by auto
  qed
qed

lemma age_inv_loop:
  assumes "issue_inv (pre, post, n, h, q)" and "age_inv h0 (pre, post, n, h, q)"
    and prio: "\<not> CD_Prioritize_Branch_Execution fl" and "issue_loop fl (pre, post, n, h, q) = Some s'"
  shows "age_inv h0 s'"
  using assms
proof (induction "issue_measure (pre, post, n, h, q)" arbitrary: pre post n h q rule: less_induct)
  case less
  show ?case
  proof (cases "n < totalWidth q \<and> post \<noteq> []")
    case False
    with less.prems show ?thesis by (auto simp: issue_loop.simps [of fl "(pre, post, n, h, q)"])
  next
    case True
    then obtain e post1 where post: "post = e # post1" by (cases post) auto
    with issue_step_total [of pre e post1 n h q fl] less.prems True obtain s1 where
      s1: "issue_step fl (pre, post, n, h, q) = Some s1" "issue_inv s1"
      "issue_measure s1 < issue_measure (pre, post, n, h, q)" by auto
    have "age_inv h0 s1"
      using age_inv_step [OF s1(1) [unfolded post] prio] less.prems post by (auto simp: listed_def)
    moreover obtain pre' post' n' h' q' where e: "s1 = (pre', post', n', h', q')" by (cases s1)
    moreover have "issue_loop fl s1 = Some s'"
      using less.prems(4) s1(1) True by (simp add: issue_loop.simps [of fl "(pre, post, n, h, q)"])
    ultimately show ?thesis using less.hyps [of pre' post' n' h' q'] s1 prio by simp
  qed
qed

lemma rq_ok_listed: "rq_ok h r \<Longrightarrow> listed (listOrder r) r"
  unfolding rq_ok_def listed_def by blast

lemma entry_okE:
  assumes "entry_ok h ready e" and "x \<in> set (ready (queueType e))"
  shows "oldestInst e \<le> seqNum (h x)"
  using assms pq_top_oldest by (auto simp: entry_ok_def)

lemma rq_ok_after_issue:
  assumes "listed es r" and "sorted (ages es)" and "\<forall>x\<in>set es. entry_ok h (readyInsts r) x"
  shows "rq_ok h (r\<lparr>listOrder := es\<rparr>)"
  using assms unfolding rq_ok_def listed_def by auto

lemma rq_ok_push: "rq_ok h r \<Longrightarrow> \<exists>r'. addReadyMemInst False h p r = Some r' \<and> rq_ok h r'"
  using listed_addReadyMemInst [OF rq_ok_listed] addReadyMemInst_ok by blast

section \<open>Properties of issue\<close>


text \<open>A queue for the examples: two functional units and empty lists.\<close>

definition no_flags :: cd_flags where
  "no_flags = \<lparr>CD_Allow_NonLoads_AfterBranch = False, CD_Clear_DirectUnconditionalBranches_AtDecode = False,
     CD_Clear_MaySquash_AtExec = False, CD_LimitWakeDependandsToWBWidth = False,
     CD_MarkBranchPrequisites = False, CD_MarkUnsafeIf_AfterBranch = False,
     CD_MarkUnsafeIf_LoadtInstruction = False, CD_Prioritize_Branch_Execution = False,
     CD_Runahead_QuickOutputPropagation = False, CD_Runahead_SquashInSingleCycle = False,
     CD_Runahead_ifBranchLoadIsStalling = False, CD_Runahead_ifMoreThanNBranches = False,
     CD_SquashInSingleCycle = False\<rparr>"

definition demo_iq :: InstructionQueue where
  "demo_iq =
     \<lparr>rq = rq_init, dependGraph = \<lparr>entries = (\<lambda>_. \<lparr>producer = None, chain = []\<rparr>), numEntries = 8, memAllocCounter = 0\<rparr>,
      regScoreboard = (\<lambda>_. False), regToProducerInst = (\<lambda>_. None), memDepUnit = (\<lambda>_. demo_md),
      fuPool = demo_pool, pendingFU = [], wbOutstanding = 0, iq_instList = (\<lambda>_. []), instsToExecute = [],
      deferredMemInsts = [], blockedMemInsts = [], retryMemInsts = [], nonSpecInsts = Map.empty,
      iq_count = (\<lambda>_. 0), freeEntries = 4, iq_maxEntries = (\<lambda>_. 4), squashedSeqNum = (\<lambda>_. 0),
      iqPolicy = Dynamic, iq_numThreads = 1, iq_numEntries = 4, iq_numPhysRegs = 8, totalWidth = 2\<rparr>"

definition demo_ready :: ReadyQueues where
  "demo_ready = the (Option.bind (addReadyMemInst False demo_store 3 rq_init) (addReadyMemInst False demo_store 2))"

lemma rq_init_ok: "rq_ok h rq_init"
  by (simp add: rq_ok_def rq_init_def)

lemma demo_ready_ok: "rq_ok demo_store demo_ready"
proof -
  obtain r1 where "addReadyMemInst False demo_store 3 rq_init = Some r1" "rq_ok demo_store r1"
    using rq_ok_push [OF rq_init_ok] by blast
  moreover obtain r2 where "addReadyMemInst False demo_store 2 r1 = Some r2" "rq_ok demo_store r2"
    using rq_ok_push [OF \<open>rq_ok demo_store r1\<close>] by blast
  ultimately show ?thesis by (simp add: demo_ready_def)
qed

lemma demo_iq_preds: "pool_preds_ok (demo_iq\<lparr>rq := r\<rparr>)"
  using demo_pool_ok(1) by (simp add: pool_preds_ok_def demo_iq_def demo_md_def md_init_def ss_init_ok)


section \<open>Wakeup\<close>

text \<open>
  The wakeup invariant: an instruction with operands in the dependency graph has as many
  ready operands as it has none there, is not marked ready to issue, and is held by its
  memory dependence unit if it is a memory reference.
\<close>

fun wait_ok :: "iq_state \<Rightarrow> bool" where
  "wait_ok (h, q) \<longleftrightarrow> rq_listed (rq q) \<and> (\<forall>t. md_ok h (memDepUnit q t)) \<and>
     (\<forall>d. waits (dependGraph q) d > 0 \<longrightarrow>
        readyRegs (h d) + waits (dependGraph q) d = numSrcRegs (h d) \<and> numSrcRegs (h d) < 256 \<and>
        \<not> has (h d) CanIssue \<and>
        (sflag (h d) IsMemRef \<longrightarrow> md_holds h (memDepUnit q (threadNumber (h d))) d))"

lemma wait_okD:
  assumes "wait_ok (h, q)" and "waits (dependGraph q) d > 0"
  shows "readyRegs (h d) + waits (dependGraph q) d = numSrcRegs (h d)" and "numSrcRegs (h d) < 256"
    and "\<not> has (h d) CanIssue"
    and "sflag (h d) IsMemRef \<longrightarrow> md_holds h (memDepUnit q (threadNumber (h d))) d"
  using assms by auto

text \<open>How a wakeup changes the state.\<close>

fun wake_rel :: "iq_state \<Rightarrow> iq_state \<Rightarrow> bool" where
  "wake_rel (h, q) (h', q') \<longleftrightarrow>
     (\<forall>d. \<exists>rr st. h' d = (h d)\<lparr>readyRegs := rr, status := st\<rparr>) \<and>
     numEntries (dependGraph q') = numEntries (dependGraph q) \<and>
     (\<forall>d. waits (dependGraph q') d \<le> waits (dependGraph q) d) \<and>
     (\<forall>d. waits (dependGraph q) d = 0 \<longrightarrow> h' d = h d) \<and>
     (\<forall>d. waits (dependGraph q) d > 0 \<longrightarrow>
        readyRegs (h' d) + waits (dependGraph q') d = readyRegs (h d) + waits (dependGraph q) d) \<and>
     (\<forall>d. waits (dependGraph q) d > 0 \<and> waits (dependGraph q') d = 0 \<longrightarrow>
        has (h' d) CanIssue \<and> (\<not> sflag (h d) IsMemRef \<longrightarrow> on_ready h' (rq q') d)) \<and>
     (\<forall>d. on_ready h (rq q) d \<longrightarrow> on_ready h' (rq q') d)"

lemma wake_rel_refl: "wake_rel (h, q) (h, q)"
proof -
  have "\<exists>rr st. h d = (h d)\<lparr>readyRegs := rr, status := st\<rparr>" for d
    by (intro exI [of _ "readyRegs (h d)"] exI [of _ "status (h d)"]) simp
  then show ?thesis by auto
qed

lemma wake_relD:
  assumes "wake_rel (h, q) (h', q')"
  shows "\<exists>rr st. h' d = (h d)\<lparr>readyRegs := rr, status := st\<rparr>"
    and "numEntries (dependGraph q') = numEntries (dependGraph q)"
    and "waits (dependGraph q') d \<le> waits (dependGraph q) d"
    and "waits (dependGraph q) d = 0 \<Longrightarrow> h' d = h d"
    and "waits (dependGraph q) d > 0 \<Longrightarrow>
        readyRegs (h' d) + waits (dependGraph q') d = readyRegs (h d) + waits (dependGraph q) d"
    and "waits (dependGraph q) d > 0 \<Longrightarrow> waits (dependGraph q') d = 0 \<Longrightarrow>
        has (h' d) CanIssue \<and> (\<not> sflag (h d) IsMemRef \<longrightarrow> on_ready h' (rq q') d)"
    and "on_ready h (rq q) d \<Longrightarrow> on_ready h' (rq q') d"
  using assms unfolding wake_rel.simps by blast+

lemma wake_rel_ids:
  assumes "wake_rel (h, q) (h', q')"
  shows "seqNum (h' d) = seqNum (h d)" "threadNumber (h' d) = threadNumber (h d)"
    "staticInst (h' d) = staticInst (h d)" "dest_regs (h' d) = dest_regs (h d)"
proof -
  obtain rr st where "h' d = (h d)\<lparr>readyRegs := rr, status := st\<rparr>" using wake_relD(1) [OF assms] by blast
  then show "seqNum (h' d) = seqNum (h d)" "threadNumber (h' d) = threadNumber (h d)"
    "staticInst (h' d) = staticInst (h d)" "dest_regs (h' d) = dest_regs (h d)"
    by (simp_all add: dest_regs_def)
qed

lemma wake_rel_trans:
  assumes a: "wake_rel (h, q) (h1, q1)" and b: "wake_rel (h1, q1) (h2, q2)"
  shows "wake_rel (h, q) (h2, q2)"
  unfolding wake_rel.simps
proof (intro conjI allI impI)
  fix d
  note A = wake_relD(3-) [OF a, of d] and B = wake_relD(3-) [OF b, of d]
    and st = wake_rel_ids(3) [OF a, of d]
  obtain rr st rr' st' where "h1 d = (h d)\<lparr>readyRegs := rr, status := st\<rparr>"
    "h2 d = (h1 d)\<lparr>readyRegs := rr', status := st'\<rparr>" using wake_relD(1) [OF a] wake_relD(1) [OF b] by metis
  then show "\<exists>rr st. h2 d = (h d)\<lparr>readyRegs := rr, status := st\<rparr>" by auto
  show "waits (dependGraph q2) d \<le> waits (dependGraph q) d" using A(1) B(1) by simp
  show "h2 d = h d" if "waits (dependGraph q) d = 0" using that A B by simp
  show "readyRegs (h2 d) + waits (dependGraph q2) d = readyRegs (h d) + waits (dependGraph q) d"
    if "waits (dependGraph q) d > 0"
    using that A B by (cases "waits (dependGraph q1) d = 0") simp_all
  show "has (h2 d) CanIssue" "\<not> sflag (h d) IsMemRef \<Longrightarrow> on_ready h2 (rq q2) d"
    if "waits (dependGraph q) d > 0 \<and> waits (dependGraph q2) d = 0"
    using that A B st by (cases "waits (dependGraph q1) d = 0"; simp)+
  show "on_ready h2 (rq q2) d" if "on_ready h (rq q) d" using that A B by simp
qed (use wake_relD(2) [OF a] wake_relD(2) [OF b] in simp)

lemma addIfReady_total:
  assumes rq: "rq_listed (rq q)" and md: "\<forall>t. md_ok h (memDepUnit q t)"
    and held: "sflag (h p) IsMemRef \<longrightarrow> md_holds h (memDepUnit q (threadNumber (h p))) p"
  shows "\<exists>r m. addIfReady fl p (h, q) = Some (h, q\<lparr>rq := r, memDepUnit := m\<rparr>) \<and> rq_listed r \<and>
     (\<forall>t. md_ok h (m t)) \<and> (\<forall>t x. md_holds h (m t) x = md_holds h (memDepUnit q t) x) \<and>
     (\<forall>x. on_ready h (rq q) x \<longrightarrow> on_ready h r x) \<and>
     (has (h p) CanIssue \<and> \<not> sflag (h p) IsMemRef \<longrightarrow> on_ready h r p)"
proof (cases "has (h p) CanIssue")
  case False
  with rq md show ?thesis
    by (intro exI [of _ "rq q"] exI [of _ "memDepUnit q"]) (simp add: addIfReady_def)
next
  case CI: True
  show ?thesis
  proof (cases "sflag (h p) IsMemRef")
    case False
    let ?prio = "CD_Prioritize_Branch_Execution fl"
    obtain r where r: "addReadyMemInst ?prio h p (rq q) = Some r" "rq_listed r"
      using addReadyMemInst_listed [OF rq] by blast
    have "on_ready h r x = (x = p \<or> on_ready h (rq q) x)" for x
      using on_ready_push [where h = h and p = p and q = "rq q" and q' = r] addReadyMemInst_readyInsts [OF r(1)] by blast
    with False CI r md show ?thesis
      by (intro exI [of _ r] exI [of _ "memDepUnit q"]) (simp add: addIfReady_def)
  next
    case True
    let ?t = "threadNumber (h p)" and ?prio = "CD_Prioritize_Branch_Execution fl"
    obtain e where e: "memDepHash (memDepUnit q ?t) (seqNum (h p)) = Some e"
      using md_holds_entry held True md by metis
    obtain r m where m: "md_regsReady ?prio p (h, rq q, memDepUnit q ?t) = Some (h, r, m)" "md_ok h m"
      "rq_listed r" "m = upd_md_entry e (\<lambda>x. x\<lparr>e_regsReady := True\<rparr>) (memDepUnit q ?t)"
      "if memDepReady (md_entry (memDepUnit q ?t) e)
       then push_ready h (e_inst (md_entry (memDepUnit q ?t) e)) (rq q) r else r = rq q"
      using md_regsReady_total [of h "memDepUnit q ?t" "rq q" p e ?prio] md rq e by blast
    have "on_ready h (rq q) x \<longrightarrow> on_ready h r x" for x
      using m(5) by (auto simp: on_ready_def split: if_splits)
    with True CI m md show ?thesis
      by (intro exI [of _ r] exI [of _ "(memDepUnit q)(?t := m)"])
        (simp add: addIfReady_def with_md_def md_holds_def)
  qed
qed

lemma md_holds_cong:
  "(\<And>x. threadNumber (h' x) = threadNumber (h x)) \<Longrightarrow> md_holds h' m p = md_holds h m p"
  by (simp add: md_holds_def)

lemma on_ready_cong:
  "(\<And>x. staticInst (h' x) = staticInst (h x)) \<Longrightarrow> on_ready h' r p = on_ready h r p"
  by (simp add: on_ready_def)

lemma markSrcRegReady_below:
  assumes "readyRegs i < numSrcRegs i" and "numSrcRegs i < 256"
  shows "\<exists>st. markSrcRegReady i = Some (i\<lparr>readyRegs := readyRegs i + 1, status := st\<rparr>) \<and>
     st = (if readyRegs i + 1 = numSrcRegs i then insert CanIssue (status i) else status i)"
  using assms by (auto simp: markSrcRegReady_def Let_def set_status_def)

lemma wake_next_total:
  assumes ok: "wait_ok (h, q)" and idx: "idx < numEntries (dependGraph q)"
    and ch: "chain (entries (dependGraph q) idx) = dep # ps"
  shows "\<exists>h' q'. wake_next fl idx (h, q) = Some (h', q') \<and> wait_ok (h', q') \<and> wake_rel (h, q) (h', q') \<and>
     dependGraph q' = snd (dg_pop idx (dependGraph q)) \<and> regScoreboard q' = regScoreboard q"
proof -
  let ?g = "dependGraph q"
  obtain g' where pop: "dg_pop idx ?g = (Some dep, g')" using ch by (simp add: dg_pop_def)
  have w: "waits ?g x = waits g' x + (if x = dep then 1 else 0)" for x
    using waits_dg_pop [OF idx pop] .
  have ne: "numEntries g' = numEntries ?g" using ch pop by (auto simp: dg_pop_def dg_defs)
  have "waits ?g dep > 0" using w [of dep] by simp
  note rr = wait_okD [OF ok this]
  have lt: "readyRegs (h dep) < numSrcRegs (h dep)" using rr(1) w [of dep] by simp
  from markSrcRegReady_below [OF lt rr(2)] obtain st where st:
    "markSrcRegReady (h dep) = Some ((h dep)\<lparr>readyRegs := readyRegs (h dep) + 1, status := st\<rparr>)"
    "st = (if waits g' dep = 0 then insert CanIssue (status (h dep)) else status (h dep))"
    using rr(1) w [of dep] by auto
  define h1 where "h1 = h(dep := (h dep)\<lparr>readyRegs := readyRegs (h dep) + 1, status := st\<rparr>)"
  define q1 where "q1 = q\<lparr>dependGraph := g'\<rparr>"
  have ids: "seqNum (h1 x) = seqNum (h x) \<and> threadNumber (h1 x) = threadNumber (h x)"
    "staticInst (h1 x) = staticInst (h x)" for x by (auto simp: h1_def)
  have md: "\<forall>t. md_ok h1 (memDepUnit q1 t)" using ok md_ok_cong [of h1 h] ids by (simp add: q1_def)
  have held: "md_holds h1 m x = md_holds h m x" for m x using md_holds_cong [of h1 h] ids by blast
  have "sflag (h1 dep) IsMemRef \<longrightarrow> md_holds h1 (memDepUnit q1 (threadNumber (h1 dep))) dep"
    using rr(4) held ids by (simp add: q1_def)
  from addIfReady_total [OF _ md this, of fl] ok obtain r m where add:
    "addIfReady fl dep (h1, q1) = Some (h1, q1\<lparr>rq := r, memDepUnit := m\<rparr>)" "rq_listed r" "\<forall>t. md_ok h1 (m t)"
    "\<forall>t x. md_holds h1 (m t) x = md_holds h1 (memDepUnit q1 t) x" "\<forall>x. on_ready h1 (rq q1) x \<longrightarrow> on_ready h1 r x"
    "has (h1 dep) CanIssue \<and> \<not> sflag (h1 dep) IsMemRef \<longrightarrow> on_ready h1 r dep" by (auto simp: q1_def)
  have step: "wake_next fl idx (h, q) = Some (h1, q1\<lparr>rq := r, memDepUnit := m\<rparr>)"
    using pop st(1) add(1) by (simp add: wake_next_def updM_inst_def h1_def q1_def)
  have wok: "wait_ok (h1, q1\<lparr>rq := r, memDepUnit := m\<rparr>)"
    unfolding wait_ok.simps
  proof (intro conjI allI impI)
    fix d
    assume "waits (dependGraph (q1\<lparr>rq := r, memDepUnit := m\<rparr>)) d > 0"
    then have d: "waits g' d > 0" by (simp add: q1_def)
    then have "waits ?g d > 0" using w [of d] by simp
    note okd = wait_okD [OF ok this]
    show "readyRegs (h1 d) + waits (dependGraph (q1\<lparr>rq := r, memDepUnit := m\<rparr>)) d = numSrcRegs (h1 d)"
      "numSrcRegs (h1 d) < 256" "\<not> has (h1 d) CanIssue"
      using okd(1-3) w [of d] d st(2) by (auto simp: h1_def q1_def split: if_splits)
    show "md_holds h1 (memDepUnit (q1\<lparr>rq := r, memDepUnit := m\<rparr>) (threadNumber (h1 d))) d"
      if "sflag (h1 d) IsMemRef" using that okd(4) add(4) held ids by (simp add: q1_def)
  qed (use add in auto)
  have "wake_rel (h, q) (h1, q1\<lparr>rq := r, memDepUnit := m\<rparr>)"
    unfolding wake_rel.simps
  proof (intro conjI allI impI)
    fix d
    show "\<exists>rr st. h1 d = (h d)\<lparr>readyRegs := rr, status := st\<rparr>"
      using wake_relD(1) [OF wake_rel_refl, of h d] by (auto simp: h1_def)
    show "on_ready h1 (rq (q1\<lparr>rq := r, memDepUnit := m\<rparr>)) d" if "on_ready h (rq q) d"
      using that add(5) on_ready_cong [of h1 h] ids by (simp add: q1_def)
  qed (use w rr st ne add(6) ids in \<open>auto simp: q1_def h1_def split: if_splits\<close>)
  with step wok pop show ?thesis by (auto simp: q1_def)
qed

abbreviation chain_of :: "InstructionQueue \<Rightarrow> nat \<Rightarrow> inst_ptr list" where
  "chain_of q k \<equiv> chain (entries (dependGraph q) k)"

lemma wake_chain_total:
  assumes "wait_ok (h, q)" and "idx < numEntries (dependGraph q)" and "chain_of q idx = xs"
  shows "\<exists>h' q'. foldM (\<lambda>_. wake_next fl idx) xs (h, q) = Some (h', q') \<and> wait_ok (h', q') \<and>
     wake_rel (h, q) (h', q') \<and> chain_of q' idx = [] \<and> (\<forall>k. k \<noteq> idx \<longrightarrow> chain_of q' k = chain_of q k) \<and>
     regScoreboard q' = regScoreboard q"
  using assms
proof (induction xs arbitrary: h q)
  case Nil
  then show ?case using wake_rel_refl by (auto simp del: wait_ok.simps wake_rel.simps)
next
  case (Cons dep ps)
  obtain h1 q1 where 1: "wake_next fl idx (h, q) = Some (h1, q1)" "wait_ok (h1, q1)" "wake_rel (h, q) (h1, q1)"
    "dependGraph q1 = snd (dg_pop idx (dependGraph q))" "regScoreboard q1 = regScoreboard q"
    using wake_next_total [OF Cons.prems] by blast
  have c: "chain_of q1 idx = ps" "\<forall>k. k \<noteq> idx \<longrightarrow> chain_of q1 k = chain_of q k"
    using 1(4) Cons.prems(3) by (auto simp: dg_pop_def dg_defs)
  have "idx < numEntries (dependGraph q1)" using wake_relD(2) [OF 1(3)] Cons.prems(2) by simp
  from Cons.IH [OF 1(2) this c(1)] obtain h2 q2 where "foldM (\<lambda>_. wake_next fl idx) ps (h1, q1) = Some (h2, q2)"
    "wait_ok (h2, q2)" "wake_rel (h1, q1) (h2, q2)" "chain_of q2 idx = []"
    "\<forall>k. k \<noteq> idx \<longrightarrow> chain_of q2 k = chain_of q1 k" "regScoreboard q2 = regScoreboard q1" by blast
  with 1 c wake_rel_trans [OF 1(3) this(3)] show ?case
    by (auto simp del: wait_ok.simps wake_rel.simps)
qed

lemma waits_clearInst [simp]: "waits (clearInst idx g) d = waits g d"
  by (simp add: waits_def clearInst_def upd_entry_def) (intro sum.cong, auto)

lemma numEntries_clearInst [simp]: "numEntries (clearInst idx g) = numEntries g"
  by (simp add: clearInst_def upd_entry_def)

lemma chain_clearInst [simp]: "chain (entries (clearInst idx g) k) = chain (entries g k)"
  by (simp add: clearInst_def upd_entry_def)

lemma wake_register_total:
  assumes ok: "wait_ok (h, q)" and idx: "flatIdx r < numEntries (dependGraph q)"
  shows "\<exists>n' h' q'. wake_register fl r (n, h, q) = Some (n', h', q') \<and> wait_ok (h', q') \<and> wake_rel (h, q) (h', q') \<and>
     (if isFixedMapping r then h' = h \<and> q' = q
      else chain_of q' (flatIdx r) = [] \<and> (\<forall>k. k \<noteq> flatIdx r \<longrightarrow> chain_of q' k = chain_of q k) \<and>
           regScoreboard q' = (regScoreboard q)(flatIdx r := True))"
proof (cases "isFixedMapping r")
  case True
  with ok wake_rel_refl show ?thesis
    by (simp add: wake_register_def del: wait_ok.simps wake_rel.simps)
next
  case False
  obtain h1 q1 where 1: "foldM (\<lambda>_. wake_next fl (flatIdx r)) (chain_of q (flatIdx r)) (h, q) = Some (h1, q1)"
    "wait_ok (h1, q1)" "wake_rel (h, q) (h1, q1)" "chain_of q1 (flatIdx r) = []"
    "\<forall>k. k \<noteq> flatIdx r \<longrightarrow> chain_of q1 k = chain_of q k" "regScoreboard q1 = regScoreboard q"
    using wake_chain_total [OF ok idx refl] by blast
  let ?q = "q1\<lparr>dependGraph := clearInst (flatIdx r) (dependGraph q1),
               regScoreboard := (regScoreboard q1)(flatIdx r := True)\<rparr>"
  have "wake_register fl r (n, h, q) = Some (n + length (chain_of q (flatIdx r)), h1, ?q)"
    using False 1(1,4) by (simp add: wake_register_def Let_def dg_empty_at_def)
  moreover have "wait_ok (h1, ?q)" using 1(2) by simp
  moreover have "wake_rel (h, q) (h1, ?q)" using 1(3) by simp
  ultimately show ?thesis using False 1(4-6)
    by (auto simp del: wait_ok.simps wake_rel.simps)
qed

lemma wake_registers_total:
  assumes "wait_ok (h, q)" and "\<forall>r\<in>set rs. flatIdx r < numEntries (dependGraph q)"
  shows "\<exists>n' h' q'. foldM (wake_register fl) rs (n, h, q) = Some (n', h', q') \<and> wait_ok (h', q') \<and>
     wake_rel (h, q) (h', q') \<and>
     (\<forall>k. chain_of q' k = (if \<exists>r\<in>set rs. \<not> isFixedMapping r \<and> flatIdx r = k then [] else chain_of q k)) \<and>
     (\<forall>k. regScoreboard q' k = (regScoreboard q k \<or> (\<exists>r\<in>set rs. \<not> isFixedMapping r \<and> flatIdx r = k)))"
  using assms
proof (induction rs arbitrary: n h q)
  case Nil
  then show ?case using wake_rel_refl by (auto simp del: wait_ok.simps wake_rel.simps)
next
  case (Cons r rs)
  have "flatIdx r < numEntries (dependGraph q)" using Cons.prems(2) by simp
  from wake_register_total [OF Cons.prems(1) this, of fl n] obtain n1 h1 q1 where 1:
    "wake_register fl r (n, h, q) = Some (n1, h1, q1)" "wait_ok (h1, q1)" "wake_rel (h, q) (h1, q1)"
    "if isFixedMapping r then h1 = h \<and> q1 = q
      else chain_of q1 (flatIdx r) = [] \<and> (\<forall>k. k \<noteq> flatIdx r \<longrightarrow> chain_of q1 k = chain_of q k) \<and>
           regScoreboard q1 = (regScoreboard q)(flatIdx r := True)" by blast
  have "\<forall>r\<in>set rs. flatIdx r < numEntries (dependGraph q1)"
    using Cons.prems(2) wake_relD(2) [OF 1(3)] by simp
  from Cons.IH [OF 1(2) this, of n1] obtain n2 h2 q2 where 2: "foldM (wake_register fl) rs (n1, h1, q1) = Some (n2, h2, q2)"
    "wait_ok (h2, q2)" "wake_rel (h1, q1) (h2, q2)"
    "\<forall>k. chain_of q2 k = (if \<exists>r\<in>set rs. \<not> isFixedMapping r \<and> flatIdx r = k then [] else chain_of q1 k)"
    "\<forall>k. regScoreboard q2 k = (regScoreboard q1 k \<or> (\<exists>r\<in>set rs. \<not> isFixedMapping r \<and> flatIdx r = k))" by blast
  have "wake_rel (h, q) (h2, q2)" using wake_rel_trans [OF 1(3) 2(3)] .
  moreover have "\<forall>k. chain_of q2 k =
      (if \<exists>r\<in>set (r # rs). \<not> isFixedMapping r \<and> flatIdx r = k then [] else chain_of q k)"
    using 1(4) 2(4) by (auto split: if_splits)
  moreover have "\<forall>k. regScoreboard q2 k = (regScoreboard q k \<or> (\<exists>r\<in>set (r # rs). \<not> isFixedMapping r \<and> flatIdx r = k))"
    using 1(4) 2(5) by (auto split: if_splits)
  ultimately show ?case using 1(1) 2(1,2) by (auto simp del: wait_ok.simps wake_rel.simps)
qed


definition demo_wait :: iq_state where
  "demo_wait = ((\<lambda>_. sample_inst 0 {} {})(2 := sample_inst 5 {} {}, 3 := (sample_inst 6 {} {})
     \<lparr>srcRegIdx := (\<lambda>_. sample_reg 3), destRegIdx := (\<lambda>_. sample_reg 5)\<rparr>),
     demo_iq\<lparr>dependGraph := dg_insert 3 3 (dependGraph demo_iq)\<rparr>)"

lemma demo_wait_waits: "waits (dependGraph (snd demo_wait)) d = (if d = 3 then 1 else 0)"
  using waits_dg_insert [of 3 "dependGraph demo_iq" 3 d]
  by (auto simp: demo_wait_def demo_iq_def waits_def)

lemma demo_wait_ok: "wait_ok (fst demo_wait, snd demo_wait)"
  using demo_wait_waits
  by (auto simp: demo_wait_def demo_iq_def demo_md_def md_ok_init)


end
