(* ===== verification/Scoreboard.thy ===== *)
theory Scoreboard
  imports DynInst
begin

text \<open>
  The register scoreboard shared by rename, the execute stage and the reorder buffer
  (\<open>cpu/o3/scoreboard.hh\<close>, \<open>cpu/o3/scoreboard.cc\<close>): one ready bit for each physical
  register. Registers with a fixed mapping are always ready; the zero register is never
  marked unready.
\<close>

record Scoreboard =
  regScoreBoard :: "nat \<Rightarrow> bool"
  numPhysRegs :: nat

definition Scoreboard_init :: "nat \<Rightarrow> Scoreboard" where
  "Scoreboard_init n = \<lparr>regScoreBoard = (\<lambda>_. True), numPhysRegs = n\<rparr>"

definition getReg :: "isa_params \<Rightarrow> PhysRegId \<Rightarrow> Scoreboard \<Rightarrow> bool option" where
  "getReg isa r sb =
     do {
       assert_that (flatIdx r < numPhysRegs sb);
       if isFixedMapping r then Some True
       else do {
         let ready = regScoreBoard sb (flatIdx r);
         assert_that (isZeroReg isa r \<longrightarrow> ready);
         Some ready
       }
     }"

definition setReg :: "PhysRegId \<Rightarrow> Scoreboard \<Rightarrow> Scoreboard option" where
  "setReg r sb =
     do {
       assert_that (flatIdx r < numPhysRegs sb);
       if isFixedMapping r then Some sb
       else Some (sb\<lparr>regScoreBoard := (regScoreBoard sb)(flatIdx r := True)\<rparr>)
     }"

definition unsetReg :: "isa_params \<Rightarrow> PhysRegId \<Rightarrow> Scoreboard \<Rightarrow> Scoreboard option" where
  "unsetReg isa r sb =
     do {
       assert_that (flatIdx r < numPhysRegs sb);
       if isFixedMapping r then Some sb
       else if isZeroReg isa r then Some sb
       else Some (sb\<lparr>regScoreBoard := (regScoreBoard sb)(flatIdx r := False)\<rparr>)
     }"

section \<open>Interface\<close>

text \<open>
  What the clients of a scoreboard rely on: \<open>ready\<close> reads a register's bit by its flat
  index, and marking a register ready changes no other register.
\<close>

locale ready_table =
  fixes set_ready :: "PhysRegId \<Rightarrow> 't \<Rightarrow> 't option"
    and ready :: "'t \<Rightarrow> nat \<Rightarrow> bool"
  assumes set_ready_same: "set_ready r t = Some t' \<Longrightarrow> \<not> isFixedMapping r \<Longrightarrow> ready t' (flatIdx r)"
    and set_ready_other: "set_ready r t = Some t' \<Longrightarrow> k \<noteq> flatIdx r \<Longrightarrow> ready t' k = ready t k"
    and set_ready_fixed: "set_ready r t = Some t' \<Longrightarrow> isFixedMapping r \<Longrightarrow> t' = t"
begin

text \<open>Marking a list of registers makes exactly the renamed registers of the list ready.\<close>

lemma set_ready_mono: "set_ready r t = Some t' \<Longrightarrow> ready t k \<Longrightarrow> ready t' k"
  by (metis set_ready_same set_ready_other set_ready_fixed)

lemma set_ready_all:
  assumes "foldM set_ready rs t = Some t'"
  shows "ready t' k = (ready t k \<or> (\<exists>r\<in>set rs. \<not> isFixedMapping r \<and> flatIdx r = k))"
  using assms
proof (induction rs arbitrary: t)
  case Nil
  then show ?case by simp
next
  case (Cons r rs)
  then obtain t1 where step: "set_ready r t = Some t1" and rest: "foldM set_ready rs t1 = Some t'"
    by (auto simp: bind_eq_Some_conv)
  have "ready t1 k = (ready t k \<or> (\<not> isFixedMapping r \<and> flatIdx r = k))"
    using set_ready_same [OF step] set_ready_other [OF step] set_ready_fixed [OF step] by metis
  with Cons.IH [OF rest] show ?case by auto
qed

end

interpretation sb: ready_table setReg regScoreBoard
  by unfold_locales (auto simp: setReg_def split: if_splits)

section \<open>Behaviour\<close>

lemma setReg_numPhysRegs: "setReg r sb = Some sb' \<Longrightarrow> numPhysRegs sb' = numPhysRegs sb"
  by (auto simp: setReg_def split: if_splits)

lemma setReg_total: "flatIdx r < numPhysRegs sb \<Longrightarrow> \<exists>sb'. setReg r sb = Some sb'"
  by (simp add: setReg_def)

lemma setRegs_total:
  "\<forall>r\<in>set rs. flatIdx r < numPhysRegs sb \<Longrightarrow> \<exists>sb'. foldM setReg rs sb = Some sb'"
proof (induction rs arbitrary: sb)
  case Nil
  then show ?case by simp
next
  case (Cons r rs)
  from Cons.prems obtain sb1 where s: "setReg r sb = Some sb1" using setReg_total by fastforce
  with Cons.prems have "\<forall>r\<in>set rs. flatIdx r < numPhysRegs sb1"
    by (simp add: setReg_numPhysRegs)
  with s Cons.IH show ?case by simp
qed

text \<open>The assertion of \<open>getReg\<close> on the zero register cannot fail: no operation unsets it.\<close>

definition zero_ready :: "isa_params \<Rightarrow> (PhysRegId \<Rightarrow> bool) \<Rightarrow> Scoreboard \<Rightarrow> bool" where
  "zero_ready isa regs sb \<longleftrightarrow> (\<forall>r. regs r \<and> isZeroReg isa r \<longrightarrow> regScoreBoard sb (flatIdx r))"

lemma zero_ready_setReg:
  "zero_ready isa regs sb \<Longrightarrow> setReg r sb = Some sb' \<Longrightarrow> zero_ready isa regs sb'"
  unfolding zero_ready_def using sb.set_ready_mono by blast

lemma zero_ready_unsetReg:
  assumes "zero_ready isa regs sb" and "unsetReg isa r sb = Some sb'"
    and inj: "\<And>q. regs q \<Longrightarrow> isZeroReg isa q \<Longrightarrow> flatIdx q = flatIdx r \<Longrightarrow> q = r"
  shows "zero_ready isa regs sb'"
  using assms by (fastforce simp: zero_ready_def unsetReg_def split: if_splits)

end
