(* ===== verification/Backend.thy ===== *)
theory Backend
  imports Squash InstQueue Scoreboard
begin

text \<open>
  The back end of the core: the instruction queue and the rename scoreboard together. It
  supplies the wakeup of a safe instruction's dependents
  (\<open>ROB::wakeupSafeInstructionDependants\<close>, \<open>DefaultIEW::wakeDependents\<close>) and the dispatch of
  an instruction (\<open>DefaultIEW::dispatchInsts\<close>), shows that they meet the interface of
  \<open>Nda\<close>, and states the guarantees of the speculation defence for the composed core.
\<close>

section \<open>Operations\<close>

type_synonym backend = "InstructionQueue \<times> Scoreboard"

definition wakeupSafeInstructionDependants :: "cd_flags \<Rightarrow> backend wake_fun" where
  "wakeupSafeInstructionDependants fl p s =
     (case s of (h, q, sb) \<Rightarrow> do {
        (n, h, q) \<leftarrow> iq_wakeDependents fl p (h, q);
        sb \<leftarrow> foldM setReg (dest_regs (h p)) sb;
        Some (h, q, sb)
      })"

text \<open>A register is visible when either ready table has it.\<close>

definition visible :: "backend \<Rightarrow> nat \<Rightarrow> bool" where
  "visible e k \<longleftrightarrow> regScoreboard (fst e) k \<or> regScoreBoard (snd e) k"

text \<open>
  Dispatch of one unsquashed instruction for which the queues have room. The load/store
  queue's own entry is not part of this state.
\<close>

definition dispatch_inst :: "cd_flags \<Rightarrow> backend wake_fun" where
  "dispatch_inst fl p s =
     (case s of (h, q, sb) \<Rightarrow>
        let nonspec = (\<lambda>h. do {
              (h, q) \<leftarrow> iq_insertNonSpec p (upd_inst p (set_status CanCommit) h, q);
              Some (h, q, sb)
            });
            to_iq = (if sflag (h p) IsNonSpeculative then nonspec h
                     else do { (h, q) \<leftarrow> iq_insert fl p (h, q); Some (h, q, sb) })
        in if sflag (h p) IsLoad then to_iq
           else if sflag (h p) IsStore
           then if sflag (h p) IsStoreConditional then nonspec h else to_iq
           else if sflag (h p) IsMemBarrier \<or> sflag (h p) IsWriteBarrier
           then do {
             (h, q) \<leftarrow> iq_insertBarrier p (upd_inst p (set_status CanCommit) h, q);
             Some (h, q, sb)
           }
           else if sflag (h p) IsNop
           then do {
             (h, q) \<leftarrow> addToProducers p (upd_inst p (set_status CanCommit \<circ> set_status Executed \<circ> set_status Issued) h, q);
             Some (h, q, sb)
           }
           else do { assert_that (\<not> has (h p) Executed); to_iq })"

definition report_violation :: "inst_ptr \<Rightarrow> inst_ptr \<Rightarrow> inst_store \<times> backend \<Rightarrow> (inst_store \<times> backend) option" where
  "report_violation st ld s =
     (case s of (h, q, sb) \<Rightarrow> do {
        (h, q) \<leftarrow> iq_violation st ld (h, q);
        Some (h, q, sb)
      })"

section \<open>What the instruction queue leaves alone\<close>

text \<open>A step of the queue that the reorder buffer cannot see and that readies no register.\<close>

definition quiet :: "iq_state \<Rightarrow> iq_state \<Rightarrow> bool" where
  "quiet s s' \<longleftrightarrow> (\<forall>i. rob_view (fst s' i) = rob_view (fst s i)) \<and> regScoreboard (snd s') = regScoreboard (snd s)"

lemma quiet_refl: "quiet s s"
  by (simp add: quiet_def)

lemma quiet_trans: "quiet s s1 \<Longrightarrow> quiet s1 s2 \<Longrightarrow> quiet s s2"
  by (simp add: quiet_def)

lemma quietI:
  "(\<And>i. rob_view (h' i) = rob_view (h i)) \<Longrightarrow> regScoreboard q' = regScoreboard q \<Longrightarrow> quiet (h, q) (h', q')"
  by (simp add: quiet_def)

lemma quietD:
  assumes "quiet (h, q) (h', q')"
  shows "rob_view (h' i) = rob_view (h i)" and "regScoreboard q' = regScoreboard q"
  using assms by (simp_all add: quiet_def)

lemma rob_view_markSrcRegReady: "markSrcRegReady i = Some i' \<Longrightarrow> rob_view i' = rob_view i"
  by (auto simp: markSrcRegReady_def rob_view_def set_status_def dest_regs_def Let_def split: if_splits)

lemma rob_view_upd:
  "(\<And>i. rob_view (f i) = rob_view i) \<Longrightarrow> rob_view (upd_inst p f h q) = rob_view (h q)"
  by (simp add: upd_inst_apply)

lemma rob_view_set_flag: "rob_view (set_flag a v i) = rob_view i"
  by (simp add: rob_view_def set_flag_def dest_regs_def)

lemma rob_view_updM:
  "updM_inst p f h = Some h' \<Longrightarrow> (\<And>i i'. f i = Some i' \<Longrightarrow> rob_view i' = rob_view i) \<Longrightarrow> rob_view (h' q) = rob_view (h q)"
  by (auto simp: updM_inst_def)

text \<open>The memory dependence unit does not touch the instructions, except when inserting one.\<close>

lemma moveToReady_store: "moveToReady prio e (h, r, m) = Some (h', r', m') \<Longrightarrow> h' = h"
  by (auto simp: moveToReady_def bind_eq_Some_conv)

lemma md_regsReady_store: "md_regsReady prio p (h, r, m) = Some (h', r', m') \<Longrightarrow> h' = h"
  by (auto simp: md_regsReady_def bind_eq_Some_conv Let_def dest: moveToReady_store split: if_splits)

lemma wake_dependent_store: "wake_dependent prio e (h, r, m) = Some (h', r', m') \<Longrightarrow> h' = h"
  by (auto simp: wake_dependent_def dest: moveToReady_store split: if_splits)

lemma wake_dependents_store: "foldM (wake_dependent prio) es s = Some s' \<Longrightarrow> fst s' = fst s"
  by (erule foldM_relation [where R = "\<lambda>s s'. fst s' = fst s"]) (auto dest: wake_dependent_store)

lemma md_wakeDependents_store: "md_wakeDependents prio p (h, r, m) = Some (h', r', m') \<Longrightarrow> h' = h"
  by (auto simp: md_wakeDependents_def bind_eq_Some_conv dest: wake_dependents_store split: if_splits)

lemma md_completeBarrier_store: "md_completeBarrier prio p (h, r, m) = Some (h', r', m') \<Longrightarrow> h' = h"
  by (auto simp: md_completeBarrier_def bind_eq_Some_conv Let_def dest: md_wakeDependents_store)

lemma with_md_quiet:
  assumes "with_md t f (h, q) = Some (h', q')"
    and "\<And>r m h' r' m'. f (h, r, m) = Some (h', r', m') \<Longrightarrow> \<forall>i. rob_view (h' i) = rob_view (h i)"
  shows "quiet (h, q) (h', q')"
proof -
  obtain r m where f: "f (h, rq q, memDepUnit q t) = Some (h', r, m)"
    and q': "q' = q\<lparr>rq := r, memDepUnit := (memDepUnit q)(t := m)\<rparr>"
    using assms(1) by (auto simp: with_md_def bind_eq_Some_conv)
  show ?thesis using assms(2) [OF f] q' by (simp add: quiet_def)
qed

lemma addIfReady_quiet:
  assumes "addIfReady fl p (h, q) = Some (h', q')"
  shows "quiet (h, q) (h', q')"
proof (cases "has (h p) CanIssue \<and> sflag (h p) IsMemRef")
  case True
  with assms show ?thesis
    by (auto simp: addIfReady_def intro!: with_md_quiet dest: md_regsReady_store)
next
  case False
  with assms show ?thesis
    by (auto simp: addIfReady_def quiet_def bind_eq_Some_conv split: if_splits)
qed

section \<open>Wakeup meets the interface\<close>

lemma wake_next_quiet:
  assumes "wake_next fl idx (h, q) = Some (h', q')"
  shows "quiet (h, q) (h', q')"
proof -
  obtain d g where dg: "dg_pop idx (dependGraph q) = (d, g)" by (metis surj_pair)
  show ?thesis
  proof (cases d)
    case None
    with assms dg show ?thesis by (auto simp: wake_next_def quiet_def)
  next
    case (Some dep)
    with assms dg obtain h1 where 1: "updM_inst dep markSrcRegReady h = Some h1"
      and 2: "addIfReady fl dep (h1, q\<lparr>dependGraph := g\<rparr>) = Some (h', q')"
      by (auto simp: wake_next_def bind_eq_Some_conv)
    have "quiet (h, q) (h1, q\<lparr>dependGraph := g\<rparr>)"
      by (rule quietI) (auto intro: rob_view_updM [OF 1] rob_view_markSrcRegReady)
    then show ?thesis using addIfReady_quiet [OF 2] quiet_trans by blast
  qed
qed

text \<open>The registers a list of identifiers stands for.\<close>

abbreviation renamed_in :: "PhysRegId list \<Rightarrow> nat \<Rightarrow> bool" where
  "renamed_in rs k \<equiv> \<exists>r\<in>set rs. \<not> isFixedMapping r \<and> flatIdx r = k"

lemma wake_register_effect:
  assumes "wake_register fl r (n, h, q) = Some (n', h', q')"
  shows "rob_view (h' i) = rob_view (h i) \<and> regScoreboard q' k = (regScoreboard q k \<or> renamed_in [r] k)"
proof (cases "isFixedMapping r")
  case True
  with assms show ?thesis by (simp add: wake_register_def)
next
  case False
  then obtain h1 q1 where 1: "foldM (\<lambda>_. wake_next fl (flatIdx r)) (chain (entries (dependGraph q) (flatIdx r))) (h, q) = Some (h1, q1)"
    and eq: "h' = h1" "q' = q1\<lparr>dependGraph := clearInst (flatIdx r) (dependGraph q1), regScoreboard := (regScoreboard q1)(flatIdx r := True)\<rparr>"
    using assms by (auto simp: wake_register_def Let_def bind_eq_Some_conv)
  have "quiet (h, q) (h1, q1)"
    by (rule foldM_relation [OF 1, where R = quiet]) (auto intro: quiet_refl quiet_trans wake_next_quiet)
  then show ?thesis using quietD False by (auto simp: eq)
qed

lemma wake_registers_effect:
  assumes "foldM (wake_register fl) rs (n, h, q) = Some (n', h', q')"
  shows "rob_view (h' i) = rob_view (h i) \<and> regScoreboard q' k = (regScoreboard q k \<or> renamed_in rs k)"
  using assms
proof (induction rs arbitrary: n h q)
  case Nil
  then show ?case by simp
next
  case (Cons r rs)
  then obtain n1 h1 q1 where 1: "wake_register fl r (n, h, q) = Some (n1, h1, q1)"
    and 2: "foldM (wake_register fl) rs (n1, h1, q1) = Some (n', h', q')"
    by (auto simp: bind_eq_Some_conv)
  show ?case using wake_register_effect [OF 1] Cons.IH [OF 2] by auto
qed

lemma completeMemInst_quiet: "completeMemInst p (h, q) = Some (h', q') \<Longrightarrow> quiet (h, q) (h', q')"
  by (auto simp: completeMemInst_def Let_def bind_eq_Some_conv quiet_def intro!: rob_view_upd rob_view_set_flag)

lemma iq_wakeDependents_effect:
  assumes w: "iq_wakeDependents fl p (h, q) = Some (n, h', q')"
  shows "rob_view (h' i) = rob_view (h i) \<and> regScoreboard q' k = (regScoreboard q k \<or> renames (h p) k)"
proof -
  let ?prio = "CD_Prioritize_Branch_Execution fl" and ?t = "threadNumber (h p)"
  obtain h1 q1 where 1: "quiet (h, q) (h1, q1)" and 2: "wakeDependentInstructions fl p (h1, q1) = Some (n, h', q')"
  proof (cases "CD_Runahead_QuickOutputPropagation fl \<and> has (h p) Runahead")
    case True
    with w show ?thesis using that [OF quiet_refl] by (auto simp: iq_wakeDependents_def Let_def)
  next
    case False
    then obtain s where s: "(if sflag (h p) IsMemRef
        then Option.bind (with_md ?t (md_wakeDependents ?prio p) (h, q)) (completeMemInst p)
        else if sflag (h p) IsMemBarrier \<or> sflag (h p) IsWriteBarrier
        then with_md ?t (md_completeBarrier ?prio p) (h, q) else Some (h, q)) = Some s"
      and r: "wakeDependentInstructions fl p s = Some (n, h', q')"
      using w by (auto simp: iq_wakeDependents_def Let_def bind_eq_Some_conv simp del: if_split)
    obtain h1 q1 where hq: "s = (h1, q1)" by (cases s)
    have "quiet (h, q) (h1, q1)"
    proof (cases "sflag (h p) IsMemRef")
      case True
      then obtain h2 q2 where a: "with_md ?t (md_wakeDependents ?prio p) (h, q) = Some (h2, q2)"
        and b: "completeMemInst p (h2, q2) = Some (h1, q1)" using s hq by (auto simp: bind_eq_Some_conv)
      have "quiet (h, q) (h2, q2)" by (rule with_md_quiet [OF a]) (auto dest: md_wakeDependents_store)
      then show ?thesis using completeMemInst_quiet [OF b] quiet_trans by blast
    next
      case False
      with s hq show ?thesis
        by (auto simp: quiet_refl intro!: with_md_quiet dest: md_completeBarrier_store split: if_splits)
    qed
    then show ?thesis using that r hq by blast
  qed
  have "foldM (wake_register fl) (dest_regs (h1 p)) (0, h1, q1) = Some (n, h', q')"
    using 2 by (simp add: wakeDependentInstructions_def)
  from wake_registers_effect [OF this] show ?thesis
    using quietD [OF 1] rob_viewD(5) [OF quietD(1) [OF 1], of p] by (auto simp: renames_def)
qed

interpretation be: waker "wakeupSafeInstructionDependants fl" visible for fl
proof unfold_locales
  fix p h e h' e' i k
  assume w: "wakeupSafeInstructionDependants fl p (h, e) = Some (h', e')"
  obtain q sb q' sb' where e: "e = (q, sb)" "e' = (q', sb')" by (metis surj_pair)
  from w e obtain n where 1: "iq_wakeDependents fl p (h, q) = Some (n, h', q')"
    and 2: "foldM setReg (dest_regs (h' p)) sb = Some sb'"
    by (auto simp: wakeupSafeInstructionDependants_def bind_eq_Some_conv)
  show v: "rob_view (h' i) = rob_view (h i)" for i using iq_wakeDependents_effect [OF 1] by blast
  have "regScoreBoard sb' k = (regScoreBoard sb k \<or> renames (h p) k)"
    using sb.set_ready_all [OF 2, of k] rob_viewD(5) [OF v, of p k] by (simp add: renames_def)
  then show "visible e' k = (visible e k \<or> renames (h p) k)"
    using iq_wakeDependents_effect [OF 1] by (auto simp: visible_def e)
qed

section \<open>Dispatch meets the interface\<close>

text \<open>A step of the queue that makes no register ready.\<close>

definition no_readier :: "iq_state \<Rightarrow> iq_state \<Rightarrow> bool" where
  "no_readier s s' \<longleftrightarrow> (\<forall>i. rob_view (fst s' i) = rob_view (fst s i)) \<and>
     (\<forall>k. regScoreboard (snd s') k \<longrightarrow> regScoreboard (snd s) k)"

lemma no_readier_quiet: "quiet s s' \<Longrightarrow> no_readier s s'"
  by (simp add: no_readier_def quiet_def)

lemma no_readier_trans: "no_readier s s1 \<Longrightarrow> no_readier s1 s2 \<Longrightarrow> no_readier s s2"
  by (simp add: no_readier_def)

lemma rob_view_ignored [simp]:
  "rob_view (set_status CanIssue i) = rob_view i" "rob_view (reset_status CanIssue i) = rob_view i"
  "rob_view (set_status IqEntry i) = rob_view i"
  by (auto simp: rob_view_def)

lemma claim_entry_quiet: "claim_entry p (h, q) = Some (h', q') \<Longrightarrow> quiet (h, q) (h', q')"
  by (auto simp: claim_entry_def Let_def intro!: quietI rob_view_upd)

lemma count_up_quiet: "count_up p (h, q) = Some (h', q') \<Longrightarrow> quiet (h, q) (h', q')"
  by (auto simp: count_up_def Let_def quiet_def)

lemma rob_view_ready_bits: "rob_view (i\<lparr>readySrcRegIdx := X\<rparr>) = rob_view i"
  by (simp add: rob_view_def dest_regs_def)

lemma rob_view_markSrcRegReady_idx: "markSrcRegReady_idx idx i = Some i' \<Longrightarrow> rob_view i' = rob_view i"
  unfolding markSrcRegReady_idx_def by (drule rob_view_markSrcRegReady) (simp add: rob_view_ready_bits)

lemma add_source_quiet: "add_source p idx (h, q) = Some (h', q') \<Longrightarrow> quiet (h, q) (h', q')"
  by (auto simp: add_source_def Let_def bind_eq_Some_conv quiet_refl quiet_def
      intro: rob_view_updM rob_view_markSrcRegReady_idx split: if_splits)

lemma addToDependents_quiet:
  assumes "addToDependents p (h, q) = Some (h', q')"
  shows "quiet (h, q) (h', q')"
proof -
  have "foldM (add_source p) [0..<numSrcRegs (h p)] (h, q) = Some (h', q')"
    using assms by (simp add: addToDependents_def)
  then show ?thesis
    by (rule foldM_relation [where R = quiet]) (auto intro: quiet_refl quiet_trans add_source_quiet)
qed

lemma addToProducers_no_readier:
  assumes "addToProducers p (h, q) = Some (h', q')"
  shows "no_readier (h, q) (h', q')"
proof -
  have f: "foldM (add_producer p) (dest_regs (h p)) q = Some q'" and h: "h' = h"
    using assms by (auto simp: addToProducers_def bind_eq_Some_conv)
  have "\<forall>k. regScoreboard q' k \<longrightarrow> regScoreboard q k"
    by (rule foldM_relation [OF f, where R = "\<lambda>q q'. \<forall>k. regScoreboard q' k \<longrightarrow> regScoreboard q k"])
      (auto simp: add_producer_def split: if_splits)
  then show ?thesis by (simp add: no_readier_def h)
qed

lemma md_insert_view:
  assumes "md_insert prio p (h, r, m) = Some (h', r', m')"
  shows "rob_view (h' i) = rob_view (h i)"
proof -
  have "h' = h \<or> h' = upd_inst p (reset_status CanIssue) h"
    using assms by (auto simp: md_insert_def bind_eq_Some_conv Let_def dest: moveToReady_store split: option.splits if_splits)
  then show ?thesis by (auto simp: rob_view_upd)
qed

lemma iq_insert_no_readier:
  assumes "iq_insert fl p (h, q) = Some (h', q')"
  shows "no_readier (h, q) (h', q')"
proof -
  obtain h1 q1 h2 q2 h3 q3 h4 q4 where 1: "claim_entry p (h, q) = Some (h1, q1)"
    and 2: "addToDependents p (h1, q1) = Some (h2, q2)" and 3: "addToProducers p (h2, q2) = Some (h3, q3)"
    and 4: "(if sflag (h3 p) IsMemRef
             then with_md (threadNumber (h3 p)) (md_insert (CD_Prioritize_Branch_Execution fl) p) (h3, q3)
             else addIfReady fl p (h3, q3)) = Some (h4, q4)" and 5: "count_up p (h4, q4) = Some (h', q')"
    using assms by (auto simp: iq_insert_def bind_eq_Some_conv simp del: if_split)
  have q4: "quiet (h3, q3) (h4, q4)"
    using 4 addIfReady_quiet by (auto intro!: with_md_quiet simp: md_insert_view split: if_splits)
  show ?thesis
    using no_readier_quiet [OF quiet_trans [OF claim_entry_quiet [OF 1] addToDependents_quiet [OF 2]]]
      addToProducers_no_readier [OF 3] no_readier_quiet [OF quiet_trans [OF q4 count_up_quiet [OF 5]]]
    by (meson no_readier_trans)
qed

lemma iq_insertNonSpec_no_readier:
  assumes "iq_insertNonSpec p (h, q) = Some (h', q')"
  shows "no_readier (h, q) (h', q')"
proof -
  let ?q = "q\<lparr>nonSpecInsts := (nonSpecInsts q)(seqNum (h p) \<mapsto> p)\<rparr>"
  obtain h1 q1 h3 q3 h4 q4 where 1: "claim_entry p (h, ?q) = Some (h1, q1)"
    and 3: "addToProducers p (h1, q1) = Some (h3, q3)"
    and 4: "(if sflag (h3 p) IsMemRef then with_md (threadNumber (h3 p)) (md_insertNonSpec p) (h3, q3)
             else Some (h3, q3)) = Some (h4, q4)" and 5: "count_up p (h4, q4) = Some (h', q')"
    using assms by (auto simp: iq_insertNonSpec_def bind_eq_Some_conv simp del: if_split)
  have q4: "quiet (h3, q3) (h4, q4)"
    using 4 by (auto simp: quiet_refl md_insertNonSpec_def bind_eq_Some_conv intro!: with_md_quiet split: if_splits)
  have "quiet (h, q) (h, ?q)" by (simp add: quiet_def)
  then show ?thesis
    using no_readier_quiet claim_entry_quiet [OF 1] addToProducers_no_readier [OF 3] q4 count_up_quiet [OF 5]
    by (meson no_readier_trans)
qed

lemma iq_insertBarrier_no_readier:
  assumes "iq_insertBarrier p (h, q) = Some (h', q')"
  shows "no_readier (h, q) (h', q')"
proof -
  obtain h1 q1 where 1: "with_md (threadNumber (h p)) (\<lambda>m. Some (md_insertBarrier p m)) (h, q) = Some (h1, q1)"
    and 2: "iq_insertNonSpec p (h1, q1) = Some (h', q')"
    using assms by (auto simp: iq_insertBarrier_def bind_eq_Some_conv)
  have "quiet (h, q) (h1, q1)" by (rule with_md_quiet [OF 1]) (auto simp: md_insertBarrier_def Let_def split: if_splits)
  then show ?thesis using iq_insertNonSpec_no_readier [OF 2] no_readier_quiet no_readier_trans by blast
qed

text \<open>
  Dispatch sets the commit, execute and issue bits, which the defence does not read.
\<close>

definition calm_step :: "inst_store \<times> backend \<Rightarrow> inst_store \<times> backend \<Rightarrow> bool" where
  "calm_step s s' \<longleftrightarrow> (\<forall>i. nda_view (fst s' i) = nda_view (fst s i)) \<and> (\<forall>k. visible (snd s') k \<longrightarrow> visible (snd s) k)"

lemma calm_stepI:
  "no_readier (h, q) (h', q') \<Longrightarrow> calm_step (h, q, sb) (h', q', sb)"
  by (auto simp: calm_step_def no_readier_def visible_def intro: nda_view_rob_view)

lemma calm_step_trans: "calm_step s s1 \<Longrightarrow> calm_step s1 s2 \<Longrightarrow> calm_step s s2"
  by (simp add: calm_step_def)

lemma nda_view_set_status: "a \<notin> {Squashed, Unsafe, MaySquashOthers, Runahead} \<Longrightarrow> nda_view (set_status a i) = nda_view i"
  by (auto simp: nda_view_def)

lemma calm_step_upd:
  "(\<And>i. nda_view (f i) = nda_view i) \<Longrightarrow> calm_step (h, e) (upd_inst p f h, e)"
  by (simp add: calm_step_def upd_inst_apply)

lemma dispatch_inst_calm:
  assumes "dispatch_inst fl p (h, e) = Some (h', e')"
  shows "calm_step (h, e) (h', e')"
proof -
  obtain q sb q' sb' where e: "e = (q, sb)" "e' = (q', sb')" by (metis surj_pair)
  have nonspec: "calm_step (h, q, z) (h', q', z)"
    if "iq_insertNonSpec p (upd_inst p (set_status CanCommit) h, q) = Some (h', q')" for z
    using calm_step_trans [OF calm_step_upd calm_stepI [OF iq_insertNonSpec_no_readier [OF that]]]
    by (simp add: nda_view_set_status)
  have to_iq: "calm_step (h, q, z) (h', q', z)" if "iq_insert fl p (h, q) = Some (h', q')" for z
    using calm_stepI [OF iq_insert_no_readier [OF that]] by simp
  have barrier: "calm_step (h, q, z) (h', q', z)"
    if "iq_insertBarrier p (upd_inst p (set_status CanCommit) h, q) = Some (h', q')" for z
    using calm_step_trans [OF calm_step_upd calm_stepI [OF iq_insertBarrier_no_readier [OF that]]]
    by (simp add: nda_view_set_status)
  have nop: "calm_step (h, q, z) (h', q', z)"
    if "addToProducers p (upd_inst p (set_status CanCommit \<circ> set_status Executed \<circ> set_status Issued) h, q) = Some (h', q')" for z
    using calm_step_trans [OF calm_step_upd calm_stepI [OF addToProducers_no_readier [OF that]]]
    by (simp add: nda_view_set_status)
  show ?thesis
    using assms unfolding e dispatch_inst_def
    by (auto simp: Let_def bind_eq_Some_conv intro: nonspec to_iq barrier nop split: if_splits)
qed

lemma report_violation_calm:
  assumes "report_violation st ld (h, e) = Some (h', e')"
  shows "calm_step (h, e) (h', e')"
  using assms by (auto simp: report_violation_def iq_violation_def calm_step_def visible_def bind_eq_Some_conv Let_def split: prod.splits)

interpretation core: nda_backend "wakeupSafeInstructionDependants fl" visible "dispatch_inst fl" report_violation for fl
  by unfold_locales (auto simp: calm_step_def dest: dispatch_inst_calm report_violation_calm)

end
