(* ===== verification/Core.thy ===== *)
theory Core
  imports Backend
begin

text \<open>
  The guarantees of the speculation defence for the composed core: the reorder buffer, the
  execute and commit stages of \<open>Nda\<close> over the instruction queue and scoreboard of \<open>Backend\<close>.
  The machine's step \<open>other\<close> is shown to cover the instruction queue's issue.
\<close>

abbreviation core_step :: "cd_flags \<Rightarrow> ThreadID list \<Rightarrow> backend nda_state \<Rightarrow> backend nda_state \<Rightarrow> bool" where
  "core_step fl T \<equiv> nda_step fl (wakeupSafeInstructionDependants fl) visible (dispatch_inst fl) report_violation T"

abbreviation core_reachable :: "cd_flags \<Rightarrow> ThreadID list \<Rightarrow> backend nda_state \<Rightarrow> bool" where
  "core_reachable fl T \<equiv> nda_reachable fl (wakeupSafeInstructionDependants fl) visible (dispatch_inst fl) report_violation T"

section \<open>Issue is a step of the machine\<close>

lemma retry_deferred_quiet: "retry_deferred prio h q = Some q' \<Longrightarrow> regScoreboard q' = regScoreboard q"
proof (induction prio h q rule: retry_deferred.induct)
  case (1 prio h q)
  show ?case
  proof (cases "getDeferredMemInstToExecute h q")
    case None
    with "1.prems" show ?thesis by (subst (asm) retry_deferred.simps) simp
  next
    case (Some x)
    then obtain p q1 where x: "getDeferredMemInstToExecute h q = Some (p, q1)" by (cases x) auto
    then obtain r where r: "addReadyMemInst prio h p (rq q1) = Some r" "retry_deferred prio h (q1\<lparr>rq := r\<rparr>) = Some q'"
      using "1.prems" by (subst (asm) retry_deferred.simps) (auto split: option.splits)
    have "regScoreboard q1 = regScoreboard q" using x by (auto simp: getDeferredMemInstToExecute_def split: option.splits)
    then show ?thesis using "1.IH" [OF x _ r] by simp
  qed
qed

lemma retry_blocked_quiet: "retry_blocked prio h q = Some q' \<Longrightarrow> regScoreboard q' = regScoreboard q"
proof (induction prio h q rule: retry_blocked.induct)
  case (1 prio h q)
  show ?case
  proof (cases "getBlockedMemInstToExecute q")
    case None
    with "1.prems" show ?thesis by (subst (asm) retry_blocked.simps) simp
  next
    case (Some x)
    then obtain p q1 where x: "getBlockedMemInstToExecute q = Some (p, q1)" by (cases x) auto
    then obtain r where r: "addReadyMemInst prio h p (rq q1) = Some r" "retry_blocked prio h (q1\<lparr>rq := r\<rparr>) = Some q'"
      using "1.prems" by (subst (asm) retry_blocked.simps) (auto split: option.splits)
    have "regScoreboard q1 = regScoreboard q" using x by (auto simp: getBlockedMemInstToExecute_def split: list.splits)
    then show ?thesis using "1.IH" [OF x _ r] by simp
  qed
qed

lemma nda_view_reset_status: "a \<notin> {Squashed, Unsafe, MaySquashOthers, Runahead} \<Longrightarrow> nda_view (reset_status a i) = nda_view i"
  by (auto simp: nda_view_def)

lemma start_execution_quiet: "start_execution p c idx lat q = Some q' \<Longrightarrow> regScoreboard q' = regScoreboard q"
  by (auto simp: start_execution_def bind_eq_Some_conv Let_def split: if_splits)

lemma leave_or_issue_quiet:
  "leave_or_issue p (h, q) = Some (h', q') \<Longrightarrow> nda_view (h' i) = nda_view (h i) \<and> regScoreboard q' = regScoreboard q"
  by (auto simp: leave_or_issue_def bind_eq_Some_conv Let_def upd_inst_apply nda_view_reset_status split: if_splits)

lemma issue_step_quiet:
  assumes "issue_step fl (pre, post, n, h, q) = Some (pre', post', n', h', q')"
  shows "nda_view (h' i) = nda_view (h i) \<and> regScoreboard q' = regScoreboard q"
proof (cases post)
  case Nil
  with assms show ?thesis by simp
next
  case (Cons e es)
  have set: "nda_view (upd_inst p (set_status Issued) (upd_inst p (set_status Executing) h) i) = nda_view (h i)" for p
    by (simp add: upd_inst_apply nda_view_set_status)
  from assms Cons show ?thesis
    by (auto simp: Let_def bind_eq_Some_conv set dest!: leave_or_issue_quiet [where i = i] start_execution_quiet
        split: if_splits)
qed

fun quiet_issue :: "issue_state \<Rightarrow> issue_state \<Rightarrow> bool" where
  "quiet_issue (pre, post, n, h, q) (pre', post', n', h', q') \<longleftrightarrow>
     (\<forall>i. nda_view (h' i) = nda_view (h i)) \<and> regScoreboard q' = regScoreboard q"

lemma quiet_issue_trans: "quiet_issue s s1 \<Longrightarrow> quiet_issue s1 s2 \<Longrightarrow> quiet_issue s s2"
  by (cases s; cases s1; cases s2) auto

lemma issue_loop_quiet:
  assumes "issue_loop fl s = Some s'"
  shows "quiet_issue s s'"
proof (rule issue_loop.raw_induct [where P = "\<lambda>_. quiet_issue", OF _ assms])
  fix loop fl s s'
  assume IH: "\<And>fl s s'. loop fl s = Some s' \<Longrightarrow> quiet_issue s s'"
    and prem: "(case s of (pre, post, n, h, q) \<Rightarrow>
      if n < totalWidth q \<and> post \<noteq> [] then Option.bind (issue_step fl s) (loop fl) else Some s) = Some s'"
  obtain pre post n h q where s: "s = (pre, post, n, h, q)" by (metis surj_pair)
  show "quiet_issue s s'"
  proof (cases "n < totalWidth q \<and> post \<noteq> []")
    case True
    with prem s obtain s1 where 1: "issue_step fl s = Some s1" and 2: "loop fl s1 = Some s'" by (auto simp: bind_eq_Some_conv)
    have "quiet_issue s s1" using issue_step_quiet 1 s by (cases s1) (auto simp del: issue_step.simps)
    then show ?thesis using IH [OF 2] quiet_issue_trans by blast
  next
    case False
    with prem s show ?thesis by auto
  qed
qed

lemma schedule_step:
  assumes "scheduleReadyInsts fl (h, q) = Some (n, h', q')"
  shows "core_step fl T (h, (q, sb), b, w, d) (h', (q', sb), b, w, d)"
proof -
  from assms obtain q1 q2 pre post q3 where 1: "retry_deferred (CD_Prioritize_Branch_Execution fl) h q = Some q1"
    "retry_blocked (CD_Prioritize_Branch_Execution fl) h q1 = Some q2"
    and 2: "issue_loop fl ([], listOrder (rq q2), 0, h, q2) = Some (pre, post, n, h', q3)"
    and q': "q' = q3\<lparr>rq := (rq q3)\<lparr>listOrder := pre @ post\<rparr>\<rparr>"
    by (auto simp: scheduleReadyInsts_def Let_def bind_eq_Some_conv)
  have v: "nda_view (h' i) = nda_view (h i)" "regScoreboard q' = regScoreboard q" for i
    using issue_loop_quiet [OF 2] retry_deferred_quiet [OF 1(1)] retry_blocked_quiet [OF 1(2)] by (simp_all add: q')
  show ?thesis by (rule nda_step.other) (simp_all add: v visible_def)
qed

section \<open>A run\<close>

text \<open>
  A branch at address 2 and an instruction behind it at 3 enter the buffer; the second is
  dispatched, executes and writes back.
\<close>

definition demo_code :: inst_store where
  "demo_code = (\<lambda>_. sample_inst 0 {} {})(2 := sample_inst 5 {IsControl} {MaySquashOthers},
     3 := (sample_inst 6 {} {})\<lparr>destRegIdx := (\<lambda>_. sample_reg 5)\<rparr>)"

definition demo_rob :: ROB where
  "demo_rob = ROB_new RobDynamic 4 2 1 0 3 0"

definition demo_iew :: IEW where
  "demo_iew = \<lparr>fetchRedirect = (\<lambda>_. False), tc_squash = (\<lambda>_. False), tc_squashedSeqNum = (\<lambda>_. 0),
     tc_mispredictInst = (\<lambda>_. None), tc_includeSquashInst = (\<lambda>_. False), numWokenInstructions = 0,
     numClearedMaySquashOthers = (\<lambda>_. 0), wbWidth = 2, zeroedOutputs = []\<rparr>"

definition demo_backend :: backend where
  "demo_backend = (demo_iq, \<lparr>regScoreBoard = (\<lambda>_. False), numPhysRegs = 8\<rparr>)"

lemma demo_rob_eq:
  "demo_rob = \<lparr>rob_instList = (\<lambda>_. []), numInstsInROB = 0, threadEntries = (\<lambda>_. 0), rob_numEntries = 4,
     rob_maxEntries = (\<lambda>_. 4), squashWidth = 2, rob_head = None, rob_tail = None, squashIt = (\<lambda>_. None),
     inRunaheadMode = (\<lambda>_. False), runaheadROBThreshold = 3, runaheadLoadAgeThreshhold = 0,
     numInstThatMayCauseSquash = (\<lambda>_. 0), rob_squashedSeqNum = (\<lambda>_. 0), doneSquashing = (\<lambda>_. True),
     robStatus = (\<lambda>_. Running), robPolicy = RobDynamic, rob_numThreads = 1\<rparr>"
  by (simp add: demo_rob_def ROB_new_def rob_resetState_def Let_def fun_eq_iff)

lemmas demo_defs = demo_rob_eq demo_code_def upd_inst_def Let_def no_flags_def
  isFixedMapping_def isRenameable_def sample_reg_def

definition demo_code1 :: inst_store where
  "demo_code1 = demo_code(2 := set_status RobEntry (demo_code 2), 3 := set_status Unsafe (set_status RobEntry (demo_code 3)))"

definition demo_rob1 :: ROB where
  "demo_rob1 = demo_rob\<lparr>rob_instList := (\<lambda>_. [])(0 := [2]), rob_head := Some 2, rob_tail := Some 2,
     numInstThatMayCauseSquash := (\<lambda>_. 0)(0 := 1), numInstsInROB := 1, threadEntries := (\<lambda>_. 0)(0 := 1)\<rparr>"

definition demo_rob2 :: ROB where
  "demo_rob2 = demo_rob1\<lparr>rob_instList := (\<lambda>_. [])(0 := [2, 3]), rob_tail := Some 3,
     numInstsInROB := 2, threadEntries := (\<lambda>_. 0)(0 := 2)\<rparr>"

lemma demo_insert2:
  "rob_insertInst (no_flags\<lparr>CD_LimitWakeDependandsToWBWidth := lim\<rparr>) 0 2 (demo_code, demo_rob) = Some (demo_code(2 := set_status RobEntry (demo_code 2)), demo_rob1)"
  by (simp add: rob_insertInst_def push_inst_def mark_new_def note_branch_def ShouldEnterRunaheadMode_def demo_defs demo_rob1_def)

lemma demo_insert3:
  "rob_insertInst (no_flags\<lparr>CD_LimitWakeDependandsToWBWidth := lim\<rparr>) 0 3 (demo_code(2 := set_status RobEntry (demo_code 2)), demo_rob1) = Some (demo_code1, demo_rob2)"
  by (simp add: rob_insertInst_def push_inst_def mark_new_def note_branch_def demo_defs demo_rob1_def demo_rob2_def demo_code1_def)

lemma demo_dispatch:
  "\<exists>q. dispatch_inst no_flags 3 (demo_code1, demo_backend) = Some (upd_inst 3 (set_status IqEntry) demo_code1, q, snd demo_backend) \<and>
     \<not> regScoreboard q 5"
  by (simp add: dispatch_inst_def iq_insert_def claim_entry_def addToDependents_def add_source_def addToProducers_def add_producer_def
      addIfReady_def count_up_def countInsts_def demo_backend_def demo_iq_def dg_defs demo_defs demo_code1_def)


definition demo_code2 :: inst_store where
  "demo_code2 = upd_inst 3 (set_status WritebackDone \<circ> set_status Executed \<circ> set_status IqEntry) demo_code1"

lemma demo_begin: "iew_begin [0] demo_iew = demo_iew"
  by (auto simp: iew_begin_def demo_iew_def fun_eq_iff)

lemma demo_iew_simps [simp]:
  "wbWidth demo_iew = 2" "numWokenInstructions demo_iew = 0" "numClearedMaySquashOthers demo_iew = (\<lambda>_. 0)"
  by (simp_all add: demo_iew_def)

lemma demo_tick:
  "iew_tick no_flags wake violate [0] [] [3] (upd_inst 3 (set_status Executed \<circ> set_status IqEntry) demo_code1, e, demo_rob2, demo_iew) =
     Some (demo_code2, e, demo_rob2, demo_iew)"
  by (simp add: iew_tick_def writebackInsts_def writeback_inst_def updateMaySquashStatusInROB_def update_thread_def
      reduceNumMaySquashOthers_def demo_begin demo_defs demo_code1_def demo_code2_def demo_rob2_def demo_rob1_def
      sample_inst_def set_status_def)

lemma demo_fresh2: "new_inst {} 2 demo_code demo_rob"
  by (simp add: new_inst_def demo_defs)

lemma demo_fresh3: "new_inst {} 3 (demo_code(2 := set_status RobEntry (demo_code 2))) demo_rob1"
  by (simp add: new_inst_def demo_defs demo_rob1_def renames_def)

lemma demo_inserted:
  "core_reachable (no_flags\<lparr>CD_LimitWakeDependandsToWBWidth := lim\<rparr>) [0] (demo_code1, demo_backend, demo_rob2, demo_iew, {})"
proof -
  have "core_reachable (no_flags\<lparr>CD_LimitWakeDependandsToWBWidth := lim\<rparr>) [0] (demo_code, demo_backend, demo_rob, demo_iew, {})"
    unfolding demo_rob_def by (rule nda_reachable.start)
  from nda_reachable.step [OF nda_reachable.step [OF this nda_step.insert [OF demo_fresh2 demo_insert2]]
      nda_step.insert [OF demo_fresh3 demo_insert3]] show ?thesis .
qed

lemma demo_run:
  "\<exists>q. core_reachable no_flags [0] (demo_code2, (q, snd demo_backend), demo_rob2, demo_iew, {3})"
proof -
  obtain q where q: "dispatch_inst no_flags 3 (demo_code1, demo_backend) = Some (upd_inst 3 (set_status IqEntry) demo_code1, q, snd demo_backend)"
    "\<not> regScoreboard q 5" using demo_dispatch by blast
  have r1: "core_reachable no_flags [0] (demo_code1, demo_backend, demo_rob2, demo_iew, {})"
    using demo_inserted [of False] by (simp add: no_flags_def)
  have "core_step no_flags [0] (demo_code1, demo_backend, demo_rob2, demo_iew, {})
      (upd_inst 3 (set_status IqEntry) demo_code1, (q, snd demo_backend), demo_rob2, demo_iew, {3})"
    by (rule nda_step.dispatch [where p = 3 and dispatch = "dispatch_inst no_flags", OF _ q(1)])
      (use q(2) in \<open>auto simp: visible_def demo_backend_def renames_def demo_code1_def demo_rob2_def demo_defs\<close>)
  note r2 = nda_reachable.step [OF r1 this]
  have "core_step no_flags [0] (upd_inst 3 (set_status IqEntry) demo_code1, (q, snd demo_backend), demo_rob2, demo_iew, {3})
      (upd_inst 3 (set_status Executed \<circ> set_status IqEntry) demo_code1, (q, snd demo_backend), demo_rob2, demo_iew, {3})"
    by (rule nda_step.other) (auto simp: upd_inst_apply nda_view_set_status)
  note r3 = nda_reachable.step [OF r2 this]
  have "core_step no_flags [0] (upd_inst 3 (set_status Executed \<circ> set_status IqEntry) demo_code1, (q, snd demo_backend), demo_rob2, demo_iew, {3})
      (demo_code2, (q, snd demo_backend), demo_rob2, demo_iew, {3})"
    by (rule nda_step.tick [OF demo_tick]) (simp_all add: demo_rob2_def demo_code1_def demo_defs)
  from nda_reachable.step [OF r3 this] show ?thesis by blast
qed

section \<open>Isolation\<close>



section \<open>Branch counters and runahead mode\<close>

text \<open>
  C10. In every reachable state the reorder buffer's per-thread counter of unresolved branches, on which the
  marking of new instructions and the entry to runahead mode depend, is the number of
  instructions of the thread's list that may still squash others.
\<close>

theorem branch_counter_exact:
  assumes "core_reachable fl T (h, e, b, w, d)" and "distinct T"
  shows "numInstThatMayCauseSquash b t = int (length (filter (\<lambda>p. has (h p) MaySquashOthers) (rob_instList b t)))"
  using nda_okD(5) [OF core.reachable_ok [OF assms]] by (simp add: counter_ok_def)

theorem branch_counter_exact_witness:
  "numInstThatMayCauseSquash demo_rob2 0 = int (length (filter (\<lambda>p. has (demo_code2 p) MaySquashOthers) [2, 3]))"
proof -
  obtain q where r: "core_reachable no_flags [0] (demo_code2, (q, snd demo_backend), demo_rob2, demo_iew, {3})"
    using demo_run by blast
  show ?thesis using branch_counter_exact [OF r, of 0] by (simp add: demo_rob2_def)
qed

text \<open>
  C11. In every reachable state a thread is in runahead mode exactly when its list holds an instruction that
  started it, there is only one, and no branch behind it may squash others: the counter is
  not touched by the instructions of runahead mode.
\<close>

theorem runahead_single_initiator:
  assumes "core_reachable fl T (h, e, b, w, d)" and "distinct T"
  shows "(inRunaheadMode b t \<longleftrightarrow> (\<exists>!p. p \<in> set (rob_instList b t) \<and> initiator (h p))) \<and>
    sorted_wrt (\<lambda>q i. initiator (h q) \<longrightarrow> \<not> has (h i) MaySquashOthers) (rob_instList b t)"
proof -
  note R = nda_okD(6) [OF core.reachable_ok [OF assms], unfolded runahead_ok_def, rule_format, of t]
  have "p = q" if "p \<in> set (rob_instList b t)" "initiator (h p)" "q \<in> set (rob_instList b t)" "initiator (h q)" for p q
    using sorted_wrt_cases [OF conjunct2 [OF R] that(1,3)] that by (auto simp: initiator_def)
  then show ?thesis using R by blast
qed

definition runahead_flags :: cd_flags where
  "runahead_flags = no_flags\<lparr>CD_Runahead_ifMoreThanNBranches := True\<rparr>"

definition runahead_rob :: ROB where
  "runahead_rob = demo_rob1\<lparr>inRunaheadMode := (\<lambda>_. False)(0 := True), runaheadROBThreshold := 0\<rparr>"

definition runahead_code :: inst_store where
  "runahead_code = demo_code(2 := set_status Runahead (set_status RobEntry (demo_code 2)))"

lemma runahead_run: "core_reachable runahead_flags [0] (runahead_code, demo_backend, runahead_rob, demo_iew, {})"
proof -
  let ?b = "ROB_new RobDynamic 4 2 1 0 0 0"
  have b: "?b = demo_rob\<lparr>runaheadROBThreshold := 0\<rparr>"
    by (simp add: demo_rob_def ROB_new_def rob_resetState_def Let_def fun_eq_iff)
  have "rob_insertInst runahead_flags 0 2 (demo_code, ?b) = Some (runahead_code, runahead_rob)"
    unfolding b by (simp add: rob_insertInst_def push_inst_def mark_new_def note_branch_def ShouldEnterRunaheadMode_def demo_defs demo_rob1_def
        runahead_flags_def runahead_rob_def runahead_code_def)
  moreover have "new_inst {} 2 demo_code ?b" unfolding b by (simp add: new_inst_def demo_defs)
  ultimately show ?thesis by (blast intro: nda_reachable.step [OF nda_reachable.start] nda_step.insert)
qed

theorem runahead_single_initiator_witness:
  "inRunaheadMode runahead_rob 0 \<and> (\<exists>!p. p \<in> set (rob_instList runahead_rob 0) \<and> initiator (runahead_code p))"
  using runahead_single_initiator [OF runahead_run, of 0] by (simp add: runahead_rob_def)

section \<open>Wakeup bandwidth\<close>

lemma wake_counts:
  "iew_wakeDependents wake p (h, e, w) = Some (h', e', w') \<Longrightarrow>
     numWokenInstructions w' = numWokenInstructions w + 1 \<and> wbWidth w' = wbWidth w"
  "zero_and_wake wake p (h, e, w) = Some (h', e', w') \<Longrightarrow>
     numWokenInstructions w' = numWokenInstructions w + 1 \<and> wbWidth w' = wbWidth w"
  by (auto simp: iew_wakeDependents_def zero_and_wake_def bind_eq_Some_conv)

lemma writeback_count:
  assumes "writeback_inst fl wake p (h, e, w) = Some (h', e', w')"
  shows "numWokenInstructions w' \<le> numWokenInstructions w + 1 \<and> wbWidth w' = wbWidth w"
  using assms by (auto simp: writeback_inst_def bind_eq_Some_conv dest!: wake_counts split: if_splits)

lemma writebacks_count:
  assumes "foldM (writeback_inst fl wake) ps (h, e, w) = Some (h', e', w')"
  shows "numWokenInstructions w' \<le> numWokenInstructions w + length ps \<and> wbWidth w' = wbWidth w"
  using assms
proof (induction ps arbitrary: h e w)
  case Nil
  then show ?case by simp
next
  case (Cons p ps)
  then obtain h1 e1 w1 where 1: "writeback_inst fl wake p (h, e, w) = Some (h1, e1, w1)"
    and 2: "foldM (writeback_inst fl wake) ps (h1, e1, w1) = Some (h', e', w')" by (auto simp: bind_eq_Some_conv)
  show ?case using writeback_count [OF 1] Cons.IH [OF 2] by simp
qed

lemma resolves_count:
  assumes "foldM (resolve_executed fl violate) evs (h, e, w) = Some (h', e', w')"
  shows "exec_frame w w'"
  using assms
proof (induction evs arbitrary: h e w)
  case Nil
  then show ?case by (simp add: exec_frame_def)
next
  case (Cons ev evs)
  obtain p mis vio where ev: "ev = (p, mis, vio)" by (cases ev) auto
  obtain h1 e1 w1 where s: "resolve_executed fl violate (p, mis, vio) (h, e, w) = Some (h1, e1, w1)"
    and rest: "foldM (resolve_executed fl violate) evs (h1, e1, w1) = Some (h', e', w')"
    using Cons.prems by (auto simp: ev bind_eq_Some_conv)
  have "exec_frame w w1" using s by (cases rule: resolve_cases) auto
  then show ?case using Cons.IH [OF rest] by (simp add: exec_frame_def)
qed

lemma updates_count:
  assumes "foldM (update_thread fl (wakeupSafeInstructionDependants fl')) ts (h, e, b, w) = Some (h', e', b', w')"
    and "CD_LimitWakeDependandsToWBWidth fl" and "numWokenInstructions w \<le> wbWidth w"
  shows "numWokenInstructions w' \<le> wbWidth w'"
  using assms(1,3)
proof (induction ts arbitrary: h e b w)
  case Nil
  then show ?case by simp
next
  case (Cons t ts)
  then obtain h1 e1 b1 w1 where 1: "update_thread fl (wakeupSafeInstructionDependants fl') t (h, e, b, w) = Some (h1, e1, b1, w1)"
    and 2: "foldM (update_thread fl (wakeupSafeInstructionDependants fl')) ts (h1, e1, b1, w1) = Some (h', e', b', w')"
    by (auto simp: bind_eq_Some_conv)
  from 1 obtain n where m: "markFollowingInstructionsAsSafe fl (wakeupSafeInstructionDependants fl') (wbWidth w - numWokenInstructions w)
      (rob_instList b t) 0 (h, e) = Some (n, h1, e1)" and w1: "w1 = w\<lparr>numWokenInstructions := numWokenInstructions w + n\<rparr>"
    using assms(2) by (auto simp: update_thread_def reduceNumMaySquashOthers_def Let_def bind_eq_Some_conv split: if_splits)
  have "n \<le> wbWidth w - numWokenInstructions w" using markedD(3) [OF be.mark_spec [OF m]] by simp
  then show ?case using Cons.IH [OF 2] Cons.prems(2) by (simp add: w1)
qed


definition limit_flags :: cd_flags where
  "limit_flags = no_flags\<lparr>CD_LimitWakeDependandsToWBWidth := True\<rparr>"

lemma limit_tick:
  "\<exists>h' e' b' w'. iew_tick limit_flags (wakeupSafeInstructionDependants limit_flags) report_violation [0] [] [2, 3]
     (upd_inst 2 (set_status Executed) demo_code1, demo_backend, demo_rob2, demo_iew) = Some (h', e', b', w') \<and>
     numWokenInstructions w' = 1 \<and> wbWidth w' = 2"
  by (simp add: iew_tick_def writebackInsts_def writeback_inst_def updateMaySquashStatusInROB_def update_thread_def
      reduceNumMaySquashOthers_def demo_begin demo_defs demo_code1_def demo_rob2_def demo_rob1_def limit_flags_def
      iew_wakeDependents_def wakeupSafeInstructionDependants_def iq_wakeDependents_def wakeDependentInstructions_def
      wake_register_def demo_backend_def demo_iq_def dg_defs setReg_def sample_inst_def set_status_def dest_regs_def)


section \<open>Release\<close>

lemma update_thread_marked:
  assumes "update_thread fl (wakeupSafeInstructionDependants fl) t (h, e, b, w) = Some (h', e', b', w')"
  obtains n mx where "marked visible fl mx (rob_instList b t) (0, h, e) (n, h', e')"
    and "mx = (if CD_LimitWakeDependandsToWBWidth fl then wbWidth w - numWokenInstructions w else nat (rob_maxEntries b t))"
    and "w' = w\<lparr>numWokenInstructions := numWokenInstructions w + n\<rparr>"
proof -
  let ?mx = "if CD_LimitWakeDependandsToWBWidth fl then wbWidth w - numWokenInstructions w else nat (rob_maxEntries b t)"
  let ?b = "if numClearedMaySquashOthers w t > 0 then b\<lparr>numInstThatMayCauseSquash := (numInstThatMayCauseSquash b)
      (t := numInstThatMayCauseSquash b t - numClearedMaySquashOthers w t)\<rparr> else b"
  have l: "rob_instList ?b t = rob_instList b t" by simp
  obtain n where "markFollowingInstructionsAsSafe fl (wakeupSafeInstructionDependants fl) ?mx (rob_instList ?b t) 0 (h, e) = Some (n, h', e')"
    and "w' = w\<lparr>numWokenInstructions := numWokenInstructions w + n\<rparr>"
    using assms unfolding update_thread_def prod.case reduceNumMaySquashOthers_def Let_def
    by (auto simp: bind_eq_Some_conv simp del: if_split)
  then show ?thesis using that be.mark_spec unfolding l by blast
qed


text \<open>The run above, once the branch at 2 has resolved.\<close>

lemma demo_release:
  "\<exists>h' e' b' w'. update_thread no_flags (wakeupSafeInstructionDependants no_flags) 0
     (upd_inst 2 (reset_status MaySquashOthers) demo_code2, demo_backend, demo_rob2, demo_iew) = Some (h', e', b', w')"
  by (simp add: update_thread_def reduceNumMaySquashOthers_def unsafe_until_retirement_def demo_defs demo_code1_def demo_code2_def demo_rob2_def
      demo_rob1_def wakeupSafeInstructionDependants_def iq_wakeDependents_def wakeDependentInstructions_def
      wake_register_def demo_backend_def demo_iq_def dg_defs setReg_def)


section \<open>Capacity of the reorder buffer\<close>

definition entries_ok :: "ROB \<Rightarrow> bool" where
  "entries_ok b \<longleftrightarrow> finite {t. rob_instList b t \<noteq> []} \<and>
     (\<forall>t. threadEntries b t = int (length (rob_instList b t))) \<and>
     numInstsInROB b = (\<Sum>t | rob_instList b t \<noteq> []. int (length (rob_instList b t)))"

definition rob_sizes :: "ROB \<Rightarrow> (ThreadID \<Rightarrow> inst_ptr list) \<times> (ThreadID \<Rightarrow> int) \<times> int \<times> int" where
  "rob_sizes b = (rob_instList b, threadEntries b, numInstsInROB b, rob_numEntries b)"

text \<open>The sum over any finite set of threads that covers the non-empty ones.\<close>

lemma entries_okI:
  assumes "finite S" and "\<And>t. t \<notin> S \<Longrightarrow> rob_instList b t = []" and "\<And>t. threadEntries b t = int (length (rob_instList b t))"
    and "numInstsInROB b = (\<Sum>t\<in>S. int (length (rob_instList b t)))"
  shows "entries_ok b"
proof -
  have sub: "{t. rob_instList b t \<noteq> []} \<subseteq> S" using assms(2) by blast
  then have "(\<Sum>t\<in>S. int (length (rob_instList b t))) = (\<Sum>t | rob_instList b t \<noteq> []. int (length (rob_instList b t)))"
    using assms(1) by (intro sum.mono_neutral_right) auto
  then show ?thesis using assms finite_subset [OF sub] by (simp add: entries_ok_def)
qed

text \<open>Replacing one thread's list moves the total by the difference.\<close>

lemma entries_ok_upd:
  assumes ok: "entries_ok b" and l: "rob_instList b' = (rob_instList b)(t := xs)"
    and e: "threadEntries b' = (threadEntries b)(t := int (length xs))"
    and n: "numInstsInROB b' = numInstsInROB b + int (length xs) - int (length (rob_instList b t))"
  shows "entries_ok b'"
proof (rule entries_okI [of "insert t {t. rob_instList b t \<noteq> []}"])
  let ?S = "{t. rob_instList b t \<noteq> []}"
  have fin: "finite ?S" using ok by (simp add: entries_ok_def)
  have "(\<Sum>u\<in>insert t ?S. int (length (rob_instList b' u))) = int (length xs) + (\<Sum>u\<in>?S - {t}. int (length (rob_instList b u)))"
    using fin by (simp add: sum.insert_remove l)
  moreover have "(\<Sum>u\<in>insert t ?S. int (length (rob_instList b u))) =
      int (length (rob_instList b t)) + (\<Sum>u\<in>?S - {t}. int (length (rob_instList b u)))" using fin by (simp add: sum.insert_remove)
  moreover have "(\<Sum>u\<in>insert t ?S. int (length (rob_instList b u))) = numInstsInROB b"
    using ok fin by (cases "rob_instList b t = []") (auto simp: entries_ok_def insert_absorb)
  ultimately show "numInstsInROB b' = (\<Sum>u\<in>insert t ?S. int (length (rob_instList b' u)))" using n by simp
  show "finite (insert t ?S)" using fin by simp
qed (use ok in \<open>auto simp: entries_ok_def l e split: if_splits\<close>)

text \<open>Only insertion and retirement change the sizes.\<close>

lemma reduce_sizes:
  "reduceNumMaySquashOthers fl wake t c mx (h, e, b) = Some (n, h', e', b') \<Longrightarrow> rob_sizes b' = rob_sizes b"
  by (auto simp: reduceNumMaySquashOthers_def bind_eq_Some_conv Let_def rob_sizes_def split: if_splits)

lemma resolve_branch_sizes: "resolve_branch t p (h, b, c) = Some (h', b', c') \<Longrightarrow> rob_sizes b' = rob_sizes b"
  by (auto simp: resolve_branch_def Let_def bind_eq_Some_conv leaveRunaheadMode_Some rob_sizes_def split: if_splits)

lemma squash_loop_sizes:
  "rob_squash_loop t single n l tu (h, b, c) = Some (out, tu', h', b', c') \<Longrightarrow> rob_sizes b' = rob_sizes b"
proof (induction l arbitrary: n tu h b c)
  case Nil
  then show ?case by simp
next
  case (Cons p older)
  show ?case
  proof (cases "(n < squashWidth b \<or> single) \<and> seqNum (h p) > rob_squashedSeqNum b t")
    case False
    with Cons.prems show ?thesis by auto
  next
    case True
    with Cons.prems obtain h1 b1 c1 where 1: "squash_inst t p (h, b, c) = Some (h1, b1, c1)"
      and 2: "(case older of [] \<Rightarrow> Some (True, tu, h1, b1\<lparr>squashIt := (squashIt b1)(t := None),
                         doneSquashing := (doneSquashing b1)(t := True)\<rparr>, c1)
         | r # _ \<Rightarrow> rob_squash_loop t single (n + 1) older (tu \<or> p = last (rob_instList b1 t))
               (h1, b1\<lparr>squashIt := (squashIt b1)(t := Some r)\<rparr>, c1)) = Some (out, tu', h', b', c')"
      by (auto simp: bind_eq_Some_conv)
    have s1: "rob_sizes b1 = rob_sizes b" using resolve_branch_sizes [OF 1 [unfolded squash_inst_def prod.case]] .
    show ?thesis
    proof (cases older)
      case Nil
      with 2 s1 show ?thesis by (auto simp: rob_sizes_def)
    next
      case (Cons r rs)
      then have "rob_squash_loop t single (n + 1) older (tu \<or> p = last (rob_instList b1 t))
          (h1, b1\<lparr>squashIt := (squashIt b1)(t := Some r)\<rparr>, c1) = Some (out, tu', h', b', c')" using 2 by simp
      from Cons.IH [OF this] s1 show ?thesis by (simp add: rob_sizes_def)
    qed
  qed
qed

lemma check_done_sizes: "check_done t (h, b, c) = Some (h', b', c') \<Longrightarrow> rob_sizes b' = rob_sizes b"
  by (auto simp: check_done_def bind_eq_Some_conv rob_sizes_def dest!: resolve_branch_sizes split: if_splits)

lemma doSquash_sizes:
  assumes "rob_doSquash fl wake T single t (h, e, b) = Some (h', e', b')"
  shows "rob_sizes b' = rob_sizes b"
proof -
  obtain p where p: "squashIt b t = Some p" using assms by (auto simp: rob_doSquash_def bind_eq_Some_conv)
  show ?thesis
  proof (cases "seqNum (h p) < rob_squashedSeqNum b t")
    case True
    with assms p show ?thesis by (auto simp: rob_doSquash_def rob_sizes_def)
  next
    case False
    with assms p obtain out tu h1 b1 c1 h2 b2 c2 mx n where
      1: "rob_squash_loop t single 0 (from_iterator p (rob_instList b t)) False (h, b, 0) = Some (out, tu, h1, b1, c1)" and
      2: "(if out then Some (h1, b1, c1) else do {
            (h, b, c) \<leftarrow> check_done t (h1, b1, c1);
            Some (h, if tu then updateTail T h b else b, c)
          }) = Some (h2, b2, c2)" and
      3: "reduceNumMaySquashOthers fl wake t c2 mx (h2, e, b2) = Some (n, h', e', b')"
      by (auto simp: rob_doSquash_def bind_eq_Some_conv Let_def simp del: if_split)
    have "rob_sizes b2 = rob_sizes b1"
      using 2 by (auto simp: bind_eq_Some_conv updateTail_def rob_sizes_def dest!: check_done_sizes split: if_splits)
    then show ?thesis using squash_loop_sizes [OF 1] reduce_sizes [OF 3] by simp
  qed
qed

lemma rob_squash_sizes:
  assumes "rob_squash fl wake T sn t single (h, e, b) = Some (h', e', b')"
  shows "rob_sizes b' = rob_sizes b"
  using assms by (auto simp: rob_squash_def Let_def dest!: doSquash_sizes split: if_splits) (simp_all add: rob_sizes_def)

lemma commit_squash_sizes:
  assumes "commit_squash fl wake T t w (h, e, b) = Some (h', e', b')"
  shows "rob_sizes b' = rob_sizes b"
proof -
  from assms obtain h1 b1 single sn where 1: "rob_squash fl wake T sn t single (h1, e, b1) = Some (h', e', b')"
    and 2: "rob_sizes b1 = rob_sizes b"
    by (auto simp: commit_squash_def Let_def bind_eq_Some_conv leaveRunaheadMode_Some rob_sizes_def split: option.splits if_splits)
  then show ?thesis using rob_squash_sizes [OF 1] by simp
qed

lemma squashAll_sizes: "squashAll fl wake T t lc (h, e, b) = Some (h', e', b') \<Longrightarrow> rob_sizes b' = rob_sizes b"
  by (auto simp: squashAll_def bind_eq_Some_conv dest: rob_squash_sizes)

lemma tick_sizes:
  assumes "iew_tick fl wake violate T evs toCommit (h, e, b, w) = Some (h', e', b', w')"
  shows "rob_sizes b' = rob_sizes b"
proof -
  let ?b = "\<lambda>(h, e, b, w). b"
  obtain h1 e1 w1 where 1: "foldM (update_thread fl wake) T (h1, e1, b, w1) = Some (h', e', b', w')"
    using assms by (auto simp: iew_tick_def updateMaySquashStatusInROB_def bind_eq_Some_conv)
  have "rob_sizes (?b s') = rob_sizes (?b s)" if "update_thread fl wake t s = Some s'" for t s s'
    using that by (auto simp: update_thread_def Let_def bind_eq_Some_conv dest!: reduce_sizes split: prod.splits)
  then have "rob_sizes (?b (h', e', b', w')) = rob_sizes (?b (h1, e1, b, w1))"
    by (intro foldM_relation [OF 1, where R = "\<lambda>s s'. rob_sizes (?b s') = rob_sizes (?b s)"]) auto
  then show ?thesis by simp
qed

definition capacity_ok :: "ROB \<Rightarrow> bool" where
  "capacity_ok b \<longleftrightarrow> entries_ok b \<and> (0 \<le> rob_numEntries b \<longrightarrow> numInstsInROB b \<le> rob_numEntries b)"

lemma capacity_ok_sizes: "rob_sizes b' = rob_sizes b \<Longrightarrow> capacity_ok b \<Longrightarrow> capacity_ok b'"
  unfolding rob_sizes_def capacity_ok_def entries_ok_def by auto

lemma insert_capacity:
  assumes "rob_insertInst fl age p (h, b) = Some (h', b')" and ok: "capacity_ok b"
  shows "capacity_ok b'"
proof -
  let ?t = "threadNumber (h p)"
  have e: "rob_instList b' = (rob_instList b)(?t := rob_instList b ?t @ [p])" "numInstsInROB b' = numInstsInROB b + 1"
    "threadEntries b' = (threadEntries b)(?t := threadEntries b ?t + 1)" "rob_numEntries b' = rob_numEntries b"
    "numInstsInROB b \<noteq> rob_numEntries b"
    using assms(1) by (auto simp: rob_insertInst_def push_inst_def note_branch_def Let_def bind_eq_Some_conv split: if_splits)
  have "entries_ok b'"
    by (rule entries_ok_upd [of b, where t = ?t and xs = "rob_instList b ?t @ [p]"]) (use ok e in \<open>auto simp: capacity_ok_def entries_ok_def\<close>)
  then show ?thesis using ok e by (auto simp: capacity_ok_def)
qed

lemma retire_capacity:
  assumes "retireHead fl wake T t (h, e, b) = Some (h', e', b')" and ok: "capacity_ok b"
  shows "capacity_ok b'"
proof -
  obtain p rest h1 e1 h2 e2 b2 where l: "rob_instList b t = p # rest"
    and 1: "retire_branch fl wake t p (h1, e1, b\<lparr>numInstsInROB := numInstsInROB b - 1,
        threadEntries := (threadEntries b)(t := threadEntries b t - 1)\<rparr>) = Some (h2, e2, b2)"
    and b': "b' = updateHead T h2 (b2\<lparr>rob_instList := (rob_instList b2)(t := rest)\<rparr>)"
    using assms(1) by (cases "rob_instList b t") (auto simp: retireHead_def Let_def bind_eq_Some_conv)
  have "rob_sizes b2 = rob_sizes (b\<lparr>numInstsInROB := numInstsInROB b - 1, threadEntries := (threadEntries b)(t := threadEntries b t - 1)\<rparr>)"
    using 1 by (auto simp: retire_branch_def bind_eq_Some_conv rob_sizes_def split: if_splits)
  then have e: "rob_instList b' = (rob_instList b)(t := tl (rob_instList b t))" "numInstsInROB b' = numInstsInROB b - 1"
    "threadEntries b' = (threadEntries b)(t := threadEntries b t - 1)" "rob_numEntries b' = rob_numEntries b" "rob_instList b t \<noteq> []"
    using l by (simp_all add: b' updateHead_def rob_sizes_def)
  have "entries_ok b'"
    by (rule entries_ok_upd [of b, where t = t and xs = "tl (rob_instList b t)"])
      (use ok e in \<open>auto simp: capacity_ok_def entries_ok_def neq_Nil_conv\<close>)
  then show ?thesis using ok e by (auto simp: capacity_ok_def)
qed

lemma step_capacity:
  assumes "nda_step fl wake ready dispatch violate T (h, e, b, w, d) (h', e', b', w', d')" and "capacity_ok b"
  shows "capacity_ok b'"
  using assms(1)
proof (cases rule: nda_step.cases)
  case insert
  then show ?thesis using insert_capacity [OF insert(5) assms(2)] by simp
next
  case tick
  then show ?thesis using capacity_ok_sizes [OF tick_sizes [OF tick(2)] assms(2)] by simp
next
  case squash
  then show ?thesis using capacity_ok_sizes [OF commit_squash_sizes [OF squash(3)] assms(2)] by simp
next
  case squash_all
  then show ?thesis using capacity_ok_sizes [OF squashAll_sizes [OF squash_all(3)] assms(2)] by simp
next
  case squash_more
  then show ?thesis using capacity_ok_sizes [OF doSquash_sizes [OF squash_more(3)] assms(2)] by simp
next
  case retire
  then show ?thesis using retire_capacity [OF retire(3) assms(2)] by simp
qed (use assms(2) in simp_all)

lemma reachable_capacity:
  assumes "nda_reachable fl wake ready dispatch violate T (h, e, b, w, d)"
  shows "capacity_ok b"
  using assms
proof (induction "(h, e, b, w, d)" arbitrary: h e b w d rule: nda_reachable.induct)
  case start
  then show ?case by (simp add: capacity_ok_def entries_ok_def ROB_new_def rob_resetState_def Let_def)
next
  case (step s)
  obtain h0 e0 b0 w0 d0 where s: "s = (h0, e0, b0, w0, d0)" by (metis surj_pair)
  show ?case by (rule step_capacity [OF step(3) [unfolded s] step(2) [OF s]])
qed

text \<open>
  C9. In every reachable state the reorder buffer's counters agree with its lists, the total never exceeds the number of
  entries, so the free-entry count that rename reads does not wrap below zero, and
  inserting an instruction fails exactly when the buffer is full.
\<close>

theorem rob_capacity:
  assumes "core_reachable fl T (h, e, b, w, d)" and "0 \<le> rob_numEntries b" and "rob_numEntries b < 2 ^ 32"
  shows "threadEntries b t = int (length (rob_instList b t)) \<and>
    numInstsInROB b = (\<Sum>t | rob_instList b t \<noteq> []. int (length (rob_instList b t))) \<and>
    rob_numFreeEntries b = rob_numEntries b - numInstsInROB b \<and> 0 \<le> rob_numFreeEntries b \<and>
    (rob_insertInst fl age p (h, b) = None \<longleftrightarrow> rob_numFreeEntries b = 0)"
proof -
  note c = reachable_capacity [OF assms(1), unfolded capacity_ok_def]
  then have n: "numInstsInROB b = (\<Sum>t | rob_instList b t \<noteq> []. int (length (rob_instList b t)))" and le: "numInstsInROB b \<le> rob_numEntries b"
    and fin: "finite {t. rob_instList b t \<noteq> []}" and t: "\<And>t. threadEntries b t = int (length (rob_instList b t))"
    using assms(2) by (simp_all add: entries_ok_def)
  have ge: "0 \<le> numInstsInROB b" unfolding n by (rule sum_nonneg) simp
  have free: "rob_numFreeEntries b = rob_numEntries b - numInstsInROB b"
    unfolding rob_numFreeEntries_def using ge le assms(3) by (intro mod_pos_pos_trivial) auto
  have "rob_instList b (threadNumber (h p)) = []" if "numInstsInROB b = 0"
    using that fin unfolding n by (auto simp: sum_nonneg_eq_0_iff)
  then obtain b1 where push: "push_inst (threadNumber (h p)) p b = Some b1" by (simp add: push_inst_def Let_def)
  have "rob_insertInst fl age p (h, b) = None \<longleftrightarrow> numInstsInROB b = rob_numEntries b"
  proof (cases "numInstsInROB b = rob_numEntries b")
    case True
    then show ?thesis by (simp add: rob_insertInst_def)
  next
    case False
    then show ?thesis by (simp add: rob_insertInst_def push Let_def split: prod.splits)
  qed
  then show ?thesis using n t free le by auto
qed

theorem rob_capacity_witness:
  "threadEntries demo_rob2 0 = 2 \<and> numInstsInROB demo_rob2 = 2 \<and> rob_numFreeEntries demo_rob2 = 2 \<and>
     rob_insertInst no_flags 0 4 (demo_code2, demo_rob2) \<noteq> None"
proof -
  obtain q where r: "core_reachable no_flags [0] (demo_code2, (q, snd demo_backend), demo_rob2, demo_iew, {3})"
    using demo_run by blast
  show ?thesis using rob_capacity [OF r, of 0 0 4] by (simp add: demo_rob2_def demo_rob1_def demo_rob_eq)
qed

section \<open>Squash completes\<close>

lemma from_iterator_last: "l \<noteq> [] \<Longrightarrow> distinct l \<Longrightarrow> from_iterator (last l) l = rev l"
  using from_iterator_nth [of l "length l - 1"] by (simp add: last_conv_nth)

lemma takeWhile_sorted:
  "sorted_wrt (\<lambda>p q. f q < f p) l \<Longrightarrow> set (takeWhile (\<lambda>p. f p > (sn :: nat)) l) = {q \<in> set l. f q > sn}"
  by (induction l) auto



section \<open>Program order\<close>

text \<open>
  C13. Instructions leave the reorder buffer in program order: in every reachable state, the instruction that retirement
  removes is older than every instruction that stays in its thread's list.
\<close>

theorem retire_in_order:
  assumes r: "core_reachable fl T (h, e, b, w, d)" and T: "distinct T"
    and ret: "retireHead fl (wakeupSafeInstructionDependants fl) T t (h, e, b) = Some (h', e', b')"
  shows "\<exists>p. rob_instList b t = p # rob_instList b' t \<and> has (h p) CanCommit \<and> (\<forall>q\<in>set (rob_instList b' t). seqNum (h p) < seqNum (h q))"
proof -
  obtain p rest where l: "rob_instList b t = p # rest" "has (h p) CanCommit" "rob_instList b' t = rest"
    using ret by (cases "rob_instList b t")
      (auto simp: retireHead_def Let_def bind_eq_Some_conv updateHead_def)
  then show ?thesis using nda_okD(1) [OF core.reachable_ok [OF r T]] by (auto simp: ids_ok_def) (metis sorted_wrt.simps(2))
qed

lemma demo_retire:
  "retireHead no_flags wake [0] 0 (markCompletedInsts no_flags [2] demo_code1, e, demo_rob2) =
     Some (upd_inst 2 (reset_status MaySquashOthers \<circ> set_status Committed \<circ> reset_status RobEntry) (markCompletedInsts no_flags [2] demo_code1), e,
       demo_rob2\<lparr>rob_instList := (\<lambda>_. [])(0 := [3]), rob_head := Some 3, numInstThatMayCauseSquash := (\<lambda>_. 0),
         numInstsInROB := 1, threadEntries := (\<lambda>_. 0)(0 := 1)\<rparr>)"
  by (simp add: retireHead_def retire_unsafe_def retire_branch_def updateHead_def markCompletedInsts_def mark_completed_def
      demo_code1_def demo_rob2_def demo_rob1_def demo_defs) (auto simp: fun_eq_iff)

theorem retire_in_order_witness:
  "\<exists>h' e' b'. retireHead no_flags (wakeupSafeInstructionDependants no_flags) [0] 0
     (markCompletedInsts no_flags [2] demo_code1, demo_backend, demo_rob2) = Some (h', e', b') \<and>
     rob_instList b' 0 = [3] \<and> (\<forall>q\<in>set (rob_instList b' 0). seqNum (demo_code1 2) < seqNum (demo_code1 q))"
proof -
  let ?h = "markCompletedInsts no_flags [2] demo_code1"
  have r: "core_reachable no_flags [0] (?h, demo_backend, demo_rob2, demo_iew, {})"
    using nda_reachable.step [OF demo_inserted [of False] nda_step.completed [where ps = "[2]"]] by (simp add: no_flags_def)
  obtain h' b' where ret: "retireHead no_flags (wakeupSafeInstructionDependants no_flags) [0] 0 (?h, demo_backend, demo_rob2) =
      Some (h', demo_backend, b')" and l: "rob_instList b' 0 = [3]" using demo_retire by fastforce
  have s: "seqNum (?h q) = seqNum (demo_code1 q)" for q
    by (simp add: markCompletedInsts_def mark_completed_def upd_inst_apply)
  obtain p where "rob_instList demo_rob2 0 = p # rob_instList b' 0" "\<forall>q\<in>set (rob_instList b' 0). seqNum (?h p) < seqNum (?h q)"
    using retire_in_order [OF r _ ret] by auto
  then have "seqNum (demo_code1 2) < seqNum (demo_code1 3)" by (simp add: s l demo_rob2_def)
  with ret l show ?thesis by auto
qed

lemma head_loop_spec:
  assumes "\<And>t. sorted_wrt (\<lambda>p q. seqNum (h p) < seqNum (h q)) (l t)"
  shows "case head_loop h l T best of
      None \<Rightarrow> best = None \<and> (\<forall>t\<in>set T. l t = [])
    | Some p \<Rightarrow> (best = Some p \<or> (\<exists>t\<in>set T. p \<in> set (l t))) \<and>
        (\<forall>t\<in>set T. \<forall>q\<in>set (l t). seqNum (h p) \<le> seqNum (h q)) \<and> (\<forall>q. best = Some q \<longrightarrow> seqNum (h p) \<le> seqNum (h q))"
proof (induction T arbitrary: best)
  case Nil
  then show ?case by (cases best) auto
next
  case (Cons t T)
  show ?case
  proof (cases "l t")
    case Nil
    then show ?thesis using Cons.IH [of best] by (auto split: option.splits)
  next
    case l: (Cons p ps)
    let ?best = "case best of None \<Rightarrow> Some p | Some b \<Rightarrow> if seqNum (h p) < seqNum (h b) then Some p else Some b"
    have low: "\<forall>q\<in>set (l t). seqNum (h p) \<le> seqNum (h q)" using assms [of t] l by auto
    show ?thesis using Cons.IH [of ?best] l low by (fastforce split: option.splits if_splits)
  qed
qed

lemma sorted_last: "sorted_wrt (\<lambda>p q. f p < (f q :: nat)) l \<Longrightarrow> q \<in> set l \<Longrightarrow> f q \<le> f (last l)"
  by (induction l) (auto split: if_splits dest: order_less_imp_le)

lemma tail_loop_spec:
  assumes "\<And>t. sorted_wrt (\<lambda>p q. seqNum (h p) < seqNum (h q)) (l t)"
  shows "case tail_loop h l T best of
      None \<Rightarrow> best = None \<and> (\<forall>t\<in>set T. l t = [])
    | Some p \<Rightarrow> (best = Some p \<or> (\<exists>t\<in>set T. p \<in> set (l t))) \<and>
        (\<forall>t\<in>set T. \<forall>q\<in>set (l t). seqNum (h q) \<le> seqNum (h p)) \<and> (\<forall>q. best = Some q \<longrightarrow> seqNum (h q) \<le> seqNum (h p))"
proof (induction T arbitrary: best)
  case Nil
  then show ?case by (cases best) auto
next
  case (Cons t T)
  show ?case
  proof (cases "l t = []")
    case True
    then show ?thesis using Cons.IH [of best] by (auto split: option.splits)
  next
    case False
    let ?p = "last (l t)"
    have p: "?p \<in> set (l t)" using False by simp
    let ?best = "case best of None \<Rightarrow> Some ?p | Some b \<Rightarrow> if seqNum (h ?p) > seqNum (h b) then Some ?p else Some b"
    have high: "\<forall>q\<in>set (l t). seqNum (h q) \<le> seqNum (h ?p)" using sorted_last [OF assms] by blast
    show ?thesis using Cons.IH [of ?best] False high p by (fastforce simp: Let_def split: option.splits if_splits)
  qed
qed

text \<open>
  C14. In every reachable state \<open>updateHead\<close> and \<open>updateTail\<close> set the buffer's head to the oldest and its tail to
  the youngest instruction of all active threads, by sequence number, and to the end marker
  when the active threads have no instruction.
\<close>

theorem head_tail_extremes:
  assumes r: "core_reachable fl T (h, e, b, w, d)" and T: "distinct T"
  shows "(case rob_head (updateHead A h b) of
      None \<Rightarrow> \<forall>t\<in>set A. rob_instList b t = []
    | Some p \<Rightarrow> (\<exists>t\<in>set A. p \<in> set (rob_instList b t)) \<and> (\<forall>t\<in>set A. \<forall>q\<in>set (rob_instList b t). seqNum (h p) \<le> seqNum (h q))) \<and>
    (case rob_tail (updateTail A h b) of
      None \<Rightarrow> \<forall>t\<in>set A. rob_instList b t = []
    | Some p \<Rightarrow> (\<exists>t\<in>set A. p \<in> set (rob_instList b t)) \<and> (\<forall>t\<in>set A. \<forall>q\<in>set (rob_instList b t). seqNum (h q) \<le> seqNum (h p)))"
proof -
  have s: "sorted_wrt (\<lambda>p q. seqNum (h p) < seqNum (h q)) (rob_instList b t)" for t
    using nda_okD(1) [OF core.reachable_ok [OF r T]] by (simp add: ids_ok_def)
  show ?thesis
    using head_loop_spec [where T = A and best = None and l = "rob_instList b", OF s]
      tail_loop_spec [where T = A and best = None and l = "rob_instList b", OF s]
    by (auto simp: updateHead_def updateTail_def split: option.splits)
qed

theorem head_tail_extremes_witness:
  "rob_head (updateHead [0] demo_code1 demo_rob2) = Some 2 \<and> seqNum (demo_code1 2) \<le> seqNum (demo_code1 3) \<and>
     rob_tail (updateTail [0] demo_code1 demo_rob2) = Some 3"
  using head_tail_extremes [OF demo_inserted [of False], of "[0]"]
  by (simp add: updateHead_def updateTail_def demo_rob2_def)

end
