(* ===== verification/RenameMap.thy ===== *)
theory RenameMap
  imports DynInst "HOL-Library.Multiset"
begin

text \<open>
  Physical registers and their bookkeeping: the register file's identifiers
  (\<open>cpu/o3/regfile.hh\<close>, \<open>cpu/o3/regfile.cc\<close>), the free lists (\<open>cpu/o3/free_list.hh\<close>) and the
  rename maps (\<open>cpu/o3/rename_map.hh\<close>, \<open>cpu/o3/rename_map.cc\<close>). The source keeps one free list
  and one map for each register class and selects it with a \<open>switch\<close>; the model keeps a
  function of the class.
\<close>

section \<open>Register file\<close>

datatype VecMode = Full | Elem

record isa_regs =
  NumIntRegs :: nat
  NumFloatRegs :: nat
  NumVecRegs :: nat
  NumCCRegs :: nat
  NumMiscRegs :: nat

text \<open>
  The identifiers of each class. Of the register contents only the vector registers are
  kept, which switching the vector mode rearranges.
\<close>

record PhysRegFile =
  regIds :: "RegClass \<Rightarrow> PhysRegId list"
  vectorRegFile :: "nat \<Rightarrow> nat \<Rightarrow> Addr"
  numPhysicalVecRegs :: nat
  numPhysicalVecElemRegs :: nat
  totalNumRegs :: nat
  rf_vecMode :: VecMode

definition phys_reg :: "RegClass \<Rightarrow> nat \<Rightarrow> nat \<Rightarrow> PhysRegId" where
  "phys_reg c idx flat = \<lparr>regClass = c, regIdx = idx, elemIdx = no_elem, flatIdx = flat\<rparr>"

definition PhysRegFile_new :: "isa_params \<Rightarrow> isa_regs \<Rightarrow> nat \<Rightarrow> nat \<Rightarrow> nat \<Rightarrow> nat \<Rightarrow> VecMode \<Rightarrow> PhysRegFile" where
  "PhysRegFile_new isa A ni nf nv nc vmode =
     (let E = NumVecElemPerVecReg isa; flatF = ni; flatV = ni + nf; flatE = ni + nf + nv; flatC = ni + nf + nv + nv * E in
      \<lparr>regIds = (\<lambda>c. case c of
           IntRegClass \<Rightarrow> map (\<lambda>i. phys_reg IntRegClass i i) [0..<ni]
         | FloatRegClass \<Rightarrow> map (\<lambda>i. phys_reg FloatRegClass i (flatF + i)) [0..<nf]
         | VecRegClass \<Rightarrow> map (\<lambda>i. phys_reg VecRegClass i (flatV + i)) [0..<nv]
         | VecElemClass \<Rightarrow> concat (map (\<lambda>i. map (\<lambda>e. \<lparr>regClass = VecElemClass, regIdx = i, elemIdx = e,
               flatIdx = flatE + i * E + e\<rparr>) [0..<E]) [0..<nv])
         | CCRegClass \<Rightarrow> map (\<lambda>i. phys_reg CCRegClass i (flatC + i)) [0..<nc]
         | MiscRegClass \<Rightarrow> map (\<lambda>i. phys_reg MiscRegClass i 0) [0..<NumMiscRegs A]),
       vectorRegFile = (\<lambda>_ _. 0), numPhysicalVecRegs = nv, numPhysicalVecElemRegs = nv * E,
       totalNumRegs = ni + nf + nv + nv * E + nc, rf_vecMode = vmode\<rparr>)"

definition getMiscRegId :: "nat \<Rightarrow> PhysRegFile \<Rightarrow> PhysRegId option" where
  "getMiscRegId idx R = (if idx < length (regIds R MiscRegClass) then Some (regIds R MiscRegClass ! idx) else None)"

definition getRegElemIds :: "isa_params \<Rightarrow> PhysRegId \<Rightarrow> PhysRegFile \<Rightarrow> PhysRegId list option" where
  "getRegElemIds isa r R =
     do {
       assert_that (regClass r = VecRegClass);
       let E = NumVecElemPerVecReg isa;
       Some (take E (drop (regIdx r * E) (regIds R VecElemClass)))
     }"

definition getTrueId :: "isa_params \<Rightarrow> PhysRegId \<Rightarrow> PhysRegFile \<Rightarrow> PhysRegId option" where
  "getTrueId isa r R =
     (let at = (\<lambda>c k. if k < length (regIds R c) then Some (regIds R c ! k) else None) in
      case regClass r of
        VecRegClass \<Rightarrow> at VecRegClass (regIdx r)
      | VecElemClass \<Rightarrow> at VecElemClass (regIdx r * NumVecElemPerVecReg isa + elemIdx r)
      | _ \<Rightarrow> None)"

definition readVecElem :: "PhysRegId \<Rightarrow> PhysRegFile \<Rightarrow> Addr option" where
  "readVecElem r R = do { assert_that (regClass r = VecElemClass); Some (vectorRegFile R (regIdx r) (elemIdx r)) }"

definition setVecReg :: "PhysRegId \<Rightarrow> (nat \<Rightarrow> Addr) \<Rightarrow> PhysRegFile \<Rightarrow> PhysRegFile option" where
  "setVecReg r v R =
     do { assert_that (regClass r = VecRegClass); Some (R\<lparr>vectorRegFile := (vectorRegFile R)(regIdx r := v)\<rparr>) }"

section \<open>Free lists\<close>

text \<open>
  A free list is a queue. Freeing a register clears its taint bit, so the operations that add
  carry the set of tainted registers.
\<close>

type_synonym UnifiedFreeList = "RegClass \<Rightarrow> PhysRegId list"
type_synonym free_state = "UnifiedFreeList \<times> PhysRegId set"

definition simple_addReg :: "RegClass \<Rightarrow> PhysRegId \<Rightarrow> free_state \<Rightarrow> free_state" where
  "simple_addReg c r s = (case s of (F, taint) \<Rightarrow> (F(c := F c @ [r]), clearSecureSpec r taint))"

definition simple_addRegs :: "RegClass \<Rightarrow> PhysRegId list \<Rightarrow> free_state \<Rightarrow> free_state" where
  "simple_addRegs c rs s = fold (simple_addReg c) rs s"

definition simple_getReg :: "RegClass \<Rightarrow> UnifiedFreeList \<Rightarrow> (PhysRegId \<times> UnifiedFreeList) option" where
  "simple_getReg c F = (case F c of [] \<Rightarrow> None | r # rs \<Rightarrow> Some (r, F(c := rs)))"

definition addReg :: "PhysRegId \<Rightarrow> free_state \<Rightarrow> free_state option" where
  "addReg r s = (if regClass r = MiscRegClass then None else Some (simple_addReg (regClass r) r s))"

definition addRegs :: "PhysRegId list \<Rightarrow> free_state \<Rightarrow> free_state option" where
  "addRegs rs s =
     (if rs = [] then Some s
      else do {
        assert_that (regClass (hd rs) = regClass (last rs));
        assert_that (regClass (hd rs) \<noteq> MiscRegClass);
        Some (simple_addRegs (regClass (hd rs)) rs s)
      })"

definition initFreeList :: "isa_params \<Rightarrow> PhysRegFile \<Rightarrow> free_state \<Rightarrow> free_state option" where
  "initFreeList isa R s =
     do {
       assert_that (list_all (\<lambda>i. regIdx (regIds R IntRegClass ! i) = i) [0..<length (regIds R IntRegClass)]);
       s \<leftarrow> addRegs (regIds R IntRegClass) s;
       assert_that (list_all (\<lambda>i. regIdx (regIds R FloatRegClass ! i) = i) [0..<length (regIds R FloatRegClass)]);
       s \<leftarrow> addRegs (regIds R FloatRegClass) s;
       assert_that (list_all (\<lambda>i. regIdx (regIds R VecRegClass ! i) = i \<and>
         list_all (\<lambda>e. regIdx (regIds R VecElemClass ! (i * NumVecElemPerVecReg isa + e)) = i \<and>
                       elemIdx (regIds R VecElemClass ! (i * NumVecElemPerVecReg isa + e)) = e) [0..<NumVecElemPerVecReg isa])
         [0..<length (regIds R VecRegClass)]);
       s \<leftarrow> addRegs (regIds R (if rf_vecMode R = Full then VecRegClass else VecElemClass)) s;
       assert_that (list_all (\<lambda>i. regIdx (regIds R CCRegClass ! i) = i) [0..<length (regIds R CCRegClass)]);
       addRegs (regIds R CCRegClass) s
     }"

section \<open>Rename maps\<close>

text \<open>
  \<open>zeroReg\<close> is built with the integer class whatever the class of the map; an index that
  matches no register is the number of registers plus one, or \<open>65535\<close> for the source's \<open>-1\<close>.
\<close>

record SimpleRenameMap =
  rmap :: "PhysRegId list"
  zeroReg :: RegId

record UnifiedRenameMap =
  rmaps :: "RegClass \<Rightarrow> SimpleRenameMap"
  vecMode :: VecMode
  regFile :: PhysRegFile

definition reg_id :: "RegClass \<Rightarrow> nat \<Rightarrow> RegId" where
  "reg_id c idx = \<lparr>regClass = c, regIdx = idx, elemIdx = no_elem\<rparr>"

text \<open>The entries of a fresh map are null pointers, which \<open>null_reg\<close> stands for.\<close>

definition null_reg :: PhysRegId where
  "null_reg = \<lparr>regClass = IntRegClass, regIdx = 65535, elemIdx = no_elem, flatIdx = 65535\<rparr>"

definition simple_init :: "nat \<Rightarrow> nat \<Rightarrow> SimpleRenameMap" where
  "simple_init n z = \<lparr>rmap = replicate n null_reg, zeroReg = reg_id IntRegClass z\<rparr>"

text \<open>
  \<open>rename\<close> indexes the map with the register's index, \<open>lookup\<close> and \<open>setEntry\<close> with its flat
  index; an index outside the map has no defined result.
\<close>

definition simple_rename ::
  "isa_params \<Rightarrow> RegClass \<Rightarrow> RegId \<Rightarrow> SimpleRenameMap \<times> UnifiedFreeList \<Rightarrow>
     ((PhysRegId \<times> PhysRegId) \<times> SimpleRenameMap \<times> UnifiedFreeList) option" where
  "simple_rename isa c r s =
     (case s of (m, F) \<Rightarrow> do {
        assert_that (regIdx r < length (rmap m));
        let prev_reg = rmap m ! regIdx r;
        if r \<noteq> zeroReg m
        then do {
          (renamed_reg, F) \<leftarrow> simple_getReg c F;
          Some ((renamed_reg, prev_reg), m\<lparr>rmap := (rmap m)[regIdx r := renamed_reg]\<rparr>, F)
        }
        else do {
          assert_that (isZeroReg isa prev_reg);
          Some ((prev_reg, prev_reg), m, F)
        }
      })"

definition simple_lookup :: "isa_params \<Rightarrow> RegId \<Rightarrow> SimpleRenameMap \<Rightarrow> PhysRegId option" where
  "simple_lookup isa r m = (if flatIndex isa r < length (rmap m) then Some (rmap m ! flatIndex isa r) else None)"

definition simple_setEntry :: "isa_params \<Rightarrow> RegId \<Rightarrow> PhysRegId \<Rightarrow> SimpleRenameMap \<Rightarrow> SimpleRenameMap option" where
  "simple_setEntry isa r p m =
     (if flatIndex isa r < length (rmap m) then Some (m\<lparr>rmap := (rmap m)[flatIndex isa r := p]\<rparr>) else None)"

definition mode_ok :: "RegClass \<Rightarrow> VecMode \<Rightarrow> bool" where
  "mode_ok c v \<longleftrightarrow> (c = VecRegClass \<longrightarrow> v = Full) \<and> (c = VecElemClass \<longrightarrow> v = Elem)"

definition rm_lookup :: "isa_params \<Rightarrow> RegId \<Rightarrow> UnifiedRenameMap \<Rightarrow> PhysRegId option" where
  "rm_lookup isa r M =
     (if regClass r = MiscRegClass then getMiscRegId (flatIndex isa r) (regFile M)
      else do {
        assert_that (mode_ok (regClass r) (vecMode M));
        simple_lookup isa r (rmaps M (regClass r))
      })"

definition rm_rename ::
  "isa_params \<Rightarrow> RegId \<Rightarrow> UnifiedRenameMap \<times> UnifiedFreeList \<Rightarrow>
     ((PhysRegId \<times> PhysRegId) \<times> UnifiedRenameMap \<times> UnifiedFreeList) option" where
  "rm_rename isa r s =
     (case s of (M, F) \<Rightarrow>
        if regClass r = MiscRegClass
        then do { p \<leftarrow> rm_lookup isa r M; Some ((p, p), M, F) }
        else do {
          assert_that (mode_ok (regClass r) (vecMode M));
          (info, m, F) \<leftarrow> simple_rename isa (regClass r) r (rmaps M (regClass r), F);
          Some (info, M\<lparr>rmaps := (rmaps M)(regClass r := m)\<rparr>, F)
        })"

definition rm_setEntry :: "isa_params \<Rightarrow> RegId \<Rightarrow> PhysRegId \<Rightarrow> UnifiedRenameMap \<Rightarrow> UnifiedRenameMap option" where
  "rm_setEntry isa r p M =
     (if regClass r = MiscRegClass
      then do { q \<leftarrow> rm_lookup isa r M; assert_that (p = q); Some M }
      else do {
        assert_that (regClass p = regClass r);
        assert_that (mode_ok (regClass r) (vecMode M));
        m \<leftarrow> simple_setEntry isa r p (rmaps M (regClass r));
        Some (M\<lparr>rmaps := (rmaps M)(regClass r := m)\<rparr>)
      })"

definition rm_init :: "isa_params \<Rightarrow> isa_regs \<Rightarrow> PhysRegFile \<Rightarrow> nat \<Rightarrow> nat \<Rightarrow> VecMode \<Rightarrow> UnifiedRenameMap" where
  "rm_init isa A R intZeroReg floatZeroReg v =
     \<lparr>rmaps = (\<lambda>c. case c of
          IntRegClass \<Rightarrow> simple_init (NumIntRegs A) intZeroReg
        | FloatRegClass \<Rightarrow> simple_init (NumFloatRegs A) floatZeroReg
        | VecRegClass \<Rightarrow> simple_init (NumVecRegs A) 65535
        | VecElemClass \<Rightarrow> simple_init (NumVecRegs A * NumVecElemPerVecReg isa) 65535
        | CCRegClass \<Rightarrow> simple_init (NumCCRegs A) 65535
        | MiscRegClass \<Rightarrow> simple_init 0 65535),
      vecMode = v, regFile = R\<rparr>"

definition rm_numFreeEntries :: "UnifiedRenameMap \<Rightarrow> UnifiedFreeList \<Rightarrow> nat" where
  "rm_numFreeEntries M F =
     min (min (length (F IntRegClass)) (length (F FloatRegClass)))
         (if vecMode M = Full then length (F VecRegClass) else length (F VecElemClass))"

definition canRename :: "nat \<Rightarrow> nat \<Rightarrow> nat \<Rightarrow> nat \<Rightarrow> nat \<Rightarrow> UnifiedFreeList \<Rightarrow> bool" where
  "canRename intRegs floatRegs vectorRegs vecElemRegs ccRegs F \<longleftrightarrow>
     intRegs \<le> length (F IntRegClass) \<and> floatRegs \<le> length (F FloatRegClass) \<and>
     vectorRegs \<le> length (F VecRegClass) \<and> vecElemRegs \<le> length (F VecElemClass) \<and> ccRegs \<le> length (F CCRegClass)"

section \<open>Switching the vector mode\<close>

text \<open>
  To elements: split the mapping of every vector register and every free vector register.
\<close>

definition split_entry :: "isa_params \<Rightarrow> nat \<Rightarrow> UnifiedRenameMap \<Rightarrow> UnifiedRenameMap option" where
  "split_entry isa reg M =
     do {
       elems \<leftarrow> getRegElemIds isa (rmap (rmaps M VecRegClass) ! reg) (regFile M);
       m \<leftarrow> foldM (\<lambda>(i, p) m. simple_setEntry isa \<lparr>regClass = VecElemClass, regIdx = reg, elemIdx = i\<rparr> p m)
             (zip [0..<length elems] elems) (rmaps M VecElemClass);
       assert_that (length elems = NumVecElemPerVecReg isa);
       Some (M\<lparr>rmaps := (rmaps M)(VecElemClass := m)\<rparr>)
     }"

fun split_free :: "isa_params \<Rightarrow> PhysRegFile \<Rightarrow> PhysRegId list \<Rightarrow> free_state \<Rightarrow> free_state option" where
  "split_free isa R [] s = Some s"
| "split_free isa R (vr # vrs) (F, taint) =
     do {
       elems \<leftarrow> getRegElemIds isa vr R;
       s \<leftarrow> addRegs elems (F(VecRegClass := vrs), taint);
       split_free isa R vrs s
     }"

definition switch_to_elem :: "isa_params \<Rightarrow> isa_regs \<Rightarrow> UnifiedRenameMap \<times> free_state \<Rightarrow> (UnifiedRenameMap \<times> free_state) option" where
  "switch_to_elem isa A s =
     (case s of (M, F, taint) \<Rightarrow> do {
        assert_that (F VecElemClass = []);
        assert_that (int (length (F VecRegClass)) = (int (numPhysicalVecRegs (regFile M)) - int (NumVecRegs A)) mod 2 ^ 32);
        M \<leftarrow> foldM (split_entry isa) [0..<length (rmap (rmaps M VecRegClass))] M;
        s \<leftarrow> split_free isa (regFile M) (F VecRegClass) (F, taint);
        Some (M\<lparr>vecMode := Elem\<rparr>, s)
      })"

text \<open>
  To full registers: gather the contents of every vector register through the element map,
  write them to the first registers of the file, and free the others.
\<close>

definition gather_reg :: "isa_params \<Rightarrow> UnifiedRenameMap \<Rightarrow> nat \<Rightarrow> (nat \<Rightarrow> Addr) option" where
  "gather_reg isa M i =
     foldM (\<lambda>l v. do {
         p \<leftarrow> simple_lookup isa \<lparr>regClass = VecElemClass, regIdx = i, elemIdx = l\<rparr> (rmaps M VecElemClass);
         e \<leftarrow> readVecElem p (regFile M);
         Some (v(l := e))
       }) [0..<NumVecElemPerVecReg isa] (\<lambda>_. 0)"

definition switch_to_full :: "isa_params \<Rightarrow> isa_regs \<Rightarrow> UnifiedRenameMap \<times> free_state \<Rightarrow> (UnifiedRenameMap \<times> free_state) option" where
  "switch_to_full isa A s =
     (case s of (M, F, taint) \<Rightarrow> do {
        assert_that (F VecRegClass = []);
        assert_that (int (length (F VecRegClass)) = (int (numPhysicalVecElemRegs (regFile M)) - int (NumFloatRegs A)) mod 2 ^ 32);
        new_RF \<leftarrow> foldM (\<lambda>i acc. do { v \<leftarrow> gather_reg isa M i; Some (acc @ [v]) }) [0..<NumVecRegs A] [];
        R \<leftarrow> foldM (\<lambda>i R. do {
               p \<leftarrow> getTrueId isa (phys_reg VecRegClass i 0) R;
               setVecReg p (new_RF ! i) R
             }) [0..<NumVecRegs A] (regFile M);
        (F, taint) \<leftarrow> addRegs (drop (NumVecRegs A) (regIds R VecRegClass)) (F, taint);
        Some (M\<lparr>vecMode := Full, regFile := R\<rparr>, F(VecElemClass := []), taint)
      })"

definition switchMode :: "isa_params \<Rightarrow> isa_regs \<Rightarrow> VecMode \<Rightarrow> UnifiedRenameMap \<times> free_state \<Rightarrow> (UnifiedRenameMap \<times> free_state) option" where
  "switchMode isa A newVecMode s =
     (if newVecMode = Elem \<and> vecMode (fst s) = Full then switch_to_elem isa A s
      else if newVecMode = Full \<and> vecMode (fst s) = Elem then switch_to_full isa A s
      else Some s)"

text \<open>
  C27. Switching the vector mode back to full registers panics whenever the core is in element
  mode, unless the number of physical vector elements happens to equal the number of
  architectural floating-point registers: the check reads the free list of full registers,
  which the line above requires to be empty, where the free list of elements is meant.
\<close>

theorem switch_to_full_panics:
  assumes "vecMode (fst s) = Elem" and "numPhysicalVecElemRegs (regFile (fst s)) < 2 ^ 31" and "NumFloatRegs A < 2 ^ 31"
    and "numPhysicalVecElemRegs (regFile (fst s)) \<noteq> NumFloatRegs A"
  shows "switchMode isa A Full s = None"
proof -
  obtain M F taint where s: "s = (M, F, taint)" by (metis surj_pair)
  let ?d = "int (numPhysicalVecElemRegs (regFile M)) - int (NumFloatRegs A)"
  have "?d mod 2 ^ 32 \<noteq> 0"
  proof
    assume "?d mod 2 ^ 32 = 0"
    then have "2 ^ 32 dvd ?d" by presburger
    moreover have "?d \<noteq> 0" "\<bar>?d\<bar> < 2 ^ 32" using assms(2-4) by (auto simp: s)
    ultimately show False using zdvd_imp_le [of "2 ^ 32" "\<bar>?d\<bar>"] by auto
  qed
  then show ?thesis using assms(1) by (cases "F VecRegClass = []") (auto simp: switchMode_def switch_to_full_def s)
qed

definition sample_isa :: isa_params where
  "sample_isa = \<lparr>ZeroReg = 31, isAlpha = True, NumVecElemPerVecReg = 2\<rparr>"

definition sample_regs_isa :: isa_regs where
  "sample_regs_isa = \<lparr>NumIntRegs = 2, NumFloatRegs = 1, NumVecRegs = 1, NumCCRegs = 1, NumMiscRegs = 1\<rparr>"

definition sample_file :: PhysRegFile where
  "sample_file = PhysRegFile_new sample_isa sample_regs_isa 4 2 2 2 Full"

theorem switch_to_full_panics_witness:
  "switchMode sample_isa sample_regs_isa Full
     (rm_init sample_isa sample_regs_isa sample_file 31 31 Elem, (\<lambda>_. []), {}) = None"
  by (rule switch_to_full_panics)
    (simp_all add: rm_init_def sample_file_def PhysRegFile_new_def sample_isa_def sample_regs_isa_def Let_def)

section \<open>Flat indices\<close>


end
