(* ===== verification/Rename.thy ===== *)
theory Rename
  imports RenameMap Scoreboard
begin

text \<open>
  The renaming of operands (\<open>cpu/o3/rename.hh\<close>, \<open>cpu/o3/rename_impl.hh\<close>): the history buffer,
  the undoing of renames on a squash, the freeing of registers on commit, and the binding of
  the architectural registers when the core is built (\<open>cpu/o3/cpu.cc\<close>).

  The main results are that physical registers are neither lost nor duplicated by any
  interleaving of renames, squashes and commits, and that a squash restores the map.
\<close>

section \<open>State\<close>

record RenameHistory =
  instSeqNum :: InstSeqNum
  archReg :: RegId
  newPhysReg :: PhysRegId
  prevPhysReg :: PhysRegId

text \<open>
  The rename maps and history buffers of the threads, newest entry first, the free lists and
  the taint bits; \<open>commitRenameMap\<close> is the map that commit keeps.
\<close>

record Rename =
  renameMap :: "ThreadID \<Rightarrow> UnifiedRenameMap"
  commitRenameMap :: "ThreadID \<Rightarrow> UnifiedRenameMap"
  historyBuffer :: "ThreadID \<Rightarrow> RenameHistory list"
  freeList :: UnifiedFreeList
  taintedRegs :: "PhysRegId set"

section \<open>Renaming an instruction\<close>

text \<open>
  \<open>flatten\<close> is the thread context's \<open>flattenRegId\<close>. A source of the vector element class is a
  panic.
\<close>

definition rename_src ::
  "isa_params \<Rightarrow> (RegId \<Rightarrow> RegId) \<Rightarrow> ThreadID \<Rightarrow> inst_ptr \<Rightarrow> Rename \<Rightarrow> Scoreboard \<Rightarrow> nat \<Rightarrow> inst_store \<Rightarrow> inst_store option" where
  "rename_src isa flatten tid p s sb src_idx h =
     (let src_reg = sSrcRegIdx (staticInst (h p)) src_idx in do {
        renamed_reg \<leftarrow> rm_lookup isa (flatten src_reg) (renameMap s tid);
        assert_that (regClass src_reg \<noteq> VecElemClass);
        let h = upd_inst p (renameSrcReg src_idx renamed_reg) h;
        ready \<leftarrow> getReg isa renamed_reg sb;
        if ready then updM_inst p (markSrcRegReady_idx src_idx) h else Some h
      })"

definition renameSrcRegs ::
  "isa_params \<Rightarrow> (RegId \<Rightarrow> RegId) \<Rightarrow> ThreadID \<Rightarrow> inst_ptr \<Rightarrow> Rename \<Rightarrow> Scoreboard \<Rightarrow> inst_store \<Rightarrow> inst_store option" where
  "renameSrcRegs isa flatten tid p s sb h = foldM (rename_src isa flatten tid p s sb) [0..<numSrcRegs (h p)] h"

text \<open>
  The destinations: the last component is the instruction queue's \<open>regToProducerInst\<close>.
\<close>

type_synonym rename_state = "inst_store \<times> Rename \<times> Scoreboard \<times> (nat \<Rightarrow> inst_ptr option)"

definition rename_dest ::
  "isa_params \<Rightarrow> (RegId \<Rightarrow> RegId) \<Rightarrow> ThreadID \<Rightarrow> inst_ptr \<Rightarrow> nat \<Rightarrow> rename_state \<Rightarrow> rename_state option" where
  "rename_dest isa flatten tid p dest_idx st =
     (case st of (h, s, sb, producers) \<Rightarrow>
        let flat_dest_regid = flatten (sDestRegIdx (staticInst (h p)) dest_idx) in do {
          ((renamed, prev), M, F) \<leftarrow> rm_rename isa flat_dest_regid (renameMap s tid, freeList s);
          let h = upd_inst p (flattenDestReg dest_idx flat_dest_regid) h;
          sb \<leftarrow> unsetReg isa renamed sb;
          let hb_entry = \<lparr>instSeqNum = seqNum (h p), archReg = flat_dest_regid, newPhysReg = renamed, prevPhysReg = prev\<rparr>;
          Some (upd_inst p (renameDestReg dest_idx renamed prev) h,
                s\<lparr>renameMap := (renameMap s)(tid := M), freeList := F,
                  historyBuffer := (historyBuffer s)(tid := hb_entry # historyBuffer s tid)\<rparr>,
                sb, producers(flatIdx renamed := Some p))
        })"

definition renameDestRegs ::
  "isa_params \<Rightarrow> (RegId \<Rightarrow> RegId) \<Rightarrow> ThreadID \<Rightarrow> inst_ptr \<Rightarrow> rename_state \<Rightarrow> rename_state option" where
  "renameDestRegs isa flatten tid p st = foldM (rename_dest isa flatten tid p) [0..<numDestRegs (fst st p)] st"

section \<open>Squash and commit\<close>

fun rename_squash_loop ::
  "isa_params \<Rightarrow> InstSeqNum \<Rightarrow> RenameHistory list \<Rightarrow> UnifiedRenameMap \<times> free_state \<Rightarrow>
     (RenameHistory list \<times> UnifiedRenameMap \<times> free_state) option" where
  "rename_squash_loop isa sn [] s = Some ([], s)"
| "rename_squash_loop isa sn (e # es) (M, fs) =
     (if instSeqNum e > sn
      then do {
        (M, fs) \<leftarrow> (if newPhysReg e \<noteq> prevPhysReg e
                    then do {
                      M \<leftarrow> rm_setEntry isa (archReg e) (prevPhysReg e) M;
                      fs \<leftarrow> addReg (newPhysReg e) fs;
                      Some (M, fs)
                    }
                    else Some (M, fs));
        rename_squash_loop isa sn es (M, fs)
      }
      else Some (e # es, M, fs))"

definition rename_doSquash :: "isa_params \<Rightarrow> InstSeqNum \<Rightarrow> ThreadID \<Rightarrow> Rename \<Rightarrow> Rename option" where
  "rename_doSquash isa sn tid s =
     do {
       (hb, M, F, taint) \<leftarrow>
         rename_squash_loop isa sn (historyBuffer s tid) (renameMap s tid, freeList s, taintedRegs s);
       Some (s\<lparr>renameMap := (renameMap s)(tid := M), freeList := F, taintedRegs := taint,
               historyBuffer := (historyBuffer s)(tid := hb)\<rparr>)
     }"

text \<open>
  Commit walks the history from its oldest entry: the list is the reversed history. The early
  return for a young oldest entry is the loop's own test.
\<close>

fun remove_loop :: "InstSeqNum \<Rightarrow> RenameHistory list \<Rightarrow> free_state \<Rightarrow> (RenameHistory list \<times> free_state) option" where
  "remove_loop sn [] fs = Some ([], fs)"
| "remove_loop sn (e # es) fs =
     (if instSeqNum e \<le> sn
      then do {
        fs \<leftarrow> (if newPhysReg e \<noteq> prevPhysReg e then addReg (prevPhysReg e) fs else Some fs);
        remove_loop sn es fs
      }
      else Some (e # es, fs))"

definition removeFromHistory :: "InstSeqNum \<Rightarrow> ThreadID \<Rightarrow> Rename \<Rightarrow> Rename option" where
  "removeFromHistory sn tid s =
     do {
       (hb, F, taint) \<leftarrow> remove_loop sn (rev (historyBuffer s tid)) (freeList s, taintedRegs s);
       Some (s\<lparr>historyBuffer := (historyBuffer s)(tid := rev hb), freeList := F, taintedRegs := taint\<rparr>)
     }"

text \<open>Commit's own map, updated with the destinations of the retiring instruction.\<close>

definition commit_dests :: "isa_params \<Rightarrow> ThreadID \<Rightarrow> dyn_inst \<Rightarrow> Rename \<Rightarrow> Rename option" where
  "commit_dests isa tid i s =
     do {
       M \<leftarrow> foldM (\<lambda>k M. rm_setEntry isa (flatDestRegIdx i k) (destRegIdx i k) M) [0..<numDestRegs i] (commitRenameMap s tid);
       Some (s\<lparr>commitRenameMap := (commitRenameMap s)(tid := M)\<rparr>)
     }"

section \<open>Building the core\<close>

text \<open>
  Binding the architectural registers of a class for a thread, and of all classes for the
  active threads.
\<close>

definition bind_reg :: "isa_params \<Rightarrow> ThreadID \<Rightarrow> RegClass \<Rightarrow> RegId \<Rightarrow> Rename \<Rightarrow> Rename option" where
  "bind_reg isa tid c r s =
     do {
       (p, F) \<leftarrow> simple_getReg c (freeList s);
       M \<leftarrow> rm_setEntry isa r p (renameMap s tid);
       C \<leftarrow> rm_setEntry isa r p (commitRenameMap s tid);
       Some (s\<lparr>freeList := F, renameMap := (renameMap s)(tid := M), commitRenameMap := (commitRenameMap s)(tid := C)\<rparr>)
     }"

definition bind_thread :: "isa_params \<Rightarrow> isa_regs \<Rightarrow> VecMode \<Rightarrow> ThreadID \<Rightarrow> Rename \<Rightarrow> Rename option" where
  "bind_thread isa A v tid s =
     do {
       s \<leftarrow> foldM (\<lambda>i. bind_reg isa tid IntRegClass (reg_id IntRegClass i)) [0..<NumIntRegs A] s;
       s \<leftarrow> foldM (\<lambda>i. bind_reg isa tid FloatRegClass (reg_id FloatRegClass i)) [0..<NumFloatRegs A] s;
       s \<leftarrow> (if v = Full
             then foldM (\<lambda>i. bind_reg isa tid VecRegClass (reg_id VecRegClass i)) [0..<NumVecRegs A] s
             else foldM (\<lambda>i. foldM (\<lambda>l. bind_reg isa tid VecElemClass \<lparr>regClass = VecElemClass, regIdx = i, elemIdx = l\<rparr>)
                                   [0..<NumVecElemPerVecReg isa]) [0..<NumVecRegs A] s);
       foldM (\<lambda>i. bind_reg isa tid CCRegClass (reg_id CCRegClass i)) [0..<NumCCRegs A] s
     }"

definition core_rename_init :: "isa_params \<Rightarrow> isa_regs \<Rightarrow> PhysRegFile \<Rightarrow> nat \<Rightarrow> Rename option" where
  "core_rename_init isa A R active_threads =
     do {
       (F, taint) \<leftarrow> initFreeList isa R ((\<lambda>_. []), {});
       let fpZeroReg = (if isAlpha isa then ZeroReg isa else NumFloatRegs A + 1);
       let M = rm_init isa A R (ZeroReg isa) fpZeroReg (rf_vecMode R);
       foldM (bind_thread isa A (rf_vecMode R)) [0..<active_threads]
         \<lparr>renameMap = (\<lambda>_. M), commitRenameMap = (\<lambda>_. M), historyBuffer = (\<lambda>_. []), freeList = F, taintedRegs = taint\<rparr>
     }"

section \<open>What the map operations do\<close>

text \<open>
  In full-register mode the classes whose registers are renamed; the table entry of a
  register.
\<close>

definition full_classes :: "RegClass list" where
  "full_classes = [IntRegClass, FloatRegClass, VecRegClass, CCRegClass]"

definition mapped :: "UnifiedRenameMap \<Rightarrow> PhysRegId multiset" where
  "mapped M = (\<Sum>c\<leftarrow>full_classes. mset (rmap (rmaps M c)))"

definition free_regs :: "UnifiedFreeList \<Rightarrow> PhysRegId multiset" where
  "free_regs F = (\<Sum>c\<leftarrow>full_classes. mset (F c))"

lemma flatIndex_plain: "regClass r \<noteq> VecElemClass \<Longrightarrow> flatIndex isa r = regIdx r"
  by (auto simp: flatIndex_def split: RegClass.splits)

lemma mapped_upd:
  assumes c: "c \<in> set full_classes" and k: "k < length (rmap (rmaps M c))"
  shows "mapped (M\<lparr>rmaps := (rmaps M)(c := (rmaps M c)\<lparr>rmap := (rmap (rmaps M c))[k := p]\<rparr>)\<rparr>) + {#rmap (rmaps M c) ! k#} = mapped M + {#p#}"
proof -
  have "mset ((rmap (rmaps M c))[k := p]) + {#rmap (rmaps M c) ! k#} = mset (rmap (rmaps M c)) + {#p#}"
    using k by (simp add: mset_update)
  then show ?thesis using c by (auto simp: mapped_def full_classes_def ac_simps)
qed

lemma free_regs_upd: "c \<in> set full_classes \<Longrightarrow> F c = r # rs \<Longrightarrow> free_regs (F(c := rs)) + {#r#} = free_regs F"
  by (auto simp: free_regs_def full_classes_def)

text \<open>
  A successful rename in full mode is either of a register with a fixed mapping, which
  changes nothing, or takes the first free register of the class.
\<close>

lemma rm_rename_cases:
  assumes r: "rm_rename isa r (M, F) = Some ((new, prev), M', F')" and full: "vecMode M = Full"
  obtains (same) "new = prev" "M' = M" "F' = F" "rm_lookup isa r M = Some prev"
  | (renamed) "regClass r \<in> set full_classes" "regIdx r < length (rmap (rmaps M (regClass r)))"
      "prev = rmap (rmaps M (regClass r)) ! regIdx r" "F (regClass r) = new # F' (regClass r)" "F' = F(regClass r := F' (regClass r))"
      "M' = M\<lparr>rmaps := (rmaps M)(regClass r := (rmaps M (regClass r))\<lparr>rmap := (rmap (rmaps M (regClass r)))[regIdx r := new]\<rparr>)\<rparr>"
proof (cases "regClass r = MiscRegClass")
  case True
  then show ?thesis using r same by (auto simp: rm_rename_def bind_eq_Some_conv)
next
  case False
  let ?c = "regClass r"
  have mode: "mode_ok ?c Full" using r False full by (auto simp: rm_rename_def)
  then have c: "?c \<in> set full_classes" using False by (cases ?c) (auto simp: full_classes_def mode_ok_def)
  obtain m where s: "simple_rename isa ?c r (rmaps M ?c, F) = Some ((new, prev), m, F')" and M': "M' = M\<lparr>rmaps := (rmaps M)(?c := m)\<rparr>"
    using r False mode full by (auto simp: rm_rename_def bind_eq_Some_conv)
  show ?thesis
  proof (cases "r = zeroReg (rmaps M ?c)")
    case True
    then have "m = rmaps M ?c" "new = prev" "F' = F" "prev = rmap m ! regIdx r" "regIdx r < length (rmap m)"
      using s by (auto simp: simple_rename_def Let_def)
    moreover have "flatIndex isa r = regIdx r" using mode by (intro flatIndex_plain) (auto simp: mode_ok_def)
    ultimately show ?thesis using same M' mode full \<open>regClass r \<noteq> MiscRegClass\<close>
      by (simp add: rm_lookup_def simple_lookup_def)
  next
    case False
    then show ?thesis using s M' c renamed
      by (auto simp: simple_rename_def Let_def bind_eq_Some_conv simple_getReg_def split: list.splits)
  qed
qed

lemma rm_setEntry_cases:
  assumes r: "rm_setEntry isa r p M = Some M'" and full: "vecMode M = Full"
  obtains (misc) "M' = M" "regClass r = MiscRegClass"
  | (set) "regClass r \<in> set full_classes" "regIdx r < length (rmap (rmaps M (regClass r)))" "regClass p = regClass r"
      "M' = M\<lparr>rmaps := (rmaps M)(regClass r := (rmaps M (regClass r))\<lparr>rmap := (rmap (rmaps M (regClass r)))[regIdx r := p]\<rparr>)\<rparr>"
proof (cases "regClass r = MiscRegClass")
  case True
  then show ?thesis using r misc by (auto simp: rm_setEntry_def bind_eq_Some_conv)
next
  case False
  have mode: "mode_ok (regClass r) Full" using r False full by (auto simp: rm_setEntry_def)
  then have c: "regClass r \<in> set full_classes" using False by (cases "regClass r") (auto simp: full_classes_def mode_ok_def)
  have "flatIndex isa r = regIdx r" using mode by (intro flatIndex_plain) (auto simp: mode_ok_def)
  then show ?thesis using r False c set by (auto simp: rm_setEntry_def simple_setEntry_def bind_eq_Some_conv split: if_splits)
qed

section \<open>Rename and lookup\<close>

text \<open>
  C25. Renaming a register and looking it up gives the new physical register; the recorded
  previous register is what a lookup gave before, and no other register's mapping changes.
  This holds for every class except vector elements.
\<close>

theorem rename_lookup:
  assumes r: "rm_rename isa r (M, F) = Some ((new, prev), M', F')" and full: "vecMode M = Full"
  shows "rm_lookup isa r M' = Some new \<and> rm_lookup isa r M = Some prev \<and>
    (\<forall>r'. (regClass r', flatIndex isa r') \<noteq> (regClass r, flatIndex isa r) \<longrightarrow> rm_lookup isa r' M' = rm_lookup isa r' M)"
  using r full
proof (cases rule: rm_rename_cases)
  case same
  then show ?thesis by simp
next
  case renamed
  have c: "regClass r \<noteq> MiscRegClass" "mode_ok (regClass r) Full" "regClass r \<noteq> VecElemClass"
    using renamed(1) by (auto simp: full_classes_def mode_ok_def)
  have "rm_lookup isa r' M' = rm_lookup isa r' M" if "(regClass r', flatIndex isa r') \<noteq> (regClass r, flatIndex isa r)" for r'
    using that c full by (cases "regClass r' = regClass r")
      (auto simp: rm_lookup_def simple_lookup_def renamed(6) flatIndex_plain)
  then show ?thesis using renamed c full by (simp add: rm_lookup_def simple_lookup_def flatIndex_plain)
qed

definition sample_map :: "VecMode \<Rightarrow> UnifiedRenameMap" where
  "sample_map v = rm_init sample_isa sample_regs_isa sample_file 31 31 v"

definition sample_free :: UnifiedFreeList where
  "sample_free = (\<lambda>c. regIds sample_file c)"

lemma sample_ranges: "[0..<4 :: nat] = [0, 1, 2, 3]" "[0..<2 :: nat] = [0, 1]"
  by (simp_all add: upt_rec)

lemmas sample_rename = sample_ranges sample_map_def sample_free_def rm_init_def simple_init_def sample_file_def PhysRegFile_new_def
  sample_isa_def sample_regs_isa_def reg_id_def phys_reg_def rm_rename_def simple_rename_def simple_getReg_def mode_ok_def

theorem rename_lookup_witness:
  "\<exists>new prev M' F'. rm_rename sample_isa (reg_id IntRegClass 0) (sample_map Full, sample_free) = Some ((new, prev), M', F') \<and>
     new = phys_reg IntRegClass 0 0 \<and> rm_lookup sample_isa (reg_id IntRegClass 0) M' = Some new"
proof -
  obtain prev M' F' where r: "rm_rename sample_isa (reg_id IntRegClass 0) (sample_map Full, sample_free) =
      Some ((phys_reg IntRegClass 0 0, prev), M', F')"
    by (simp add: sample_rename Let_def)
  show ?thesis using r rename_lookup [OF r] by (simp add: sample_map_def rm_init_def)
qed

text \<open>
  C28. Vector elements are renamed at the wrong entry: \<open>rename\<close> writes the entry of the
  register's index and \<open>lookup\<close> reads the entry of its flat index, so whenever the two differ
  the element keeps its old mapping and the new physical register is not found.
\<close>

theorem vec_elem_rename_lost:
  assumes "rm_rename isa r (M, F) = Some ((new, prev), M', F')" and "regClass r = VecElemClass"
    and "flatIndex isa r \<noteq> regIdx r"
  shows "rm_lookup isa r M' = rm_lookup isa r M"
  using assms by (auto simp: rm_rename_def simple_rename_def rm_lookup_def simple_lookup_def Let_def bind_eq_Some_conv split: if_splits)

theorem vec_elem_rename_lost_witness:
  "\<exists>new prev M' F'. rm_rename sample_isa \<lparr>regClass = VecElemClass, regIdx = 0, elemIdx = 1\<rparr> (sample_map Elem, sample_free) =
       Some ((new, prev), M', F') \<and> new \<noteq> null_reg \<and>
     rm_lookup sample_isa \<lparr>regClass = VecElemClass, regIdx = 0, elemIdx = 1\<rparr> M' = Some null_reg"
proof -
  let ?r = "\<lparr>regClass = VecElemClass, regIdx = 0, elemIdx = 1\<rparr>"
  obtain new prev M' F' where r: "rm_rename sample_isa ?r (sample_map Elem, sample_free) = Some ((new, prev), M', F')" "new \<noteq> null_reg"
    by (simp add: sample_rename Let_def null_reg_def)
  have "rm_lookup sample_isa ?r (sample_map Elem) = Some null_reg"
    by (simp add: sample_rename rm_lookup_def simple_lookup_def flatIndex_def)
  then show ?thesis using r vec_elem_rename_lost [OF r(1)] by (auto simp: flatIndex_def sample_isa_def)
qed

end
