(* ===== verification/RenameOk.thy ===== *)
theory RenameOk
  imports Rename
begin

text \<open>
  Correctness of renaming: the history buffer always describes how to undo the renames in
  flight, no interleaving of renames, squashes and commits loses or duplicates a physical
  register, and the history refines an abstract architectural map that only commit changes.
\<close>

section \<open>Undoing a rename\<close>

definition undo :: "RenameHistory \<Rightarrow> UnifiedRenameMap \<Rightarrow> UnifiedRenameMap" where
  "undo e M =
     (if newPhysReg e = prevPhysReg e then M
      else let c = regClass (archReg e) in
        M\<lparr>rmaps := (rmaps M)(c := (rmaps M c)\<lparr>rmap := (rmap (rmaps M c))[regIdx (archReg e) := prevPhysReg e]\<rparr>)\<rparr>)"

definition redo :: "RenameHistory \<Rightarrow> UnifiedRenameMap \<Rightarrow> UnifiedRenameMap" where
  "redo e M =
     (if newPhysReg e = prevPhysReg e then M
      else let c = regClass (archReg e) in
        M\<lparr>rmaps := (rmaps M)(c := (rmaps M c)\<lparr>rmap := (rmap (rmaps M c))[regIdx (archReg e) := newPhysReg e]\<rparr>)\<rparr>)"

text \<open>An entry describes the youngest rename of a map.\<close>

definition entry_ok :: "RenameHistory \<Rightarrow> UnifiedRenameMap \<Rightarrow> bool" where
  "entry_ok e M \<longleftrightarrow> newPhysReg e = prevPhysReg e \<or>
     (let c = regClass (archReg e); k = regIdx (archReg e) in
        c \<in> set full_classes \<and> k < length (rmap (rmaps M c)) \<and> rmap (rmaps M c) ! k = newPhysReg e \<and>
        regClass (newPhysReg e) = c \<and> regClass (prevPhysReg e) = c)"

fun hist_ok :: "UnifiedRenameMap \<Rightarrow> RenameHistory list \<Rightarrow> bool" where
  "hist_ok M [] \<longleftrightarrow> True"
| "hist_ok M (e # es) \<longleftrightarrow> entry_ok e M \<and> hist_ok (undo e M) es"

text \<open>The map under the whole history: the committed one.\<close>

definition unwind :: "RenameHistory list \<Rightarrow> UnifiedRenameMap \<Rightarrow> UnifiedRenameMap" where
  "unwind es M = fold undo es M"

definition prevs :: "RenameHistory list \<Rightarrow> PhysRegId multiset" where
  "prevs es = mset (map prevPhysReg (filter (\<lambda>e. newPhysReg e \<noteq> prevPhysReg e) es))"

definition news :: "RenameHistory list \<Rightarrow> PhysRegId multiset" where
  "news es = mset (map newPhysReg (filter (\<lambda>e. newPhysReg e \<noteq> prevPhysReg e) es))"

lemma prevs_simps [simp]:
  "prevs [] = {#}" "prevs (e # es) = (if newPhysReg e = prevPhysReg e then {#} else {#prevPhysReg e#}) + prevs es"
  "prevs (es @ fs) = prevs es + prevs fs"
  by (simp_all add: prevs_def)

lemma news_simps [simp]:
  "news [] = {#}" "news (e # es) = (if newPhysReg e = prevPhysReg e then {#} else {#newPhysReg e#}) + news es"
  by (simp_all add: news_def)

lemma undo_frame [simp]: "vecMode (undo e M) = vecMode M" "regFile (undo e M) = regFile M"
  by (simp_all add: undo_def Let_def)

lemma unwind_frame [simp]: "vecMode (unwind es M) = vecMode M"
  by (induction es arbitrary: M) (simp_all add: unwind_def)

lemma unwind_simps [simp]: "unwind [] M = M" "unwind (e # es) M = unwind es (undo e M)"
  "unwind (es @ fs) M = unwind fs (unwind es M)"
  by (simp_all add: unwind_def)

lemma entry_ok_mapped:
  "entry_ok e M \<Longrightarrow> mapped (undo e M) + (if newPhysReg e = prevPhysReg e then {#} else {#newPhysReg e#}) =
     mapped M + (if newPhysReg e = prevPhysReg e then {#} else {#prevPhysReg e#})"
  using mapped_upd [of "regClass (archReg e)" "regIdx (archReg e)" M "prevPhysReg e"]
  by (auto simp: entry_ok_def undo_def Let_def)

lemma rmap_upd_same: "k < length (rmap m) \<Longrightarrow> rmap m ! k = p \<Longrightarrow> m\<lparr>rmap := (rmap m)[k := p]\<rparr> = m"
  by (cases m) auto

lemma redo_undo: "entry_ok e M \<Longrightarrow> redo e (undo e M) = M"
  by (cases M) (auto simp: entry_ok_def undo_def redo_def Let_def rmap_upd_same)

lemma hist_ok_append: "hist_ok M (es @ fs) = (hist_ok M es \<and> hist_ok (unwind es M) fs)"
  by (induction es arbitrary: M) auto

text \<open>The new registers of a history are held: mapped, or the previous register of a younger entry.\<close>

lemma news_held: "hist_ok M es \<Longrightarrow> news es \<subseteq># mapped M + prevs es"
proof (induction es arbitrary: M)
  case Nil
  then show ?case by simp
next
  case (Cons e es)
  let ?new = "if newPhysReg e = prevPhysReg e then {#} else {#newPhysReg e#}"
  have "news (e # es) = ?new + news es" by simp
  also have "\<dots> \<subseteq># ?new + (mapped (undo e M) + prevs es)"
    using Cons by (intro subset_mset.add_left_mono) auto
  also have "\<dots> = mapped M + prevs (e # es)" using entry_ok_mapped [of e M] Cons.prems by (simp add: ac_simps split: if_splits)
  finally show ?case .
qed

section \<open>Each operation\<close>

definition typed_map :: "UnifiedRenameMap \<Rightarrow> bool" where
  "typed_map M \<longleftrightarrow> (\<forall>c\<in>set full_classes. \<forall>r\<in>set (rmap (rmaps M c)). regClass r = c)"

definition typed_free :: "UnifiedFreeList \<Rightarrow> bool" where
  "typed_free F \<longleftrightarrow> (\<forall>c\<in>set full_classes. \<forall>r\<in>set (F c). regClass r = c)"

definition thread_ok :: "UnifiedRenameMap \<Rightarrow> RenameHistory list \<Rightarrow> bool" where
  "thread_ok M es \<longleftrightarrow> vecMode M = Full \<and> typed_map M \<and> hist_ok M es"

lemma typed_map_upd:
  assumes "typed_map M" and "regClass p = c"
  shows "typed_map (M\<lparr>rmaps := (rmaps M)(c := (rmaps M c)\<lparr>rmap := (rmap (rmaps M c))[k := p]\<rparr>)\<rparr>)"
  using assms set_update_subset_insert [of "rmap (rmaps M c)" k p] by (auto simp: typed_map_def)

lemma typed_undo: "typed_map M \<Longrightarrow> entry_ok e M \<Longrightarrow> typed_map (undo e M)"
  using typed_map_upd [of M "prevPhysReg e"] by (auto simp: undo_def entry_ok_def Let_def)

lemma addReg_full:
  assumes "regClass r \<in> set full_classes"
  shows "\<exists>F' t'. addReg r (F, t) = Some (F', t') \<and> free_regs F' = free_regs F + {#r#} \<and> (typed_free F \<longrightarrow> typed_free F')"
  using assms by (auto simp: addReg_def simple_addReg_def free_regs_def full_classes_def typed_free_def)

text \<open>Renaming one destination.\<close>

lemma rm_rename_ok:
  assumes r: "rm_rename isa r (M, F) = Some ((new, prev), M', F')" and ok: "thread_ok M es" and F: "typed_free F"
    and e: "e = \<lparr>instSeqNum = sn, archReg = r, newPhysReg = new, prevPhysReg = prev\<rparr>"
    and d: "\<forall>x. count (free_regs F + mapped M) x \<le> 1"
  shows "thread_ok M' (e # es) \<and> typed_free F' \<and> undo e M' = M \<and>
    free_regs F' + mapped M' + prevs (e # es) = free_regs F + mapped M + prevs es"
  using r ok [unfolded thread_ok_def, THEN conjunct1]
proof (cases rule: rm_rename_cases)
  case same
  then show ?thesis using ok F by (simp add: thread_ok_def e entry_ok_def undo_def)
next
  case renamed
  let ?c = "regClass r" and ?k = "regIdx r"
  have f: "free_regs F' + {#new#} = free_regs F" using free_regs_upd [where F = F and c = ?c, OF renamed(1,4)] renamed(5) by simp
  have m: "mapped M' + {#prev#} = mapped M + {#new#}" using mapped_upd [OF renamed(1,2), of new] renamed(3,6) by simp
  have cn: "regClass new = ?c" using F renamed(1,4) by (auto simp: typed_free_def)
  have cp: "regClass prev = ?c" using ok renamed(1-3) by (auto simp: thread_ok_def typed_map_def)
  have np: "new \<noteq> prev"
  proof
    assume "new = prev"
    moreover have "prev \<in># mapped M" using renamed(1-3) by (auto simp: mapped_def full_classes_def)
    ultimately have "count (free_regs F + mapped M) new \<ge> 2" by (simp add: f [symmetric] flip: count_greater_zero_iff)
    with d show False by (metis not_less_eq_eq numeral_2_eq_2 One_nat_def)
  qed
  have un: "undo e M' = M" using np renamed(2,3,6) by (cases M) (simp add: undo_def e Let_def)
  have "typed_map M'" unfolding renamed(6) by (rule typed_map_upd) (use ok cn in \<open>auto simp: thread_ok_def\<close>)
  moreover have "typed_free F'" using F renamed(4) by (subst renamed(5)) (auto simp: typed_free_def split: if_splits)
  moreover have "entry_ok e M'" using renamed(1,2) cn cp by (simp add: entry_ok_def e renamed(6) Let_def)
  ultimately show ?thesis using ok un np f m by (simp add: thread_ok_def renamed(6) e ac_simps)
qed

text \<open>Undoing one entry succeeds, and gives the new register back.\<close>

lemma undo_entry:
  assumes ok: "thread_ok M (e # es)" and ne: "newPhysReg e \<noteq> prevPhysReg e"
  shows "rm_setEntry isa (archReg e) (prevPhysReg e) M = Some (undo e M) \<and> thread_ok (undo e M) es"
proof -
  let ?c = "regClass (archReg e)"
  have e: "entry_ok e M" using ok by (simp add: thread_ok_def)
  then have c: "?c \<in> set full_classes" "regIdx (archReg e) < length (rmap (rmaps M ?c))" "regClass (prevPhysReg e) = ?c"
    using ne by (auto simp: entry_ok_def Let_def)
  then have "?c \<noteq> VecElemClass" "?c \<noteq> MiscRegClass" by (auto simp: full_classes_def)
  then have "rm_setEntry isa (archReg e) (prevPhysReg e) M = Some (undo e M)"
    using c ne ok by (simp add: rm_setEntry_def simple_setEntry_def flatIndex_plain mode_ok_def undo_def Let_def thread_ok_def)
  then show ?thesis using ok typed_undo [OF _ e] by (simp add: thread_ok_def)
qed

text \<open>
  The squash loop never fails on a well-formed history. It drops the entries younger than the
  squash, and what it takes out of the map goes to the free list.
\<close>

lemma squash_loop_ok:
  assumes "thread_ok M es" and "typed_free F"
  shows "\<exists>F' t'. rename_squash_loop isa sn es (M, F, t) =
      Some (dropWhile (\<lambda>e. instSeqNum e > sn) es, unwind (takeWhile (\<lambda>e. instSeqNum e > sn) es) M, F', t') \<and>
    thread_ok (unwind (takeWhile (\<lambda>e. instSeqNum e > sn) es) M) (dropWhile (\<lambda>e. instSeqNum e > sn) es) \<and> typed_free F' \<and>
    free_regs F' + mapped (unwind (takeWhile (\<lambda>e. instSeqNum e > sn) es) M) + prevs (dropWhile (\<lambda>e. instSeqNum e > sn) es) =
      free_regs F + mapped M + prevs es"
  using assms
proof (induction es arbitrary: M F t)
  case Nil
  then show ?case by simp
next
  case (Cons e es)
  consider "\<not> instSeqNum e > sn" | "instSeqNum e > sn" "newPhysReg e = prevPhysReg e"
    | "instSeqNum e > sn" "newPhysReg e \<noteq> prevPhysReg e" by blast
  then show ?case
  proof cases
    case 1
    then show ?thesis using Cons.prems by simp
  next
    case 2
    then have "undo e M = M" by (simp add: undo_def)
    with 2 show ?thesis using Cons.IH [of M F t] Cons.prems by (simp add: thread_ok_def)
  next
    case 3
    have e: "entry_ok e M" using Cons.prems by (simp add: thread_ok_def)
    note u = undo_entry [OF Cons.prems(1) 3(2), of isa]
    obtain F1 t1 where a: "addReg (newPhysReg e) (F, t) = Some (F1, t1)" "free_regs F1 = free_regs F + {#newPhysReg e#}" "typed_free F1"
      using addReg_full [of "newPhysReg e" F t] e 3(2) Cons.prems(2) by (auto simp: entry_ok_def Let_def)
    have "free_regs F1 + mapped (undo e M) + prevs es = free_regs F + mapped M + prevs (e # es)"
      using entry_ok_mapped [OF e] 3(2) a(2) by (simp add: ac_simps)
    then show ?thesis using Cons.IH [of "undo e M" F1 t1] u a(1,3) 3 by simp
  qed
qed

text \<open>Commit: the loop over the oldest entries never fails, and frees the registers they replaced.\<close>

lemma remove_loop_ok:
  assumes "\<forall>e\<in>set es. newPhysReg e \<noteq> prevPhysReg e \<longrightarrow> regClass (prevPhysReg e) \<in> set full_classes" and "typed_free F"
  shows "\<exists>F' t'. remove_loop sn es (F, t) = Some (dropWhile (\<lambda>e. instSeqNum e \<le> sn) es, F', t') \<and> typed_free F' \<and>
    free_regs F' + prevs (dropWhile (\<lambda>e. instSeqNum e \<le> sn) es) = free_regs F + prevs es"
  using assms
proof (induction es arbitrary: F t)
  case Nil
  then show ?case by simp
next
  case (Cons e es)
  show ?case
  proof (cases "instSeqNum e \<le> sn \<and> newPhysReg e \<noteq> prevPhysReg e")
    case True
    then obtain F1 t1 where a: "addReg (prevPhysReg e) (F, t) = Some (F1, t1)"
        "free_regs F1 = free_regs F + {#prevPhysReg e#}" "typed_free F1"
      using addReg_full [of "prevPhysReg e" F t] Cons.prems by auto
    then show ?thesis using Cons.IH [of F1 t1] Cons.prems True by auto
  next
    case False
    then show ?thesis using Cons.IH [of F t] Cons.prems by auto
  qed
qed

lemma hist_ok_prevs:
  "hist_ok M es \<Longrightarrow> e \<in> set es \<Longrightarrow> newPhysReg e \<noteq> prevPhysReg e \<Longrightarrow> regClass (prevPhysReg e) \<in> set full_classes"
  by (induction es arbitrary: M) (auto simp: entry_ok_def Let_def)

lemma prevs_rev [simp]: "prevs (rev es) = prevs es"
  by (simp add: prevs_def rev_filter [symmetric] rev_map [symmetric])

section \<open>The machine\<close>

text \<open>
  Destinations renamed one at a time, squashes and commits, of \<open>n\<close> threads in any order.
\<close>

inductive rename_step :: "isa_params \<Rightarrow> nat \<Rightarrow> Rename \<Rightarrow> Rename \<Rightarrow> bool" for isa n where
  dest: "tid < n \<Longrightarrow> rename_dest isa flatten tid p k (h, s, sb, pr) = Some (h', s', sb', pr') \<Longrightarrow> rename_step isa n s s'"
| squash: "tid < n \<Longrightarrow> rename_doSquash isa sn tid s = Some s' \<Longrightarrow> rename_step isa n s s'"
| commit: "tid < n \<Longrightarrow> removeFromHistory sn tid s = Some s' \<Longrightarrow> rename_step isa n s s'"

inductive rename_reachable :: "isa_params \<Rightarrow> nat \<Rightarrow> Rename \<Rightarrow> Rename \<Rightarrow> bool" for isa n s0 where
  start: "rename_reachable isa n s0 s0"
| step: "rename_reachable isa n s0 s \<Longrightarrow> rename_step isa n s s' \<Longrightarrow> rename_reachable isa n s0 s'"

text \<open>The registers the structures hold: free, mapped, or waiting in a history to be freed.\<close>

definition held :: "nat \<Rightarrow> Rename \<Rightarrow> PhysRegId multiset" where
  "held n s = free_regs (freeList s) + (\<Sum>t<n. mapped (renameMap s t) + prevs (historyBuffer s t))"

definition rename_ok :: "nat \<Rightarrow> Rename \<Rightarrow> bool" where
  "rename_ok n s \<longleftrightarrow> typed_free (freeList s) \<and> (\<forall>t<n. thread_ok (renameMap s t) (historyBuffer s t))"

text \<open>Changing one thread and the free list.\<close>

lemma held_upd:
  assumes "t < n" and "free_regs F + mapped M + prevs es = free_regs (freeList s) + mapped (renameMap s t) + prevs (historyBuffer s t)"
    and "renameMap s' = (renameMap s)(t := M)" and "historyBuffer s' = (historyBuffer s)(t := es)" and "freeList s' = F"
  shows "held n s' = held n s"
proof -
  let ?f = "\<lambda>s u. mapped (renameMap s u) + prevs (historyBuffer s u)"
  have rest: "(\<Sum>u\<in>{..<n} - {t}. ?f s' u) = (\<Sum>u\<in>{..<n} - {t}. ?f s u)" by (rule sum.cong) (auto simp: assms)
  have "held n s' = free_regs F + (mapped M + prevs es) + (\<Sum>u\<in>{..<n} - {t}. ?f s' u)"
    using assms(1) by (simp add: held_def sum.remove [of "{..<n}" t] assms(3-5))
  also have "\<dots> = held n s" unfolding rest
    using assms(1,2) by (simp add: held_def sum.remove [of "{..<n}" t] add.assoc [symmetric])
  finally show ?thesis .
qed

lemma rename_ok_upd:
  "rename_ok n s \<Longrightarrow> typed_free F \<Longrightarrow> thread_ok M es \<Longrightarrow> renameMap s' = (renameMap s)(t := M) \<Longrightarrow>
    historyBuffer s' = (historyBuffer s)(t := es) \<Longrightarrow> freeList s' = F \<Longrightarrow> rename_ok n s'"
  by (simp add: rename_ok_def)

lemma held_parts:
  assumes "t < n"
  shows "free_regs (freeList s) + (mapped (renameMap s t) + prevs (historyBuffer s t)) \<subseteq># held n s"
  using assms by (simp add: held_def sum.remove [of "{..<n}" t] add.assoc [symmetric])

lemma count_subset_le: "A \<subseteq># B \<Longrightarrow> \<forall>x. count B x \<le> Suc 0 \<Longrightarrow> count A x \<le> Suc 0"
  by (meson mset_subset_eq_count order.trans)

text \<open>The three operations, on a well-formed state.\<close>

lemma rename_dest_ok:
  assumes t: "t < n" and ok: "rename_ok n s" and d: "\<forall>x. count (held n s) x \<le> Suc 0"
    and r: "rename_dest isa flatten t p k (h, s, sb, pr) = Some (h', s', sb', pr')"
  shows "rename_ok n s' \<and> held n s' = held n s \<and>
    (\<exists>e. renameMap s' = (renameMap s)(t := renameMap s' t) \<and> undo e (renameMap s' t) = renameMap s t \<and>
         historyBuffer s' = (historyBuffer s)(t := e # historyBuffer s t) \<and> instSeqNum e = seqNum (h p) \<and>
         archReg e = flatten (sDestRegIdx (staticInst (h p)) k) \<and> destRegIdx (h' p) k = newPhysReg e)"
proof -
  let ?r = "flatten (sDestRegIdx (staticInst (h p)) k)"
  obtain new prev M F where m: "rm_rename isa ?r (renameMap s t, freeList s) = Some ((new, prev), M, F)"
    and s': "s' = s\<lparr>renameMap := (renameMap s)(t := M), freeList := F, historyBuffer := (historyBuffer s)(t :=
        \<lparr>instSeqNum = seqNum (h p), archReg = ?r, newPhysReg = new, prevPhysReg = prev\<rparr> # historyBuffer s t)\<rparr>"
    and h': "destRegIdx (h' p) k = new"
    using r by (auto simp: rename_dest_def Let_def bind_eq_Some_conv upd_inst_def renameDestReg_def flattenDestReg_def)
  define e where "e = \<lparr>instSeqNum = seqNum (h p), archReg = ?r, newPhysReg = new, prevPhysReg = prev\<rparr>"
  have "\<forall>x. count (free_regs (freeList s) + mapped (renameMap s t)) x \<le> 1"
    using count_subset_le [OF held_parts [OF t] d] by (simp add: add_leD1 le_add1 add.assoc [symmetric]) (meson add_leD1)
  from rm_rename_ok [OF m _ _ e_def this, of "historyBuffer s t"]
  have o: "thread_ok M (e # historyBuffer s t)" "typed_free F" "undo e M = renameMap s t"
    "free_regs F + mapped M + prevs (e # historyBuffer s t) = free_regs (freeList s) + mapped (renameMap s t) + prevs (historyBuffer s t)"
    using ok t by (simp_all add: rename_ok_def)
  have "rename_ok n s'" by (rule rename_ok_upd [OF ok o(2,1)]) (simp_all add: s' e_def)
  moreover have "held n s' = held n s" by (rule held_upd [OF t o(4)]) (simp_all add: s' e_def)
  ultimately show ?thesis using o(3) h' by (intro conjI exI [of _ e]) (simp_all add: s' e_def)
qed

lemma rename_doSquash_ok:
  assumes t: "t < n" and ok: "rename_ok n s"
  defines "hb \<equiv> historyBuffer s t"
  shows "\<exists>s'. rename_doSquash isa sn t s = Some s' \<and> rename_ok n s' \<and> held n s' = held n s \<and>
    renameMap s' = (renameMap s)(t := unwind (takeWhile (\<lambda>e. instSeqNum e > sn) hb) (renameMap s t)) \<and>
    historyBuffer s' = (historyBuffer s)(t := dropWhile (\<lambda>e. instSeqNum e > sn) hb)"
proof -
  obtain F tt where l: "rename_squash_loop isa sn hb (renameMap s t, freeList s, taintedRegs s) =
      Some (dropWhile (\<lambda>e. instSeqNum e > sn) hb, unwind (takeWhile (\<lambda>e. instSeqNum e > sn) hb) (renameMap s t), F, tt)"
    and o: "thread_ok (unwind (takeWhile (\<lambda>e. instSeqNum e > sn) hb) (renameMap s t)) (dropWhile (\<lambda>e. instSeqNum e > sn) hb)" "typed_free F"
    and f: "free_regs F + mapped (unwind (takeWhile (\<lambda>e. instSeqNum e > sn) hb) (renameMap s t)) + prevs (dropWhile (\<lambda>e. instSeqNum e > sn) hb) =
      free_regs (freeList s) + mapped (renameMap s t) + prevs hb"
    using squash_loop_ok [of "renameMap s t" hb "freeList s" isa sn "taintedRegs s"] ok t by (auto simp: rename_ok_def hb_def)
  let ?s = "s\<lparr>renameMap := (renameMap s)(t := unwind (takeWhile (\<lambda>e. instSeqNum e > sn) hb) (renameMap s t)), freeList := F,
    taintedRegs := tt, historyBuffer := (historyBuffer s)(t := dropWhile (\<lambda>e. instSeqNum e > sn) hb)\<rparr>"
  have "rename_doSquash isa sn t s = Some ?s" using l by (simp add: rename_doSquash_def hb_def)
  moreover have "rename_ok n ?s" by (rule rename_ok_upd [OF ok o(2,1)]) simp_all
  moreover have "held n ?s = held n s" by (rule held_upd [OF t f [unfolded hb_def]]) (simp_all add: hb_def)
  ultimately show ?thesis by auto
qed

lemma dropWhile_rev: "\<exists>fs. es = rev (dropWhile P (rev es)) @ fs \<and> rev fs = takeWhile P (rev es)"
  by (rule exI [of _ "rev (takeWhile P (rev es))"]) (simp flip: rev_append)

lemma removeFromHistory_ok:
  assumes t: "t < n" and ok: "rename_ok n s"
  defines "hb \<equiv> historyBuffer s t"
  shows "\<exists>s'. removeFromHistory sn t s = Some s' \<and> rename_ok n s' \<and> held n s' = held n s \<and> renameMap s' = renameMap s \<and>
    historyBuffer s' = (historyBuffer s)(t := rev (dropWhile (\<lambda>e. instSeqNum e \<le> sn) (rev hb)))"
proof -
  let ?D = "dropWhile (\<lambda>e. instSeqNum e \<le> sn) (rev hb)"
  have th: "thread_ok (renameMap s t) hb" using ok t by (simp add: rename_ok_def hb_def)
  then obtain F tt where l: "remove_loop sn (rev hb) (freeList s, taintedRegs s) = Some (?D, F, tt)" and F: "typed_free F"
    and f: "free_regs F + prevs ?D = free_regs (freeList s) + prevs hb"
    using remove_loop_ok [of "rev hb" "freeList s" sn "taintedRegs s"] hist_ok_prevs ok by (auto simp: rename_ok_def thread_ok_def)
  let ?s = "s\<lparr>historyBuffer := (historyBuffer s)(t := rev ?D), freeList := F, taintedRegs := tt\<rparr>"
  have "thread_ok (renameMap s t) (rev ?D)"
    using th dropWhile_rev [of hb "\<lambda>e. instSeqNum e \<le> sn"] by (metis thread_ok_def hist_ok_append)
  then have "rename_ok n ?s" by (rule rename_ok_upd [OF ok F, where t = t]) simp_all
  moreover have "held n ?s = held n s"
    by (rule held_upd [OF t, where M = "renameMap s t" and es = "rev ?D" and F = F]) (use f in \<open>simp_all add: hb_def ac_simps\<close>)
  moreover have "removeFromHistory sn t s = Some ?s" using l by (simp add: removeFromHistory_def hb_def)
  ultimately show ?thesis by auto
qed

lemma rename_step_ok:
  assumes "rename_step isa n s s'" and "rename_ok n s" and "\<forall>x. count (held n s) x \<le> Suc 0"
  shows "rename_ok n s' \<and> held n s' = held n s"
  using assms
proof (cases rule: rename_step.cases)
  case (dest tid flatten p k h sb pr h' sb' pr')
  then show ?thesis using rename_dest_ok [OF dest(1) assms(2,3) dest(2)] by simp
next
  case (squash tid sn)
  then show ?thesis using rename_doSquash_ok [OF squash(1) assms(2), of isa sn] by auto
next
  case (commit tid sn)
  then show ?thesis using removeFromHistory_ok [OF commit(1) assms(2), of sn] by auto
qed

lemma rename_reachable_ok:
  assumes "rename_reachable isa n s0 s" and "rename_ok n s0" and "\<forall>x. count (held n s0) x \<le> Suc 0"
  shows "rename_ok n s \<and> held n s = held n s0"
  using assms(1) by induction (use assms(2,3) rename_step_ok in \<open>metis+\<close>)

text \<open>
  Any number of renames of one thread: the history grows by entries of the renamed
  instructions, and undoing those entries gives the old map.
\<close>

definition renamed_from :: "nat \<Rightarrow> ThreadID \<Rightarrow> InstSeqNum set \<Rightarrow> rename_state \<Rightarrow> rename_state \<Rightarrow> bool" where
  "renamed_from n t sns st st' \<longleftrightarrow> (case (st, st') of ((h, s, _), (h', s', _)) \<Rightarrow>
     rename_ok n s' \<and> held n s' = held n s \<and> (\<forall>q. seqNum (h' q) = seqNum (h q)) \<and>
     (\<exists>es. historyBuffer s' = (historyBuffer s)(t := es @ historyBuffer s t) \<and> instSeqNum ` set es \<subseteq> sns \<and>
           renameMap s' = (renameMap s)(t := renameMap s' t) \<and> unwind es (renameMap s' t) = renameMap s t))"

lemma renamed_from_dest:
  assumes t: "t < n" and d: "\<forall>x. count (held n (fst (snd st))) x \<le> Suc 0" and p: "seqNum (fst st p) \<in> sns"
    and r: "rename_dest isa flatten t p k st1 = Some st2" and o: "renamed_from n t sns st st1"
  shows "renamed_from n t sns st st2"
proof -
  obtain h s sb pr h1 s1 sb1 pr1 h2 s2 sb2 pr2 where st: "st = (h, s, sb, pr)" "st1 = (h1, s1, sb1, pr1)" "st2 = (h2, s2, sb2, pr2)"
    by (metis prod_cases4)
  obtain es where es: "rename_ok n s1" "held n s1 = held n s" "\<forall>q. seqNum (h1 q) = seqNum (h q)"
      "historyBuffer s1 = (historyBuffer s)(t := es @ historyBuffer s t)" "instSeqNum ` set es \<subseteq> sns"
      "renameMap s1 = (renameMap s)(t := renameMap s1 t)" "unwind es (renameMap s1 t) = renameMap s t"
    using o by (auto simp: renamed_from_def st)
  have d1: "\<forall>x. count (held n s1) x \<le> Suc 0" using d es(2) by (simp add: st)
  obtain e where e: "rename_ok n s2" "held n s2 = held n s1" "renameMap s2 = (renameMap s1)(t := renameMap s2 t)"
      "undo e (renameMap s2 t) = renameMap s1 t" "historyBuffer s2 = (historyBuffer s1)(t := e # historyBuffer s1 t)"
      "instSeqNum e = seqNum (h1 p)"
    using rename_dest_ok [OF t es(1) d1 r [unfolded st]] by auto
  have q: "seqNum (h2 q) = seqNum (h1 q)" for q
    using r by (auto simp: st rename_dest_def bind_eq_Some_conv upd_inst_def renameDestReg_def flattenDestReg_def Let_def)
  have "historyBuffer s2 = (historyBuffer s)(t := (e # es) @ historyBuffer s t)" using e(5) es(4) by simp
  moreover have "renameMap s2 = (renameMap s)(t := renameMap s2 t)" using e(3) es(6) by (metis fun_upd_upd)
  moreover have "unwind (e # es) (renameMap s2 t) = renameMap s t" using e(4) es(7) by simp
  moreover have "instSeqNum ` set (e # es) \<subseteq> sns" using es(3,5) e(6) p by (simp add: st)
  ultimately have "\<exists>es. historyBuffer s2 = (historyBuffer s)(t := es @ historyBuffer s t) \<and> instSeqNum ` set es \<subseteq> sns \<and>
     renameMap s2 = (renameMap s)(t := renameMap s2 t) \<and> unwind es (renameMap s2 t) = renameMap s t" by blast
  then show ?thesis using e(1,2) es(2,3) q by (simp add: renamed_from_def st)
qed

lemma renamed_from_insts:
  assumes t: "t < n" and ok: "rename_ok n s" and d: "\<forall>x. count (held n s) x \<le> Suc 0" and p: "\<forall>p\<in>set ps. seqNum (h p) \<in> sns"
    and r: "foldM (renameDestRegs isa flatten t) ps (h, s, sb, pr) = Some st'"
  shows "renamed_from n t sns (h, s, sb, pr) st'"
proof (rule foldM_invariant [OF r])
  show "renamed_from n t sns (h, s, sb, pr) (h, s, sb, pr)" using ok by (auto simp: renamed_from_def intro: exI [of _ "[]"])
next
  fix q st1 st2
  assume q: "q \<in> set ps" "renameDestRegs isa flatten t q st1 = Some st2" and I: "renamed_from n t sns (h, s, sb, pr) st1"
  show "renamed_from n t sns (h, s, sb, pr) st2"
    by (rule foldM_invariant [where P = "renamed_from n t sns (h, s, sb, pr)", OF q(2) [unfolded renameDestRegs_def] I],
        rule renamed_from_dest [OF t]) (use d p q in auto)
qed

lemma sum_mset_mono: "finite T \<Longrightarrow> (\<And>t. t \<in> T \<Longrightarrow> f t \<subseteq># g t) \<Longrightarrow> (\<Sum>t\<in>T. f t) \<subseteq># (\<Sum>t\<in>T. g t)"
  by (induction T rule: finite_induct) (auto intro: subset_mset.add_mono)

section \<open>The initial binding\<close>

definition set_table :: "RegClass \<Rightarrow> PhysRegId list \<Rightarrow> UnifiedRenameMap \<Rightarrow> UnifiedRenameMap" where
  "set_table c xs M = M\<lparr>rmaps := (rmaps M)(c := (rmaps M c)\<lparr>rmap := xs\<rparr>)\<rparr>"

lemma set_table_simps [simp]:
  "vecMode (set_table c xs M) = vecMode M" "rmaps (set_table c xs M) c' = (if c' = c then (rmaps M c)\<lparr>rmap := xs\<rparr> else rmaps M c')"
  by (simp_all add: set_table_def)

lemma drop_eq_ConsD: "drop k xs = y # ys \<Longrightarrow> k < length xs \<and> xs ! k = y \<and> ys = drop (Suc k) xs"
  by (metis drop_eq_Nil2 hd_drop_conv_nth leI list.distinct(1) list.sel(1,3) drop_Suc tl_drop)

lemma rm_setEntry_table:
  assumes c: "c \<in> set full_classes" and "vecMode M = Full" and s: "rm_setEntry isa (reg_id c k) p M = Some M'"
  shows "M' = set_table c ((rmap (rmaps M c))[k := p]) M"
proof -
  have "c \<noteq> MiscRegClass" "c \<noteq> VecElemClass" using c by (auto simp: full_classes_def)
  then show ?thesis using s
    by (auto simp: rm_setEntry_def simple_setEntry_def reg_id_def flatIndex_plain set_table_def bind_eq_Some_conv split: if_splits)
qed

text \<open>Binding the first \<open>k\<close> registers of a class takes the first \<open>k\<close> free ones, in order.\<close>

lemma bind_class:
  assumes c: "c \<in> set full_classes" and m: "vecMode (renameMap s t) = Full" and k: "k \<le> length (rmap (rmaps (renameMap s t) c))"
    and b: "foldM (\<lambda>i. bind_reg isa t c (reg_id c i)) [0..<k] s = Some s'"
  shows "k \<le> length (freeList s c) \<and> freeList s' = (freeList s)(c := drop k (freeList s c)) \<and> historyBuffer s' = historyBuffer s \<and>
    renameMap s' = (renameMap s)(t := set_table c (take k (freeList s c) @ drop k (rmap (rmaps (renameMap s t) c))) (renameMap s t))"
  using k b
proof (induction k arbitrary: s')
  case 0
  then show ?case by (simp add: set_table_def)
next
  case (Suc k)
  let ?F = "freeList s c" and ?R = "rmap (rmaps (renameMap s t) c)"
  obtain u where u: "foldM (\<lambda>i. bind_reg isa t c (reg_id c i)) [0..<k] s = Some u" "bind_reg isa t c (reg_id c k) u = Some s'"
    using Suc.prems(2) by (auto simp: foldM_append bind_eq_Some_conv)
  note IH = Suc.IH [OF _ u(1)]
  obtain p F M where p: "simple_getReg c (freeList u) = Some (p, F)" "rm_setEntry isa (reg_id c k) p (renameMap u t) = Some M"
      "freeList s' = F" "renameMap s' = (renameMap u)(t := M)" "historyBuffer s' = historyBuffer u"
    using u(2) by (auto simp: bind_reg_def bind_eq_Some_conv)
  have F: "freeList u c = p # F c" "F = (freeList u)(c := F c)" using p(1) by (auto simp: simple_getReg_def split: list.splits)
  have l: "k < length ?F" "?F ! k = p" "F c = drop (Suc k) ?F"
    using drop_eq_ConsD [of k ?F p "F c"] IH F(1) Suc.prems(1) by simp_all
  have "M = set_table c ((take k ?F @ drop k ?R)[k := p]) (renameMap s t)"
    using rm_setEntry_table [OF c _ p(2)] IH Suc.prems(1) m by (simp add: set_table_def)
  moreover have "(take k ?F @ drop k ?R)[k := p] = take (Suc k) ?F @ drop (Suc k) ?R"
    using l(1,2) Suc.prems(1) by (simp add: list_update_append take_Suc_conv_app_nth Cons_nth_drop_Suc [symmetric])
  ultimately show ?case using IH p l F Suc.prems(1) by (auto simp: Suc_le_eq)
qed

lemma free_mapped_split:
  assumes "\<forall>c\<in>set full_classes. F' c = drop (k c) (F c) \<and> rmap (rmaps M c) = take (k c) (F c)"
  shows "free_regs F' + mapped M = free_regs F"
proof -
  have "mset (F' c) + mset (rmap (rmaps M c)) = mset (F c)" if "c \<in> set full_classes" for c
    using assms that by (metis append_take_drop_id mset_append union_commute)
  then show ?thesis by (simp add: free_regs_def mapped_def sum_list_addf [symmetric] cong: map_cong)
qed

text \<open>A whole class, and a whole thread.\<close>

lemma bind_whole_class:
  assumes "c \<in> set full_classes" and "vecMode (renameMap s t) = Full" and "k = length (rmap (rmaps (renameMap s t) c))"
    and "foldM (\<lambda>i. bind_reg isa t c (reg_id c i)) [0..<k] s = Some s'"
  shows "freeList s' = (freeList s)(c := drop k (freeList s c)) \<and> historyBuffer s' = historyBuffer s \<and>
    renameMap s' = (renameMap s)(t := set_table c (take k (freeList s c)) (renameMap s t))"
  using bind_class [OF assms(1,2) _ assms(4)] assms(3) by simp

definition sized :: "isa_regs \<Rightarrow> UnifiedRenameMap \<Rightarrow> bool" where
  "sized A M \<longleftrightarrow> vecMode M = Full \<and> length (rmap (rmaps M IntRegClass)) = NumIntRegs A \<and>
     length (rmap (rmaps M FloatRegClass)) = NumFloatRegs A \<and> length (rmap (rmaps M VecRegClass)) = NumVecRegs A \<and>
     length (rmap (rmaps M CCRegClass)) = NumCCRegs A"

lemma bind_thread_ok:
  assumes sz: "sized A (renameMap s t)" and b: "bind_thread isa A Full t s = Some s'" and F: "typed_free (freeList s)"
  shows "historyBuffer s' = historyBuffer s \<and> typed_free (freeList s') \<and> thread_ok (renameMap s' t) [] \<and>
    renameMap s' = (renameMap s)(t := renameMap s' t) \<and> free_regs (freeList s') + mapped (renameMap s' t) = free_regs (freeList s)"
proof -
  let ?B = "\<lambda>c i. bind_reg isa t c (reg_id c i)"
  obtain s1 s2 s3 where b1: "foldM (?B IntRegClass) [0..<NumIntRegs A] s = Some s1"
    and b2: "foldM (?B FloatRegClass) [0..<NumFloatRegs A] s1 = Some s2"
    and b3: "foldM (?B VecRegClass) [0..<NumVecRegs A] s2 = Some s3"
    and b4: "foldM (?B CCRegClass) [0..<NumCCRegs A] s3 = Some s'"
    using b by (auto simp: bind_thread_def bind_eq_Some_conv)
  note z = sz [unfolded sized_def]
  have c1: "freeList s1 = (freeList s)(IntRegClass := drop (NumIntRegs A) (freeList s IntRegClass)) \<and> historyBuffer s1 = historyBuffer s \<and>
      renameMap s1 = (renameMap s)(t := set_table IntRegClass (take (NumIntRegs A) (freeList s IntRegClass)) (renameMap s t))"
    by (rule bind_whole_class [OF _ _ _ b1]) (use z in \<open>simp_all add: full_classes_def\<close>)
  have c2: "freeList s2 = (freeList s1)(FloatRegClass := drop (NumFloatRegs A) (freeList s1 FloatRegClass)) \<and> historyBuffer s2 = historyBuffer s1 \<and>
      renameMap s2 = (renameMap s1)(t := set_table FloatRegClass (take (NumFloatRegs A) (freeList s1 FloatRegClass)) (renameMap s1 t))"
    by (rule bind_whole_class [OF _ _ _ b2]) (use z c1 in \<open>simp_all add: full_classes_def\<close>)
  have c3: "freeList s3 = (freeList s2)(VecRegClass := drop (NumVecRegs A) (freeList s2 VecRegClass)) \<and> historyBuffer s3 = historyBuffer s2 \<and>
      renameMap s3 = (renameMap s2)(t := set_table VecRegClass (take (NumVecRegs A) (freeList s2 VecRegClass)) (renameMap s2 t))"
    by (rule bind_whole_class [OF _ _ _ b3]) (use z c1 c2 in \<open>simp_all add: full_classes_def\<close>)
  have c4: "freeList s' = (freeList s3)(CCRegClass := drop (NumCCRegs A) (freeList s3 CCRegClass)) \<and> historyBuffer s' = historyBuffer s3 \<and>
      renameMap s' = (renameMap s3)(t := set_table CCRegClass (take (NumCCRegs A) (freeList s3 CCRegClass)) (renameMap s3 t))"
    by (rule bind_whole_class [OF _ _ _ b4]) (use z c1 c2 c3 in \<open>simp_all add: full_classes_def\<close>)
  note c = c1 c2 c3 c4
  have "typed_map (renameMap s' t)" "typed_free (freeList s')"
    using c F by (auto simp: typed_map_def typed_free_def full_classes_def dest: in_set_takeD in_set_dropD)
  moreover have "free_regs (freeList s') + mapped (renameMap s' t) = free_regs (freeList s)"
    by (rule free_mapped_split [where k = "\<lambda>c. case c of IntRegClass \<Rightarrow> NumIntRegs A | FloatRegClass \<Rightarrow> NumFloatRegs A |
          VecRegClass \<Rightarrow> NumVecRegs A | _ \<Rightarrow> NumCCRegs A"]) (use c in \<open>simp add: full_classes_def\<close>)
  ultimately show ?thesis using c z by (simp add: thread_ok_def)
qed

lemma simple_addRegs_fst: "fst (simple_addRegs c rs s) = (fst s)(c := fst s c @ rs)"
  by (induction rs arbitrary: s) (auto simp: simple_addRegs_def simple_addReg_def split: prod.splits)

lemma addRegs_class:
  assumes "\<forall>r\<in>set rs. regClass r = c" and "addRegs rs s = Some s'"
  shows "fst s' = (fst s)(c := fst s c @ rs)"
  using assms by (cases "rs = []") (auto simp: addRegs_def simple_addRegs_fst)

lemma PhysRegFile_class: "r \<in> set (regIds (PhysRegFile_new isa A ni nf nv nc v) c) \<Longrightarrow> regClass r = c"
  by (cases c) (auto simp: PhysRegFile_new_def Let_def phys_reg_def)

lemma PhysRegFile_distinct: "distinct (regIds (PhysRegFile_new isa A ni nf nv nc v) c)" if "c \<in> set full_classes"
  using that by (auto simp: full_classes_def PhysRegFile_new_def Let_def phys_reg_def distinct_map inj_on_def)

lemma initFreeList_full:
  assumes R: "R = PhysRegFile_new isa A ni nf nv nc Full" and i: "initFreeList isa R ((\<lambda>_. []), {}) = Some (F, t)"
    and c: "c \<in> set full_classes"
  shows "F c = regIds R c"
proof -
  have v: "rf_vecMode R = Full" by (simp add: R PhysRegFile_new_def Let_def)
  obtain s1 s2 s3 where s: "addRegs (regIds R IntRegClass) ((\<lambda>_. []), {}) = Some s1" "addRegs (regIds R FloatRegClass) s1 = Some s2"
      "addRegs (regIds R VecRegClass) s2 = Some s3" "addRegs (regIds R CCRegClass) s3 = Some (F, t)"
    using i v by (auto simp: initFreeList_def bind_eq_Some_conv)
  have cls: "\<forall>r\<in>set (regIds R c). regClass r = c" for c using PhysRegFile_class by (auto simp: R)
  show ?thesis using addRegs_class [OF cls s(1)] addRegs_class [OF cls s(2)] addRegs_class [OF cls s(3)] addRegs_class [OF cls s(4)] c
    by (auto simp: full_classes_def)
qed

lemma bind_threads_ok:
  assumes "sized A M" and "foldM (bind_thread isa A Full) [0..<k] s = Some s'" and "renameMap s = (\<lambda>_. M)"
    and "historyBuffer s = (\<lambda>_. [])" and "typed_free (freeList s)"
  shows "historyBuffer s' = (\<lambda>_. []) \<and> (\<forall>t\<ge>k. renameMap s' t = M) \<and> rename_ok k s' \<and> held k s' = free_regs (freeList s)"
  using assms(2)
proof (induction k arbitrary: s')
  case 0
  then show ?case using assms by (simp add: held_def rename_ok_def)
next
  case (Suc k)
  obtain u where u: "foldM (bind_thread isa A Full) [0..<k] s = Some u" "bind_thread isa A Full k u = Some s'"
    using Suc.prems by (auto simp: foldM_append bind_eq_Some_conv)
  note IH = Suc.IH [OF u(1)]
  have sz: "sized A (renameMap u k)" using IH assms(1) by simp
  have b: "historyBuffer s' = historyBuffer u" "typed_free (freeList s')" "thread_ok (renameMap s' k) []"
      "renameMap s' = (renameMap u)(k := renameMap s' k)" "free_regs (freeList s') + mapped (renameMap s' k) = free_regs (freeList u)"
    using bind_thread_ok [OF sz u(2)] IH by (simp_all add: rename_ok_def)
  have old: "renameMap s' t = renameMap u t" if "t \<noteq> k" for t using b(4) that by (metis fun_upd_other)
  have "held (Suc k) s' = free_regs (freeList s') + mapped (renameMap s' k) + (\<Sum>t<k. mapped (renameMap u t) + prevs (historyBuffer u t))"
    using IH b(1) old by (simp add: held_def ac_simps)
  then have "held (Suc k) s' = held k u" using b(5) by (simp add: held_def)
  moreover have "rename_ok (Suc k) s'" using IH b(1-3) old by (auto simp: rename_ok_def less_Suc_eq)
  ultimately show ?case using IH b(1) old by simp
qed

text \<open>The registers of the file: the core starts with each of them held exactly once.\<close>

definition all_regs :: "PhysRegFile \<Rightarrow> PhysRegId multiset" where
  "all_regs R = free_regs (regIds R)"

lemma all_regs_once: "count (all_regs (PhysRegFile_new isa A ni nf nv nc v)) x \<le> Suc 0"
proof -
  let ?R = "PhysRegFile_new isa A ni nf nv nc v"
  have "count (mset (regIds ?R c)) x \<le> (if c = regClass x then 1 else 0)" if "c \<in> set full_classes" for c
    using PhysRegFile_distinct [OF that] PhysRegFile_class [of x isa A ni nf nv nc v c] by (auto simp: distinct_count_atmost_1)
  then have "(\<Sum>c\<leftarrow>full_classes. count (mset (regIds ?R c)) x) \<le> (\<Sum>c\<leftarrow>full_classes. if c = regClass x then 1 else 0)"
    by (rule sum_list_mono)
  also have "\<dots> \<le> Suc 0" by (cases "regClass x") (simp_all add: full_classes_def)
  finally show ?thesis by (simp add: all_regs_def free_regs_def full_classes_def)
qed

lemma core_rename_init_ok:
  assumes R: "R = PhysRegFile_new isa A ni nf nv nc Full" and i: "core_rename_init isa A R n = Some s"
  shows "rename_ok n s \<and> held n s = all_regs R \<and> historyBuffer s = (\<lambda>_. [])"
proof -
  have v: "rf_vecMode R = Full" by (simp add: R PhysRegFile_new_def Let_def)
  define z where "z = (if isAlpha isa then ZeroReg isa else NumFloatRegs A + 1)"
  define M where "M = rm_init isa A R (ZeroReg isa) z Full"
  obtain F t where F: "initFreeList isa R ((\<lambda>_. []), {}) = Some (F, t)"
    and b: "foldM (bind_thread isa A Full) [0..<n] \<lparr>renameMap = (\<lambda>_. M), commitRenameMap = (\<lambda>_. M), historyBuffer = (\<lambda>_. []),
      freeList = F, taintedRegs = t\<rparr> = Some s"
    using i by (auto simp: core_rename_init_def bind_eq_Some_conv v Let_def M_def z_def)
  have sz: "sized A M" by (simp add: M_def sized_def rm_init_def simple_init_def)
  have FR: "\<forall>c\<in>set full_classes. F c = regIds R c" using initFreeList_full [OF R F] by blast
  then have "typed_free F" using PhysRegFile_class by (simp add: typed_free_def R)
  moreover have "free_regs F = all_regs R" using FR by (simp add: all_regs_def free_regs_def full_classes_def)
  ultimately show ?thesis using bind_threads_ok [OF sz b] by simp
qed

lemma core_reachable_ok:
  assumes "R = PhysRegFile_new isa A ni nf nv nc Full" and "core_rename_init isa A R n = Some s0" and "rename_reachable isa n s0 s"
  shows "rename_ok n s \<and> held n s = all_regs R \<and> (\<forall>x. count (held n s) x \<le> Suc 0)"
  using core_rename_init_ok [OF assms(1,2)] rename_reachable_ok [OF assms(3)] all_regs_once assms(1) by simp

section \<open>A small core\<close>

text \<open>One integer register, three physical ones, and one renamed instruction.\<close>

definition tiny_regs :: isa_regs where
  "tiny_regs = \<lparr>NumIntRegs = 1, NumFloatRegs = 0, NumVecRegs = 0, NumCCRegs = 0, NumMiscRegs = 0\<rparr>"

definition tiny_file :: PhysRegFile where
  "tiny_file = PhysRegFile_new sample_isa tiny_regs 3 0 0 0 Full"

definition int_reg :: "nat \<Rightarrow> PhysRegId" where
  "int_reg k = phys_reg IntRegClass k k"

definition tiny_map :: "PhysRegId \<Rightarrow> UnifiedRenameMap" where
  "tiny_map r = set_table IntRegClass [r] (rm_init sample_isa tiny_regs tiny_file 31 31 Full)"

definition tiny_entry :: RenameHistory where
  "tiny_entry = \<lparr>instSeqNum = 5, archReg = reg_id IntRegClass 0, newPhysReg = int_reg 1, prevPhysReg = int_reg 0\<rparr>"

definition tiny_state :: "nat \<Rightarrow> RenameHistory list \<Rightarrow> PhysRegId list \<Rightarrow> Rename" where
  "tiny_state k hist free =
     \<lparr>renameMap = (\<lambda>_. rm_init sample_isa tiny_regs tiny_file 31 31 Full)(0 := tiny_map (int_reg k)),
      commitRenameMap = (\<lambda>_. rm_init sample_isa tiny_regs tiny_file 31 31 Full)(0 := tiny_map (int_reg 0)),
      historyBuffer = (\<lambda>_. [])(0 := hist), freeList = (\<lambda>_. [])(IntRegClass := free), taintedRegs = {}\<rparr>"

lemma tiny_ranges: "[0..<3 :: nat] = [0, 1, 2]" "[0..<Suc (Suc (Suc 0))] = [0, 1, 2]" "[0..<1 :: nat] = [0]" "[0..<Suc 0] = [0]"
  by (simp_all add: upt_rec)

lemma tiny_file_simps:
  "regIds tiny_file c = (if c = IntRegClass then [int_reg 0, int_reg 1, int_reg 2] else [])" "rf_vecMode tiny_file = Full"
  by (cases c; simp add: tiny_file_def PhysRegFile_new_def tiny_regs_def Let_def int_reg_def tiny_ranges)+

lemmas tiny_defs = tiny_regs_def int_reg_def phys_reg_def tiny_ranges reg_id_def rm_init_def simple_init_def flatIndex_def sample_isa_def
  mode_ok_def tiny_state_def tiny_map_def set_table_def simple_getReg_def

lemma tiny_init: "core_rename_init sample_isa tiny_regs tiny_file 1 = Some (tiny_state 0 [] [int_reg 1, int_reg 2])"
  by (simp add: core_rename_init_def initFreeList_def tiny_file_simps addRegs_def simple_addRegs_def simple_addReg_def
     bind_thread_def bind_reg_def clearSecureSpec_def rm_setEntry_def simple_setEntry_def tiny_defs) (auto simp: fun_eq_iff simple_init_def reg_id_def split: RegClass.splits)

definition tiny_start :: rename_state where
  "tiny_start = ((\<lambda>_. sample_inst 5 {} {}), tiny_state 0 [] [int_reg 1, int_reg 2], Scoreboard_init 16, (\<lambda>_. None))"

definition tiny_renamed :: rename_state where
  "tiny_renamed = ((\<lambda>_. sample_inst 5 {} {})(0 := (sample_inst 5 {} {})\<lparr>flatDestRegIdx := (flatDestRegIdx (sample_inst 5 {} {}))(0 := reg_id IntRegClass 0),
       destRegIdx := (destRegIdx (sample_inst 5 {} {}))(0 := int_reg 1), prevDestRegIdx := (prevDestRegIdx (sample_inst 5 {} {}))(0 := int_reg 0)\<rparr>),
     tiny_state 1 [tiny_entry] [int_reg 2], \<lparr>regScoreBoard = (\<lambda>_. True)(1 := False), numPhysRegs = 16\<rparr>, (\<lambda>_. None)(1 := Some 0))"

lemma tiny_rename: "rename_dest sample_isa (\<lambda>_. reg_id IntRegClass 0) 0 0 0 tiny_start = Some tiny_renamed"
  by (simp add: tiny_start_def tiny_renamed_def rename_dest_def rm_rename_def simple_rename_def tiny_defs unsetReg_def Scoreboard_init_def
     isFixedMapping_def isRenameable_def isZeroReg_def tiny_entry_def upd_inst_def renameDestReg_def flattenDestReg_def Let_def fun_eq_iff)

lemma tiny_step: "rename_reachable sample_isa 1 (tiny_state 0 [] [int_reg 1, int_reg 2]) (tiny_state 1 [tiny_entry] [int_reg 2])"
  using rename_reachable.step [OF rename_reachable.start rename_step.dest [of 0 1]] tiny_rename
  by (simp add: tiny_start_def tiny_renamed_def)

section \<open>Properties\<close>

text \<open>
  C19. No interleaving of renames, squashes and commits of any number of threads loses a
  physical register or uses one twice: counting the free lists, the rename maps and the
  replaced registers that wait in the history buffers, the core holds exactly the registers
  of the file, each exactly once.
\<close>

theorem registers_conserved:
  assumes "R = PhysRegFile_new isa A ni nf nv nc Full" and "core_rename_init isa A R n = Some s0" and "rename_reachable isa n s0 s"
  shows "held n s = all_regs R \<and> (\<forall>r. count (held n s) r \<le> 1)"
  using core_reachable_ok [OF assms] by auto

theorem registers_conserved_witness:
  "held 1 (tiny_state 1 [tiny_entry] [int_reg 2]) = all_regs tiny_file \<and> int_reg 2 \<in># all_regs tiny_file"
  using registers_conserved [OF tiny_file_def tiny_init tiny_step]
  by (simp add: all_regs_def free_regs_def full_classes_def tiny_file_simps)

text \<open>
  C24. The destination registers of the renames in flight are pairwise different, over all
  threads, and none of them is free: two instructions in flight never write the same physical
  register, which the wakeup and the taint bits, both indexed by register, rely on.
\<close>

theorem inflight_registers_distinct:
  assumes "R = PhysRegFile_new isa A ni nf nv nc Full" and "core_rename_init isa A R n = Some s0" and "rename_reachable isa n s0 s"
  shows "count (free_regs (freeList s) + (\<Sum>t<n. news (historyBuffer s t))) r \<le> 1"
proof -
  have ok: "rename_ok n s" "\<forall>x. count (held n s) x \<le> Suc 0" using core_reachable_ok [OF assms] by auto
  have "(\<Sum>t<n. news (historyBuffer s t)) \<subseteq># (\<Sum>t<n. mapped (renameMap s t) + prevs (historyBuffer s t))"
    using ok(1) by (intro sum_mset_mono) (auto simp: rename_ok_def thread_ok_def intro: news_held)
  then have "free_regs (freeList s) + (\<Sum>t<n. news (historyBuffer s t)) \<subseteq># held n s" by (simp add: held_def)
  from count_subset_le [OF this ok(2), of r] show ?thesis by simp
qed

theorem inflight_registers_distinct_witness:
  "count (free_regs (freeList (tiny_state 1 [tiny_entry] [int_reg 2])) + (\<Sum>t<1. news (historyBuffer (tiny_state 1 [tiny_entry] [int_reg 2]) t))) (int_reg 1) \<le> 1 \<and>
     news (historyBuffer (tiny_state 1 [tiny_entry] [int_reg 2]) 0) = {#int_reg 1#}"
  using inflight_registers_distinct [OF tiny_file_def tiny_init tiny_step, of "int_reg 1"]
  by (simp add: tiny_state_def tiny_entry_def int_reg_def phys_reg_def)

text \<open>
  C20. Renaming and squashing round trip: after any instructions of a thread have been renamed,
  a squash back to before them succeeds and restores the rename maps and the history buffers
  exactly, and the free lists up to order.
\<close>

theorem squash_undoes_renames:
  assumes "R = PhysRegFile_new isa A ni nf nv nc Full" and "core_rename_init isa A R n = Some s0" and "rename_reachable isa n s0 s"
    and t: "tid < n" and r: "foldM (renameDestRegs isa flatten tid) ps (h, s, sb, pr) = Some (h', s', sb', pr')"
    and young: "\<forall>p\<in>set ps. sn < seqNum (h p)" and old: "\<forall>e\<in>set (historyBuffer s tid). instSeqNum e \<le> sn"
  shows "\<exists>s''. rename_doSquash isa sn tid s' = Some s'' \<and> renameMap s'' = renameMap s \<and> historyBuffer s'' = historyBuffer s \<and>
    free_regs (freeList s'') = free_regs (freeList s)"
proof -
  have ok: "rename_ok n s" "\<forall>x. count (held n s) x \<le> Suc 0" using core_reachable_ok [OF assms(1-3)] by auto
  obtain es where s': "rename_ok n s'" "held n s' = held n s" "historyBuffer s' = (historyBuffer s)(tid := es @ historyBuffer s tid)"
      "instSeqNum ` set es \<subseteq> {sn<..}" "renameMap s' = (renameMap s)(tid := renameMap s' tid)" "unwind es (renameMap s' tid) = renameMap s tid"
    using renamed_from_insts [OF t ok _ r, of "{sn<..}"] young by (auto simp: renamed_from_def)
  let ?P = "\<lambda>e. instSeqNum e > sn"
  have tw: "takeWhile ?P (es @ historyBuffer s tid) = es" "dropWhile ?P (es @ historyBuffer s tid) = historyBuffer s tid"
    using s'(4) old by (auto simp: takeWhile_append dropWhile_append takeWhile_eq_Nil_iff dropWhile_eq_self_iff not_less dest: hd_in_set)
  obtain s'' where s'': "rename_doSquash isa sn tid s' = Some s''" "held n s'' = held n s'"
      "renameMap s'' = (renameMap s')(tid := unwind es (renameMap s' tid))" "historyBuffer s'' = (historyBuffer s')(tid := historyBuffer s tid)"
    using rename_doSquash_ok [OF t s'(1), of isa sn] tw s'(3) by auto
  have m: "renameMap s'' = renameMap s" using s''(3) s'(5,6) by (metis fun_upd_triv fun_upd_upd)
  have hb: "historyBuffer s'' = historyBuffer s" using s''(4) s'(3) by simp
  have "free_regs (freeList s'') = free_regs (freeList s)" using s''(2) s'(2) by (simp add: held_def m hb)
  then show ?thesis using s''(1) m hb by blast
qed

theorem squash_undoes_renames_witness:
  "\<exists>s''. rename_doSquash sample_isa 4 0 (tiny_state 1 [tiny_entry] [int_reg 2]) = Some s'' \<and>
     renameMap s'' 0 = tiny_map (int_reg 0) \<and> free_regs (freeList s'') = {#int_reg 1, int_reg 2#}"
proof -
  have "foldM (renameDestRegs sample_isa (\<lambda>_. reg_id IntRegClass 0) 0) [0] tiny_start = Some tiny_renamed"
    using tiny_rename by (simp add: renameDestRegs_def tiny_start_def tiny_ranges)
  from squash_undoes_renames [OF tiny_file_def tiny_init rename_reachable.start _ this [unfolded tiny_start_def tiny_renamed_def], of 4]
  show ?thesis by (auto simp: tiny_state_def free_regs_def full_classes_def)
qed

definition architectural :: "Rename \<Rightarrow> ThreadID \<Rightarrow> UnifiedRenameMap" where
  "architectural s t = unwind (historyBuffer s t) (renameMap s t)"

lemma redo_unwind: "hist_ok M es \<Longrightarrow> fold redo (rev es) (unwind es M) = M"
  by (induction es arbitrary: M) (auto simp: redo_undo)

lemma architectural_commit:
  fixes sn :: InstSeqNum
  assumes ok: "hist_ok (renameMap s t) (historyBuffer s t)"
  defines "tail \<equiv> takeWhile (\<lambda>e. instSeqNum e \<le> sn) (rev (historyBuffer s t))"
  shows "unwind (rev (dropWhile (\<lambda>e. instSeqNum e \<le> sn) (rev (historyBuffer s t)))) (renameMap s t) = fold redo tail (architectural s t)"
proof -
  let ?keep = "rev (dropWhile (\<lambda>e. instSeqNum e \<le> sn) (rev (historyBuffer s t)))"
  have hb: "historyBuffer s t = ?keep @ rev tail" unfolding tail_def by (simp flip: rev_append)
  have "hist_ok (unwind ?keep (renameMap s t)) (rev tail)" using ok hb hist_ok_append by metis
  then have "fold redo tail (unwind (rev tail) (unwind ?keep (renameMap s t))) = unwind ?keep (renameMap s t)"
    using redo_unwind by fastforce
  moreover have "architectural s t = unwind (rev tail) (unwind ?keep (renameMap s t))"
    unfolding architectural_def by (subst hb) simp
  ultimately show ?thesis by simp
qed

text \<open>
  C21. Renaming refines an abstract architectural map, the one obtained by undoing the whole
  history of a thread. Renames and squashes, however they are mixed, do not change it for any
  thread; a commit up to a sequence number changes that thread's map by the committed
  renames, applied in program order.
\<close>

theorem rename_refines_architectural:
  assumes "R = PhysRegFile_new isa A ni nf nv nc Full" and "core_rename_init isa A R n = Some s0" and "rename_reachable isa n s0 s"
    and t: "tid < n"
  shows "(rename_dest isa flatten tid p k (h, s, sb, pr) = Some (h', s', sb', pr') \<longrightarrow> architectural s' = architectural s) \<and>
    (\<exists>s'. rename_doSquash isa sn tid s = Some s' \<and> architectural s' = architectural s) \<and>
    (\<exists>s'. removeFromHistory sn tid s = Some s' \<and> architectural s' = (architectural s)(tid :=
       fold redo (takeWhile (\<lambda>e. instSeqNum e \<le> sn) (rev (historyBuffer s tid))) (architectural s tid)))"
proof (intro conjI impI)
  have ok: "rename_ok n s" "\<forall>x. count (held n s) x \<le> Suc 0" using core_reachable_ok [OF assms(1-3)] by auto
  { assume "rename_dest isa flatten tid p k (h, s, sb, pr) = Some (h', s', sb', pr')"
    from rename_dest_ok [OF t ok this] obtain e where e: "renameMap s' = (renameMap s)(tid := renameMap s' tid)"
        "undo e (renameMap s' tid) = renameMap s tid" "historyBuffer s' = (historyBuffer s)(tid := e # historyBuffer s tid)" by auto
    have "renameMap s' u = renameMap s u" if "u \<noteq> tid" for u using e(1) that by (metis fun_upd_other)
    then show "architectural s' = architectural s" using e(2,3) by (auto simp: architectural_def fun_eq_iff) }
  let ?hb = "historyBuffer s tid" and ?P = "\<lambda>e. instSeqNum e > sn"
  have "unwind (dropWhile ?P ?hb) (unwind (takeWhile ?P ?hb) (renameMap s tid)) = unwind ?hb (renameMap s tid)"
    by (simp flip: unwind_simps(3))
  then show "\<exists>s'. rename_doSquash isa sn tid s = Some s' \<and> architectural s' = architectural s"
    using rename_doSquash_ok [OF t ok(1), of isa sn] by (auto simp: architectural_def fun_eq_iff)
  have "hist_ok (renameMap s tid) ?hb" using ok(1) t by (simp add: rename_ok_def thread_ok_def)
  from architectural_commit [OF this, of sn] removeFromHistory_ok [OF t ok(1), of sn]
  show "\<exists>s'. removeFromHistory sn tid s = Some s' \<and> architectural s' = (architectural s)(tid :=
       fold redo (takeWhile (\<lambda>e. instSeqNum e \<le> sn) (rev ?hb)) (architectural s tid))"
    by (fastforce simp: architectural_def fun_eq_iff)
qed

theorem rename_refines_architectural_witness:
  "architectural (fst (snd tiny_renamed)) 0 = tiny_map (int_reg 0) \<and>
     (\<exists>s'. removeFromHistory 5 0 (tiny_state 1 [tiny_entry] [int_reg 2]) = Some s' \<and> architectural s' 0 = tiny_map (int_reg 1))"
proof -
  note r = tiny_rename [unfolded tiny_start_def tiny_renamed_def]
  have "architectural (tiny_state 1 [tiny_entry] [int_reg 2]) = architectural (tiny_state 0 [] [int_reg 1, int_reg 2])"
    using rename_refines_architectural [OF tiny_file_def tiny_init rename_reachable.start zero_less_one, THEN conjunct1, rule_format, OF r] .
  then have a: "architectural (tiny_state 1 [tiny_entry] [int_reg 2]) 0 = tiny_map (int_reg 0)"
    by (simp add: architectural_def tiny_state_def)
  have "redo tiny_entry (tiny_map (int_reg 0)) = tiny_map (int_reg 1)"
    by (simp add: redo_def tiny_entry_def int_reg_def phys_reg_def tiny_map_def set_table_def reg_id_def Let_def)
  then show ?thesis
    using a rename_refines_architectural [OF tiny_file_def tiny_init tiny_step zero_less_one, THEN conjunct2, THEN conjunct2, of 5]
    by (auto simp: tiny_renamed_def tiny_state_def tiny_entry_def)
qed

end
