(* ===== verification/RenameStage.thy ===== *)
theory RenameStage
  imports Rename
begin

text \<open>
  The rename stage (\<open>cpu/o3/rename.hh\<close>, \<open>cpu/o3/rename_impl.hh\<close>): the queues between decode and
  rename, blocking and unblocking, serializing instructions, the credits of the back end, and
  the stage's cycle. A cycle reads the wires of the other stages, given as \<open>rename_in\<close>, and
  writes the wires to the execute stage and to decode, which are fields of the stage's state
  that every cycle clears first. Counters are integers: the source adds and subtracts 32-bit
  values that stay far below the width. Statistics and probes are left out.
\<close>

section \<open>State\<close>

datatype StageStatus = StageActive | StageInactive

datatype ThreadStatus = ThreadRunning | ThreadIdle | StartSquash | Squashing | Blocked | Unblocking | SerializeStall

record FreeEntries =
  iqEntries :: int
  robEntries :: int
  lqEntries :: int
  sqEntries :: int

record iewComm =
  freeIQEntries :: int
  freeLQEntries :: int
  freeSQEntries :: int
  dispatchedToLQ :: int
  dispatchedToSQ :: int
  iew_dispatched :: int
  usedIQ :: bool
  usedLSQ :: bool

record commitComm =
  usedROB :: bool
  freeROBEntries :: int
  commEmptyROB :: bool
  commitSquash :: bool
  doneSeqNum :: InstSeqNum

record rename_in =
  fromDecode :: "inst_ptr list"
  iewInfo :: "ThreadID \<Rightarrow> iewComm"
  iewBlock :: "ThreadID \<Rightarrow> bool"
  iewUnblock :: "ThreadID \<Rightarrow> bool"
  commitInfo :: "ThreadID \<Rightarrow> commitComm"

text \<open>The list \<open>toIEW\<close> holds the instructions sent this cycle; its length is \<open>toIEWIndex\<close>.\<close>

record RenameStage =
  rs_status :: StageStatus
  renameStatus :: "ThreadID \<Rightarrow> ThreadStatus"
  insts :: "ThreadID \<Rightarrow> inst_ptr list"
  skidBuffer :: "ThreadID \<Rightarrow> inst_ptr list"
  instsInProgress :: "ThreadID \<Rightarrow> int"
  loadsInProgress :: "ThreadID \<Rightarrow> int"
  storesInProgress :: "ThreadID \<Rightarrow> int"
  rs_freeEntries :: "ThreadID \<Rightarrow> FreeEntries"
  emptyROB :: "ThreadID \<Rightarrow> bool"
  stalls_iew :: "ThreadID \<Rightarrow> bool"
  serializeInst :: "ThreadID \<Rightarrow> inst_ptr option"
  serializeOnNextInst :: "ThreadID \<Rightarrow> bool"
  blockThisCycle :: bool
  resumeSerialize :: bool
  resumeUnblocking :: bool
  wroteToTimeBuffer :: bool
  toIEW :: "inst_ptr list"
  renameBlock :: "ThreadID \<Rightarrow> bool"
  renameUnblock :: "ThreadID \<Rightarrow> bool"

record rename_params =
  renameWidth :: nat
  skidBufferMax :: nat
  rs_numThreads :: nat
  rs_activeThreads :: "ThreadID list"

section \<open>Serializing instructions\<close>

definition isSerializeBefore :: "dyn_inst \<Rightarrow> bool" where
  "isSerializeBefore i \<longleftrightarrow> sflag i IsSerializeBefore \<or> has i SerializeBefore"

definition isSerializeAfter :: "dyn_inst \<Rightarrow> bool" where
  "isSerializeAfter i \<longleftrightarrow> sflag i IsSerializeAfter \<or> has i SerializeAfter"

definition resetStage :: "rename_params \<Rightarrow> (ThreadID \<Rightarrow> FreeEntries) \<Rightarrow> RenameStage \<Rightarrow> RenameStage" where
  "resetStage P free r =
     r\<lparr>rs_status := StageInactive, resumeSerialize := False, resumeUnblocking := False,
       renameStatus := (\<lambda>t. if t < rs_numThreads P then ThreadIdle else renameStatus r t),
       rs_freeEntries := (\<lambda>t. if t < rs_numThreads P then free t else rs_freeEntries r t),
       emptyROB := (\<lambda>t. t < rs_numThreads P \<or> emptyROB r t),
       stalls_iew := (\<lambda>t. \<not> t < rs_numThreads P \<and> stalls_iew r t),
       serializeInst := (\<lambda>t. if t < rs_numThreads P then None else serializeInst r t),
       instsInProgress := (\<lambda>t. if t < rs_numThreads P then 0 else instsInProgress r t),
       loadsInProgress := (\<lambda>t. if t < rs_numThreads P then 0 else loadsInProgress r t),
       storesInProgress := (\<lambda>t. if t < rs_numThreads P then 0 else storesInProgress r t),
       serializeOnNextInst := (\<lambda>t. \<not> t < rs_numThreads P \<and> serializeOnNextInst r t)\<rparr>"

definition rename_isDrained :: "rename_params \<Rightarrow> Rename \<Rightarrow> RenameStage \<Rightarrow> bool" where
  "rename_isDrained P s r \<longleftrightarrow>
     list_all (\<lambda>t. instsInProgress r t = 0 \<and> historyBuffer s t = [] \<and> skidBuffer r t = [] \<and> insts r t = [] \<and>
       (renameStatus r t = ThreadIdle \<or> renameStatus r t = ThreadRunning)) [0..<rs_numThreads P]"

section \<open>Queues and blocking\<close>

definition skidInsert :: "rename_params \<Rightarrow> inst_store \<Rightarrow> ThreadID \<Rightarrow> RenameStage \<Rightarrow> RenameStage option" where
  "skidInsert P h tid r =
     do {
       assert_that (list_all (\<lambda>p. threadNumber (h p) = tid) (insts r tid));
       let r = r\<lparr>skidBuffer := (skidBuffer r)(tid := skidBuffer r tid @ insts r tid), insts := (insts r)(tid := [])\<rparr>;
       assert_that (length (skidBuffer r tid) \<le> skidBufferMax P);
       Some r
     }"

definition sortInsts :: "rename_in \<Rightarrow> inst_store \<Rightarrow> RenameStage \<Rightarrow> RenameStage" where
  "sortInsts io h r =
     fold (\<lambda>p r. r\<lparr>insts := (insts r)(threadNumber (h p) := insts r (threadNumber (h p)) @ [p])\<rparr>) (fromDecode io) r"

definition validInsts :: "rename_in \<Rightarrow> inst_store \<Rightarrow> nat" where
  "validInsts io h = length (filter (\<lambda>p. \<not> has (h p) Squashed) (fromDecode io))"

definition rename_block :: "rename_params \<Rightarrow> inst_store \<Rightarrow> ThreadID \<Rightarrow> RenameStage \<Rightarrow> (bool \<times> RenameStage) option" where
  "rename_block P h tid r =
     do {
       r \<leftarrow> skidInsert P h tid r;
       if renameStatus r tid \<noteq> Blocked
       then let r = (if resumeUnblocking r \<or> renameStatus r tid \<noteq> Unblocking
                     then r\<lparr>renameBlock := (renameBlock r)(tid := True), renameUnblock := (renameUnblock r)(tid := False),
                            wroteToTimeBuffer := True\<rparr>
                     else r)
            in if renameStatus r tid \<noteq> SerializeStall
               then Some (True, r\<lparr>renameStatus := (renameStatus r)(tid := Blocked)\<rparr>)
               else Some (False, r)
       else Some (False, r)
     }"

definition rename_unblock :: "ThreadID \<Rightarrow> RenameStage \<Rightarrow> bool \<times> RenameStage" where
  "rename_unblock tid r =
     (if skidBuffer r tid = [] \<and> renameStatus r tid \<noteq> SerializeStall
      then (True, r\<lparr>renameUnblock := (renameUnblock r)(tid := True), wroteToTimeBuffer := True,
                     renameStatus := (renameStatus r)(tid := ThreadRunning)\<rparr>)
      else (False, r))"

definition updateStatus :: "rename_params \<Rightarrow> RenameStage \<Rightarrow> RenameStage" where
  "updateStatus P r =
     r\<lparr>rs_status := (if list_ex (\<lambda>t. renameStatus r t = Unblocking) (rs_activeThreads P) then StageActive else StageInactive)\<rparr>"

definition skidsEmpty :: "rename_params \<Rightarrow> RenameStage \<Rightarrow> bool" where
  "skidsEmpty P r = list_all (\<lambda>t. skidBuffer r t = []) (rs_activeThreads P)"

section \<open>Credits of the back end\<close>

definition calcFreeROBEntries :: "rename_in \<Rightarrow> ThreadID \<Rightarrow> RenameStage \<Rightarrow> int" where
  "calcFreeROBEntries io tid r = robEntries (rs_freeEntries r tid) - (instsInProgress r tid - iew_dispatched (iewInfo io tid))"

definition calcFreeIQEntries :: "rename_in \<Rightarrow> ThreadID \<Rightarrow> RenameStage \<Rightarrow> int" where
  "calcFreeIQEntries io tid r = iqEntries (rs_freeEntries r tid) - (instsInProgress r tid - iew_dispatched (iewInfo io tid))"

definition calcFreeLQEntries :: "rename_in \<Rightarrow> ThreadID \<Rightarrow> RenameStage \<Rightarrow> int" where
  "calcFreeLQEntries io tid r = lqEntries (rs_freeEntries r tid) - (loadsInProgress r tid - dispatchedToLQ (iewInfo io tid))"

definition calcFreeSQEntries :: "rename_in \<Rightarrow> ThreadID \<Rightarrow> RenameStage \<Rightarrow> int" where
  "calcFreeSQEntries io tid r = sqEntries (rs_freeEntries r tid) - (storesInProgress r tid - dispatchedToSQ (iewInfo io tid))"

definition readFreeEntries :: "rename_in \<Rightarrow> ThreadID \<Rightarrow> RenameStage \<Rightarrow> RenameStage" where
  "readFreeEntries io tid r =
     (let i = iewInfo io tid; c = commitInfo io tid; f = rs_freeEntries r tid;
          f = (if usedIQ i then f\<lparr>iqEntries := freeIQEntries i\<rparr> else f);
          f = (if usedLSQ i then f\<lparr>lqEntries := freeLQEntries i, sqEntries := freeSQEntries i\<rparr> else f);
          f = (if usedROB c then f\<lparr>robEntries := freeROBEntries c\<rparr> else f)
      in r\<lparr>rs_freeEntries := (rs_freeEntries r)(tid := f),
           emptyROB := (if usedROB c then (emptyROB r)(tid := commEmptyROB c) else emptyROB r)\<rparr>)"

definition readStallSignals :: "rename_in \<Rightarrow> ThreadID \<Rightarrow> RenameStage \<Rightarrow> RenameStage option" where
  "readStallSignals io tid r =
     (let r = (if iewBlock io tid then r\<lparr>stalls_iew := (stalls_iew r)(tid := True)\<rparr> else r)
      in if iewUnblock io tid
         then do { assert_that (stalls_iew r tid); Some (r\<lparr>stalls_iew := (stalls_iew r)(tid := False)\<rparr>) }
         else Some r)"

definition checkStall :: "rename_in \<Rightarrow> Rename \<Rightarrow> ThreadID \<Rightarrow> RenameStage \<Rightarrow> bool" where
  "checkStall io s tid r \<longleftrightarrow>
     stalls_iew r tid \<or> calcFreeROBEntries io tid r \<le> 0 \<or> calcFreeIQEntries io tid r \<le> 0 \<or>
     (calcFreeLQEntries io tid r \<le> 0 \<and> calcFreeSQEntries io tid r \<le> 0) \<or>
     rm_numFreeEntries (renameMap s tid) (freeList s) = 0 \<or>
     (renameStatus r tid = SerializeStall \<and> (\<not> emptyROB r tid \<or> instsInProgress r tid \<noteq> 0))"

section \<open>Renaming the instructions of a thread\<close>

type_synonym stage_state = "rename_state \<times> RenameStage"

text \<open>The queue that is renamed from: the skid buffer while unblocking, the new instructions otherwise.\<close>

definition to_rename :: "bool \<Rightarrow> ThreadID \<Rightarrow> RenameStage \<Rightarrow> inst_ptr list" where
  "to_rename unblocking tid r = (if unblocking then skidBuffer r tid else insts r tid)"

definition set_to_rename :: "bool \<Rightarrow> ThreadID \<Rightarrow> inst_ptr list \<Rightarrow> RenameStage \<Rightarrow> RenameStage" where
  "set_to_rename unblocking tid ps r =
     (if unblocking then r\<lparr>skidBuffer := (skidBuffer r)(tid := ps)\<rparr> else r\<lparr>insts := (insts r)(tid := ps)\<rparr>)"

definition serializeAfter :: "inst_ptr list \<Rightarrow> ThreadID \<Rightarrow> inst_store \<times> RenameStage \<Rightarrow> inst_store \<times> RenameStage" where
  "serializeAfter inst_list tid hr =
     (case (inst_list, hr) of
        ([], h, r) \<Rightarrow> (h, r\<lparr>serializeOnNextInst := (serializeOnNextInst r)(tid := True)\<rparr>)
      | (p # _, h, r) \<Rightarrow> (upd_inst p (set_status SerializeBefore) h, r))"

definition canRename_inst :: "dyn_inst \<Rightarrow> UnifiedFreeList \<Rightarrow> bool" where
  "canRename_inst i F =
     (let n = snumDests (staticInst i)
      in canRename (n IntRegClass) (n FloatRegClass) (n VecRegClass) (n VecElemClass) (n CCRegClass) F)"

text \<open>An instruction that passed every check: rename it, count it and send it.\<close>

definition rename_one ::
  "isa_params \<Rightarrow> (RegId \<Rightarrow> RegId) \<Rightarrow> ThreadID \<Rightarrow> inst_ptr \<Rightarrow> stage_state \<Rightarrow> stage_state option" where
  "rename_one isa flatten tid p st =
     (case st of ((h, s, sb, pr), r) \<Rightarrow> do {
        h \<leftarrow> renameSrcRegs isa flatten (threadNumber (h p)) p s sb h;
        st \<leftarrow> renameDestRegs isa flatten (threadNumber (h p)) p (h, s, sb, pr);
        let r = (if sflag (h p) IsLoad then r\<lparr>loadsInProgress := (loadsInProgress r)(tid := loadsInProgress r tid + 1)\<rparr> else r);
        let r = (if sflag (h p) IsStore then r\<lparr>storesInProgress := (storesInProgress r)(tid := storesInProgress r tid + 1)\<rparr> else r);
        Some (st, r\<lparr>toIEW := toIEW r @ [p]\<rparr>)
      })"

text \<open>
  The loop over the available instructions; the number is what is still available when the
  loop ends or breaks.
\<close>

fun rename_loop ::
  "rename_params \<Rightarrow> isa_params \<Rightarrow> (RegId \<Rightarrow> RegId) \<Rightarrow> rename_in \<Rightarrow> bool \<Rightarrow> ThreadID \<Rightarrow> nat \<Rightarrow> stage_state \<Rightarrow>
     (nat \<times> stage_state) option" where
  "rename_loop P isa flatten io unb tid 0 st = Some (0, st)"
| "rename_loop P isa flatten io unb tid (Suc avail) ((h, s, sb, pr), r) =
     (if renameWidth P \<le> length (toIEW r) then Some (Suc avail, (h, s, sb, pr), r)
      else case to_rename unb tid r of
        [] \<Rightarrow> None
      | p # ps \<Rightarrow>
          if sflag (h p) IsLoad \<and> calcFreeLQEntries io tid r \<le> 0 then Some (Suc avail, (h, s, sb, pr), r)
          else if sflag (h p) IsStore \<and> calcFreeSQEntries io tid r \<le> 0 then Some (Suc avail, (h, s, sb, pr), r)
          else if has (h p) Squashed
          then rename_loop P isa flatten io unb tid avail ((h, s, sb, pr), set_to_rename unb tid ps r)
          else if \<not> canRename_inst (h p) (freeList s)
          then Some (Suc avail, (h, s, sb, pr), r\<lparr>blockThisCycle := True\<rparr>)
          else if (sflag (h p) IsIprAccess \<or> isSerializeBefore (h p)) \<and> \<not> has (h p) SerializeHandled
          then Some (Suc avail,
                 ((if \<not> has (h p) SerializeBefore then upd_inst p (set_status SerializeHandled) h else h), s, sb, pr),
                 (set_to_rename unb tid ps r)\<lparr>renameStatus := (renameStatus r)(tid := SerializeStall),
                   serializeInst := (serializeInst r)(tid := Some p), blockThisCycle := True\<rparr>)
          else
            let r = set_to_rename unb tid ps r;
                (h, r) = (if (sflag (h p) IsStoreConditional \<or> isSerializeAfter (h p)) \<and> \<not> has (h p) SerializeHandled
                          then serializeAfter ps tid (upd_inst p (set_status SerializeHandled) h, r)
                          else (h, r))
            in do {
              st \<leftarrow> rename_one isa flatten tid p ((h, s, sb, pr), r);
              rename_loop P isa flatten io unb tid avail st
            })"

definition serialize_next :: "bool \<Rightarrow> ThreadID \<Rightarrow> inst_store \<times> RenameStage \<Rightarrow> inst_store \<times> RenameStage" where
  "serialize_next unb tid hr =
     (case hr of (h, r) \<Rightarrow>
        if serializeOnNextInst r tid
        then if emptyROB r tid \<and> instsInProgress r tid = 0
             then (h, r\<lparr>serializeOnNextInst := (serializeOnNextInst r)(tid := False)\<rparr>)
             else case to_rename unb tid r of [] \<Rightarrow> (h, r) | p # _ \<Rightarrow> (upd_inst p (set_status SerializeBefore) h, r)
        else (h, r))"

text \<open>After the loop: count what was sent and block if anything is left.\<close>

definition finish_rename :: "rename_params \<Rightarrow> inst_store \<Rightarrow> ThreadID \<Rightarrow> nat \<Rightarrow> nat \<Rightarrow> RenameStage \<Rightarrow> RenameStage option" where
  "finish_rename P h tid before left r =
     (let r = r\<lparr>instsInProgress := (instsInProgress r)(tid := instsInProgress r tid + int (length (toIEW r) - before))\<rparr>;
          r = (if toIEW r \<noteq> [] then r\<lparr>wroteToTimeBuffer := True\<rparr> else r);
          r = (if left \<noteq> 0 then r\<lparr>blockThisCycle := True\<rparr> else r)
      in if blockThisCycle r
         then do { (_, r) \<leftarrow> rename_block P h tid r; Some (r\<lparr>renameUnblock := (renameUnblock r)(tid := False)\<rparr>) }
         else Some r)"

definition renameInsts ::
  "rename_params \<Rightarrow> isa_params \<Rightarrow> (RegId \<Rightarrow> RegId) \<Rightarrow> rename_in \<Rightarrow> ThreadID \<Rightarrow> stage_state \<Rightarrow> stage_state option" where
  "renameInsts P isa flatten io tid st =
     (case st of ((h, s, sb, pr), r) \<Rightarrow>
        let unb = (renameStatus r tid = Unblocking); insts_available = int (length (to_rename unb tid r))
        in if insts_available = 0 then Some st
           else
             let min_free_entries = min (calcFreeROBEntries io tid r) (calcFreeIQEntries io tid r)
             in if min_free_entries \<le> 0
                then do {
                  (_, r) \<leftarrow> rename_block P h tid (r\<lparr>blockThisCycle := True\<rparr>);
                  Some ((h, s, sb, pr), r)
                }
                else
                  let r = (if min_free_entries < insts_available then r\<lparr>blockThisCycle := True\<rparr> else r);
                      insts_available = min insts_available min_free_entries;
                      (h, r) = serialize_next unb tid (h, r)
                  in do {
                    (left, (h, s, sb, pr), r') \<leftarrow> rename_loop P isa flatten io unb tid (nat insts_available) ((h, s, sb, pr), r);
                    r \<leftarrow> finish_rename P h tid (length (toIEW r)) left r';
                    Some ((h, s, sb, pr), r)
                  })"

section \<open>Signals and the cycle\<close>

definition rename_squash ::
  "isa_params \<Rightarrow> rename_in \<Rightarrow> InstSeqNum \<Rightarrow> ThreadID \<Rightarrow> stage_state \<Rightarrow> stage_state option" where
  "rename_squash isa io sn tid st =
     (case st of ((h, s, sb, pr), r) \<Rightarrow> do {
        r \<leftarrow> (if renameStatus r tid = Blocked \<or> renameStatus r tid = Unblocking
              then Some (r\<lparr>renameUnblock := (renameUnblock r)(tid := True), resumeSerialize := False,
                           serializeInst := (serializeInst r)(tid := None)\<rparr>)
              else if renameStatus r tid = SerializeStall
              then do {
                p \<leftarrow> serializeInst r tid;
                if seqNum (h p) \<le> sn then Some (r\<lparr>resumeSerialize := True\<rparr>)
                else Some (r\<lparr>resumeSerialize := False, renameUnblock := (renameUnblock r)(tid := True),
                             serializeInst := (serializeInst r)(tid := None)\<rparr>)
              }
              else Some r);
        let hit = filter (\<lambda>p. threadNumber (h p) = tid \<and> seqNum (h p) > sn) (fromDecode io);
        s \<leftarrow> rename_doSquash isa sn tid s;
        Some ((fold (\<lambda>p. upd_inst p (set_status Squashed)) hit h, s, sb, pr),
              r\<lparr>renameStatus := (renameStatus r)(tid := Squashing), wroteToTimeBuffer := (wroteToTimeBuffer r \<or> hit \<noteq> []),
                insts := (insts r)(tid := []), skidBuffer := (skidBuffer r)(tid := [])\<rparr>)
      })"

text \<open>What a thread does when no signal stops it.\<close>

definition resume_thread :: "ThreadID \<Rightarrow> inst_store \<times> RenameStage \<Rightarrow> (bool \<times> inst_store \<times> RenameStage) option" where
  "resume_thread tid hr =
     (case hr of (h, r) \<Rightarrow>
        if renameStatus r tid = Blocked
        then Some (True, h, snd (rename_unblock tid (r\<lparr>renameStatus := (renameStatus r)(tid := Unblocking)\<rparr>)))
        else if renameStatus r tid = Squashing
        then if resumeSerialize r then Some (True, h, r\<lparr>renameStatus := (renameStatus r)(tid := SerializeStall)\<rparr>)
             else if resumeUnblocking r then Some (True, h, r\<lparr>renameStatus := (renameStatus r)(tid := Unblocking)\<rparr>)
             else Some (False, h, r\<lparr>renameStatus := (renameStatus r)(tid := ThreadRunning)\<rparr>)
        else if renameStatus r tid = SerializeStall
        then do {
          let r = snd (rename_unblock tid (r\<lparr>renameStatus := (renameStatus r)(tid := Unblocking)\<rparr>));
          p \<leftarrow> serializeInst r tid;
          let r = (if skidBuffer r tid \<noteq> [] then r\<lparr>skidBuffer := (skidBuffer r)(tid := p # skidBuffer r tid)\<rparr>
                   else r\<lparr>insts := (insts r)(tid := p # insts r tid)\<rparr>);
          Some (True, upd_inst p (reset_status SerializeBefore) h, r\<lparr>serializeInst := (serializeInst r)(tid := None)\<rparr>)
        }
        else Some (False, h, r))"

definition checkSignalsAndUpdate ::
  "rename_params \<Rightarrow> isa_params \<Rightarrow> rename_in \<Rightarrow> ThreadID \<Rightarrow> stage_state \<Rightarrow> (bool \<times> stage_state) option" where
  "checkSignalsAndUpdate P isa io tid st =
     (case st of ((h, s, sb, pr), r) \<Rightarrow> do {
        r \<leftarrow> readStallSignals io tid (readFreeEntries io tid r);
        if commitSquash (commitInfo io tid)
        then do { st \<leftarrow> rename_squash isa io (doneSeqNum (commitInfo io tid)) tid ((h, s, sb, pr), r); Some (True, st) }
        else if checkStall io s tid r
        then do { (b, r) \<leftarrow> rename_block P h tid r; Some (b, (h, s, sb, pr), r) }
        else do { (b, h, r) \<leftarrow> resume_thread tid (h, r); Some (b, (h, s, sb, pr), r) }
      })"

text \<open>The body of \<open>rename\<close>: resume a serialize stall, then rename according to the status.\<close>

definition rename_resume :: "rename_params \<Rightarrow> inst_store \<Rightarrow> ThreadID \<Rightarrow> RenameStage \<Rightarrow> RenameStage option" where
  "rename_resume P h tid r =
     (if renameStatus r tid = SerializeStall \<and> resumeSerialize r
      then do {
        (_, r) \<leftarrow> rename_block P h tid (r\<lparr>resumeSerialize := False\<rparr>);
        Some (r\<lparr>renameUnblock := (renameUnblock r)(tid := False)\<rparr>)
      }
      else if renameStatus r tid = Unblocking \<and> resumeUnblocking r
      then do {
        (_, r) \<leftarrow> rename_block P h tid r;
        Some (r\<lparr>resumeUnblocking := False, renameUnblock := (renameUnblock r)(tid := False)\<rparr>)
      }
      else Some r)"

definition rename_thread ::
  "rename_params \<Rightarrow> isa_params \<Rightarrow> (RegId \<Rightarrow> RegId) \<Rightarrow> rename_in \<Rightarrow> ThreadID \<Rightarrow> bool \<times> stage_state \<Rightarrow> (bool \<times> stage_state) option" where
  "rename_thread P isa flatten io tid cst =
     (case cst of (status_change, (h, s, sb, pr), r) \<Rightarrow> do {
        r \<leftarrow> rename_resume P h tid r;
        if renameStatus r tid = ThreadRunning \<or> renameStatus r tid = ThreadIdle
        then do { st \<leftarrow> renameInsts P isa flatten io tid ((h, s, sb, pr), r); Some (status_change, st) }
        else if renameStatus r tid = Unblocking
        then do {
          ((h, s, sb, pr), r) \<leftarrow> renameInsts P isa flatten io tid ((h, s, sb, pr), r);
          r \<leftarrow> (if validInsts io h \<noteq> 0 then skidInsert P h tid r else Some r);
          let (u, r) = rename_unblock tid r;
          Some (u \<or> status_change \<or> blockThisCycle r, (h, s, sb, pr), r)
        }
        else Some (status_change, (h, s, sb, pr), r)
      })"

definition rename_tick_thread ::
  "rename_params \<Rightarrow> isa_params \<Rightarrow> (RegId \<Rightarrow> RegId) \<Rightarrow> rename_in \<Rightarrow> ThreadID \<Rightarrow> bool \<times> stage_state \<Rightarrow> (bool \<times> stage_state) option" where
  "rename_tick_thread P isa flatten io tid cst =
     do {
       (b, st) \<leftarrow> checkSignalsAndUpdate P isa io tid (snd cst);
       rename_thread P isa flatten io tid (b \<or> fst cst, st)
     }"

definition updateProgress :: "rename_in \<Rightarrow> ThreadID \<Rightarrow> RenameStage \<Rightarrow> RenameStage option" where
  "updateProgress io tid r =
     do {
       let i = iewInfo io tid;
       let r = r\<lparr>instsInProgress := (instsInProgress r)(tid := instsInProgress r tid - iew_dispatched i),
                 loadsInProgress := (loadsInProgress r)(tid := loadsInProgress r tid - dispatchedToLQ i),
                 storesInProgress := (storesInProgress r)(tid := storesInProgress r tid - dispatchedToSQ i)\<rparr>;
       assert_that (0 \<le> loadsInProgress r tid \<and> 0 \<le> storesInProgress r tid \<and> 0 \<le> instsInProgress r tid);
       Some r
     }"

definition commit_history :: "rename_in \<Rightarrow> RenameStage \<Rightarrow> ThreadID \<Rightarrow> Rename \<Rightarrow> Rename option" where
  "commit_history io r tid s =
     (let c = commitInfo io tid
      in if doneSeqNum c \<noteq> 0 \<and> \<not> commitSquash c \<and> renameStatus r tid \<noteq> Squashing
         then removeFromHistory (doneSeqNum c) tid s else Some s)"

definition rename_tick ::
  "rename_params \<Rightarrow> isa_params \<Rightarrow> (RegId \<Rightarrow> RegId) \<Rightarrow> rename_in \<Rightarrow> stage_state \<Rightarrow> stage_state option" where
  "rename_tick P isa flatten io st =
     (case st of ((h, s, sb, pr), r) \<Rightarrow> do {
        let r = sortInsts io h (r\<lparr>wroteToTimeBuffer := False, blockThisCycle := False, toIEW := [],
                                  renameBlock := (\<lambda>_. False), renameUnblock := (\<lambda>_. False)\<rparr>);
        (status_change, (h, s, sb, pr), r) \<leftarrow>
          foldM (rename_tick_thread P isa flatten io) (rs_activeThreads P) (False, (h, s, sb, pr), r);
        let r = (if status_change then updateStatus P r else r);
        s \<leftarrow> foldM (commit_history io r) (rs_activeThreads P) s;
        r \<leftarrow> foldM (updateProgress io) [0..<rs_numThreads P] r;
        Some ((h, s, sb, pr), r)
      })"

end
