(* ===== verification/RenameStageOk.thy ===== *)
theory RenameStageOk
  imports RenameStage
begin

text \<open>
  Correctness of the rename stage: instructions leave each thread's queues in program order,
  none lost, duplicated or reordered by blocking, unblocking and serialize stalls, and never
  more than the back end has room for.
\<close>

section \<open>What renaming keeps of the instructions\<close>

definition same_insts :: "inst_store \<Rightarrow> inst_store \<Rightarrow> bool" where
  "same_insts h h' \<longleftrightarrow> (\<forall>q. threadNumber (h' q) = threadNumber (h q) \<and> seqNum (h' q) = seqNum (h q) \<and>
     staticInst (h' q) = staticInst (h q) \<and> (has (h' q) Squashed \<longleftrightarrow> has (h q) Squashed))"

lemma same_insts_refl [simp]: "same_insts h h"
  by (simp add: same_insts_def)

lemma same_insts_trans [trans]: "same_insts h h' \<Longrightarrow> same_insts h' h'' \<Longrightarrow> same_insts h h''"
  by (simp add: same_insts_def)

lemma same_insts_status:
  "b \<noteq> Squashed \<Longrightarrow> same_insts h (upd_inst p (set_status b) h)" "b \<noteq> Squashed \<Longrightarrow> same_insts h (upd_inst p (reset_status b) h)"
  by (auto simp: same_insts_def upd_inst_def inst_defs)

lemma same_insts_src:
  assumes "renameSrcRegs isa flatten t p s sb h = Some h'"
  shows "same_insts h h'"
  using assms unfolding renameSrcRegs_def
proof (rule foldM_relation)
  show "same_insts s t" if "rename_src isa flatten t' p s' sb x s = Some t" for x s t t' s'
    using that by (auto simp: rename_src_def Let_def bind_eq_Some_conv same_insts_def upd_inst_def updM_inst_def renameSrcReg_def
        markSrcRegReady_idx_def markSrcRegReady_def inst_defs split: if_splits)
qed (auto intro: same_insts_trans)

lemma same_insts_dest1:
  assumes "rename_dest isa flatten t p k (h, s, sb, pr) = Some (h', s', sb', pr')"
  shows "same_insts h h'"
  using assms by (auto simp: rename_dest_def Let_def bind_eq_Some_conv same_insts_def upd_inst_def renameDestReg_def flattenDestReg_def split: if_splits)

lemma same_insts_dest:
  assumes "renameDestRegs isa flatten t p (h, s, sb, pr) = Some (h', s', sb', pr')"
  shows "same_insts h h'"
proof -
  let ?R = "\<lambda>st st' :: rename_state. same_insts (fst st) (fst st')"
  have "?R (h, s, sb, pr) (h', s', sb', pr')"
  proof (rule foldM_relation [where R = ?R, OF assms [unfolded renameDestRegs_def]])
    show "?R st st'" if "rename_dest isa flatten t p k st = Some st'" for k st st'
      using that same_insts_dest1 by (cases st; cases st') auto
  qed (auto intro: same_insts_trans)
  then show ?thesis by simp
qed

text \<open>Sending one instruction.\<close>

definition loads :: "inst_store \<Rightarrow> inst_ptr list \<Rightarrow> int" where
  "loads h ps = int (length (filter (\<lambda>p. sflag (h p) IsLoad) ps))"

definition stores :: "inst_store \<Rightarrow> inst_ptr list \<Rightarrow> int" where
  "stores h ps = int (length (filter (\<lambda>p. sflag (h p) IsStore) ps))"

definition live :: "inst_store \<Rightarrow> inst_ptr list \<Rightarrow> inst_ptr list" where
  "live h ps = filter (\<lambda>p. \<not> has (h p) Squashed) ps"

lemma loads_simps [simp]: "loads h [] = 0" "loads h (ps @ qs) = loads h ps + loads h qs" "loads h (p # ps) = (if sflag (h p) IsLoad then 1 else 0) + loads h ps"
  by (auto simp: loads_def)

lemma stores_simps [simp]: "stores h [] = 0" "stores h (ps @ qs) = stores h ps + stores h qs" "stores h (p # ps) = (if sflag (h p) IsStore then 1 else 0) + stores h ps"
  by (auto simp: stores_def)

lemma live_simps [simp]: "live h [] = []" "live h (p # ps) = (if has (h p) Squashed then [] else [p]) @ live h ps" "live h (ps @ qs) = live h ps @ live h qs"
  by (auto simp: live_def)

lemma live_length: "length (live h ps) \<le> length ps"
  by (induction ps) auto

lemma same_insts_counts: "same_insts h h' \<Longrightarrow> loads h' ps = loads h ps \<and> stores h' ps = stores h ps \<and> live h' ps = live h ps"
  by (simp add: same_insts_def loads_def stores_def live_def)

definition sent :: "ThreadID \<Rightarrow> inst_store \<Rightarrow> inst_ptr list \<Rightarrow> RenameStage \<Rightarrow> RenameStage" where
  "sent tid h ps r = r\<lparr>toIEW := toIEW r @ ps, loadsInProgress := (loadsInProgress r)(tid := loadsInProgress r tid + loads h ps),
     storesInProgress := (storesInProgress r)(tid := storesInProgress r tid + stores h ps)\<rparr>"

lemma sent_simps [simp]: "sent tid h [] r = r" "toIEW (sent tid h ps r) = toIEW r @ ps"
  "renameStatus (sent tid h ps r) = renameStatus r" "insts (sent tid h ps r) = insts r" "skidBuffer (sent tid h ps r) = skidBuffer r"
  "serializeInst (sent tid h ps r) = serializeInst r" "rs_freeEntries (sent tid h ps r) = rs_freeEntries r"
  "instsInProgress (sent tid h ps r) = instsInProgress r" "resumeSerialize (sent tid h ps r) = resumeSerialize r"
  "resumeUnblocking (sent tid h ps r) = resumeUnblocking r" "to_rename unb tid (sent tid h ps r) = to_rename unb tid r"
  by (simp_all add: sent_def to_rename_def)

lemma rename_one_sent:
  assumes "rename_one isa flatten tid p ((h, s, sb, pr), r) = Some ((h', s', sb', pr'), r')"
  shows "same_insts h h' \<and> r' = sent tid h [p] r"
proof -
  obtain h1 where h1: "renameSrcRegs isa flatten (threadNumber (h p)) p s sb h = Some h1"
    "renameDestRegs isa flatten (threadNumber (h1 p)) p (h1, s, sb, pr) = Some (h', s', sb', pr')"
    and r': "r' = (let r = (if sflag (h1 p) IsLoad then r\<lparr>loadsInProgress := (loadsInProgress r)(tid := loadsInProgress r tid + 1)\<rparr> else r);
        r = (if sflag (h1 p) IsStore then r\<lparr>storesInProgress := (storesInProgress r)(tid := storesInProgress r tid + 1)\<rparr> else r)
      in r\<lparr>toIEW := toIEW r @ [p]\<rparr>)"
    using assms by (auto simp: rename_one_def Let_def bind_eq_Some_conv)
  have "same_insts h h1" by (rule same_insts_src [OF h1(1)])
  moreover from this have "same_insts h h'" using same_insts_dest [OF h1(2)] same_insts_trans by blast
  ultimately show ?thesis by (simp add: r' sent_def same_insts_def Let_def)
qed

section \<open>The loop\<close>

lemma to_rename_set [simp]: "to_rename unb tid (set_to_rename unb tid ps r) = ps"
  by (simp add: to_rename_def set_to_rename_def)

lemma set_to_rename_simps [simp]:
  "toIEW (set_to_rename unb tid ps r) = toIEW r" "renameStatus (set_to_rename unb tid ps r) = renameStatus r"
  "serializeInst (set_to_rename unb tid ps r) = serializeInst r" "rs_freeEntries (set_to_rename unb tid ps r) = rs_freeEntries r"
  "loadsInProgress (set_to_rename unb tid ps r) = loadsInProgress r" "storesInProgress (set_to_rename unb tid ps r) = storesInProgress r"
  "instsInProgress (set_to_rename unb tid ps r) = instsInProgress r" "resumeSerialize (set_to_rename unb tid ps r) = resumeSerialize r"
  "resumeUnblocking (set_to_rename unb tid ps r) = resumeUnblocking r"
  "set_to_rename unb tid ps (set_to_rename unb tid qs r) = set_to_rename unb tid ps r"
  "set_to_rename unb tid (to_rename unb tid r) r = r"
  "sent tid h qs (set_to_rename unb tid ps r) = set_to_rename unb tid ps (sent tid h qs r)"
  by (simp_all add: set_to_rename_def to_rename_def sent_def)

text \<open>
  The state after \<open>pre\<close> has been taken off the queue: its live instructions are sent. Only
  the flags for blocking and for serializing the next instruction may differ as well.
\<close>

definition marks :: "RenameStage \<Rightarrow> RenameStage \<Rightarrow> RenameStage" where
  "marks r' r = r\<lparr>serializeOnNextInst := serializeOnNextInst r', blockThisCycle := blockThisCycle r'\<rparr>"

definition advanced :: "bool \<Rightarrow> ThreadID \<Rightarrow> inst_ptr list \<Rightarrow> inst_store \<times> RenameStage \<Rightarrow> inst_store \<times> RenameStage \<Rightarrow> bool" where
  "advanced unb tid pre hr hr' \<longleftrightarrow> (case (hr, hr') of ((h, r), (h', r')) \<Rightarrow>
     same_insts h h' \<and> to_rename unb tid r = pre @ to_rename unb tid r' \<and>
     r' = marks r' (sent tid h (live h pre) (set_to_rename unb tid (to_rename unb tid r') r)))"

lemma marks_simps [simp]:
  "sent tid h qs (marks a r) = marks a (sent tid h qs r)" "set_to_rename unb tid ps (marks a r) = marks a (set_to_rename unb tid ps r)"
  "marks a (marks b r) = marks a r" "to_rename unb tid (marks a r) = to_rename unb tid r" "toIEW (marks a r) = toIEW r"
  "renameStatus (marks a r) = renameStatus r" "serializeInst (marks a r) = serializeInst r" "marks r r = r"
  "insts (marks a r) = insts r" "skidBuffer (marks a r) = skidBuffer r" "resumeSerialize (marks a r) = resumeSerialize r"
  "resumeUnblocking (marks a r) = resumeUnblocking r" "instsInProgress (marks a r) = instsInProgress r"
  "rs_freeEntries (marks a r) = rs_freeEntries r" "loadsInProgress (marks a r) = loadsInProgress r"
  "storesInProgress (marks a r) = storesInProgress r"
  by (simp_all add: marks_def sent_def set_to_rename_def to_rename_def)

lemma sent_sent: "sent tid h qs (sent tid h ps r) = sent tid h (ps @ qs) r"
  by (simp add: sent_def add.assoc)

lemma sent_same: "same_insts h h' \<Longrightarrow> sent tid h' ps r = sent tid h ps r"
  by (simp add: sent_def same_insts_counts)

lemma advanced_refl: "advanced unb tid [] (h, r) (h, r)"
  by (simp add: advanced_def)

lemma advanced_trans:
  assumes "advanced unb tid pre (h, r) (h1, r1)" and "advanced unb tid pre' (h1, r1) (h2, r2)"
  shows "advanced unb tid (pre @ pre') (h, r) (h2, r2)"
proof -
  let ?q = "to_rename unb tid"
  have a: "same_insts h h1" "?q r = pre @ ?q r1" and r1: "r1 = marks r1 (sent tid h (live h pre) (set_to_rename unb tid (?q r1) r))"
    using assms(1) by (auto simp: advanced_def)
  have b: "same_insts h1 h2" "?q r1 = pre' @ ?q r2" and r2: "r2 = marks r2 (sent tid h1 (live h1 pre') (set_to_rename unb tid (?q r2) r1))"
    using assms(2) by (auto simp: advanced_def)
  have "r2 = marks r2 (sent tid h (live h pre') (set_to_rename unb tid (?q r2) (marks r1 (sent tid h (live h pre) (set_to_rename unb tid (?q r1) r)))))"
    using r2 r1 a(1) by (metis sent_same same_insts_counts)
  also have "\<dots> = marks r2 (sent tid h (live h (pre @ pre')) (set_to_rename unb tid (?q r2) r))" by (simp add: sent_sent)
  finally show ?thesis using a b same_insts_trans [OF a(1) b(1)] by (simp add: advanced_def)
qed

lemma advanced_skip:
  "to_rename unb tid r = p # ps \<Longrightarrow> has (h p) Squashed \<Longrightarrow> advanced unb tid [p] (h, r) (h, set_to_rename unb tid ps r)"
  by (simp add: advanced_def)

lemma advanced_send:
  assumes "to_rename unb tid r = p # ps" and "\<not> has (h p) Squashed" and "same_insts h h1" and "r1 = marks r1 (set_to_rename unb tid ps r)"
    and "rename_one isa flatten tid p ((h1, s, sb, pr), r1) = Some ((h2, s2, sb2, pr2), r2)"
  shows "advanced unb tid [p] (h, r) (h2, r2)"
proof -
  have o: "same_insts h1 h2" "r2 = sent tid h1 [p] r1" using rename_one_sent [OF assms(5)] by auto
  have q: "to_rename unb tid r2 = ps" unfolding o(2) by (subst assms(4)) simp
  have "r2 = sent tid h [p] (marks r1 (set_to_rename unb tid ps r))" using o(2) assms(3,4) sent_same by metis
  then have "r2 = marks r1 (sent tid h [p] (set_to_rename unb tid ps r))" by simp
  then have "r2 = marks r2 (sent tid h [p] (set_to_rename unb tid ps r))" by (metis marks_simps(3,8))
  then show ?thesis using assms(1-3) o(1) q same_insts_trans by (auto simp: advanced_def)
qed

lemma serializeAfter_marks:
  "serializeAfter ps tid (h, r) = (h', r') \<Longrightarrow> same_insts h h' \<and> r' = marks r' r"
  by (auto simp: serializeAfter_def marks_def same_insts_status split: list.splits)

text \<open>
  The loop takes a prefix off the queue and sends its live instructions, within the width and
  the load and store credits; it may then take one more instruction to serialize on.
\<close>

definition within_credits :: "rename_params \<Rightarrow> rename_in \<Rightarrow> ThreadID \<Rightarrow> RenameStage \<Rightarrow> RenameStage \<Rightarrow> bool" where
  "within_credits P io tid r r' \<longleftrightarrow>
     (0 \<le> calcFreeLQEntries io tid r \<longrightarrow> 0 \<le> calcFreeLQEntries io tid r') \<and>
     (0 \<le> calcFreeSQEntries io tid r \<longrightarrow> 0 \<le> calcFreeSQEntries io tid r') \<and>
     length (toIEW r') \<le> max (renameWidth P) (length (toIEW r))"

definition stalled :: "bool \<Rightarrow> ThreadID \<Rightarrow> RenameStage \<Rightarrow> RenameStage \<Rightarrow> bool" where
  "stalled unb tid r r' \<longleftrightarrow> (\<exists>p ps. to_rename unb tid r = p # ps \<and> r' = marks r' ((set_to_rename unb tid ps r)
     \<lparr>renameStatus := (renameStatus r)(tid := SerializeStall), serializeInst := (serializeInst r)(tid := Some p)\<rparr>))"

lemma within_credits_refl: "r' = marks r' r \<Longrightarrow> within_credits P io tid r r'"
  by (metis calcFreeLQEntries_def calcFreeSQEntries_def marks_simps(5,14,15,16) max.cobounded2 within_credits_def)

lemma within_credits_trans:
  "within_credits P io tid r r1 \<Longrightarrow> within_credits P io tid r1 r2 \<Longrightarrow> within_credits P io tid r r2"
  by (auto simp: within_credits_def)

lemma within_credits_step:
  assumes "advanced unb tid [p] (h, r) (h1, r1)" and "length (toIEW r) < renameWidth P"
    and "\<not> (sflag (h p) IsLoad \<and> calcFreeLQEntries io tid r \<le> 0)" and "\<not> (sflag (h p) IsStore \<and> calcFreeSQEntries io tid r \<le> 0)"
  shows "within_credits P io tid r r1"
proof -
  let ?s = "sent tid h (live h [p]) (set_to_rename unb tid (to_rename unb tid r1) r)"
  have r1: "r1 = marks r1 ?s" using assms(1) by (simp add: advanced_def)
  have "within_credits P io tid r (marks r1 ?s)"
    using assms(2-4) by (auto simp: within_credits_def calcFreeLQEntries_def calcFreeSQEntries_def sent_def split: if_splits)
  then show ?thesis using r1 by metis
qed

definition loop_ok ::
  "rename_params \<Rightarrow> rename_in \<Rightarrow> bool \<Rightarrow> ThreadID \<Rightarrow> nat \<Rightarrow> inst_store \<times> RenameStage \<Rightarrow> nat \<Rightarrow> inst_store \<times> RenameStage \<Rightarrow> bool" where
  "loop_ok P io unb tid avail hr left hr' \<longleftrightarrow>
     (\<exists>pre h1 r1. advanced unb tid pre hr (h1, r1) \<and> left + length pre = avail \<and> same_insts h1 (fst hr') \<and>
        (snd hr' = marks (snd hr') r1 \<or> left > 0 \<and> stalled unb tid r1 (snd hr')) \<and> within_credits P io tid (snd hr) r1)"

lemma loop_ok_break:
  "same_insts h h' \<Longrightarrow> r' = marks r' r \<or> avail > 0 \<and> stalled unb tid r r' \<Longrightarrow> loop_ok P io unb tid avail (h, r) avail (h', r')"
  unfolding loop_ok_def using advanced_refl within_credits_refl [of r r] by (intro exI [of _ "[]"] exI [of _ h] exI [of _ r]) simp

lemma loop_ok_step:
  assumes "advanced unb tid [p] (h, r) (h1, r1)" and "within_credits P io tid r r1" and "loop_ok P io unb tid avail (h1, r1) left hr'"
  shows "loop_ok P io unb tid (Suc avail) (h, r) left hr'"
proof -
  obtain pre h2 r2 where o: "advanced unb tid pre (h1, r1) (h2, r2)" "left + length pre = avail" "same_insts h2 (fst hr')"
      "snd hr' = marks (snd hr') r2 \<or> left > 0 \<and> stalled unb tid r2 (snd hr')" "within_credits P io tid r1 r2"
    using assms(3) by (auto simp: loop_ok_def)
  have "advanced unb tid (p # pre) (h, r) (h2, r2)" using advanced_trans [OF assms(1) o(1)] by simp
  moreover have "within_credits P io tid r r2" using assms(2) o(5) by (rule within_credits_trans)
  ultimately show ?thesis unfolding loop_ok_def using o(2-4) by (intro exI [of _ "p # pre"] exI [of _ h2] exI [of _ r2]) simp
qed

lemma rename_loop_ok:
  assumes "rename_loop P isa flatten io unb tid avail ((h, s, sb, pr), r) = Some (left, (h', s', sb', pr'), r')"
  shows "loop_ok P io unb tid avail (h, r) left (h', r')"
  using assms
proof (induction avail arbitrary: h s sb pr r)
  case 0
  then show ?case by (simp add: loop_ok_break)
next
  case (Suc avail)
  show ?case
  proof (cases "renameWidth P \<le> length (toIEW r)")
    case True
    then show ?thesis using Suc.prems by (simp add: loop_ok_break)
  next
    case width: False
    obtain p ps where q: "to_rename unb tid r = p # ps" using Suc.prems width by (auto split: list.splits)
    let ?lq = "sflag (h p) IsLoad \<and> calcFreeLQEntries io tid r \<le> 0" and ?sq = "sflag (h p) IsStore \<and> calcFreeSQEntries io tid r \<le> 0"
    let ?before = "(sflag (h p) IsIprAccess \<or> isSerializeBefore (h p)) \<and> \<not> has (h p) SerializeHandled"
    have step: ?thesis if "advanced unb tid [p] (h, r) (h1, r1)" "\<not> ?lq" "\<not> ?sq"
      "rename_loop P isa flatten io unb tid avail ((h1, s1, sb1, pr1), r1) = Some (left, (h', s', sb', pr'), r')" for h1 s1 sb1 pr1 r1
      by (rule loop_ok_step [OF that(1) within_credits_step [OF that(1)] Suc.IH [OF that(4)]]) (use that(2,3) width in auto)
    consider "?lq \<or> ?sq" | "\<not> ?lq" "\<not> ?sq" "has (h p) Squashed"
      | "\<not> ?lq" "\<not> ?sq" "\<not> has (h p) Squashed" "\<not> canRename_inst (h p) (freeList s)"
      | "\<not> ?lq" "\<not> ?sq" "\<not> has (h p) Squashed" "canRename_inst (h p) (freeList s)" ?before
      | "\<not> ?lq" "\<not> ?sq" "\<not> has (h p) Squashed" "canRename_inst (h p) (freeList s)" "\<not> ?before" by argo
    then show ?thesis
    proof cases
      case 1
      then have "left = Suc avail \<and> h' = h \<and> r' = r" using Suc.prems width q by (auto split: if_splits)
      then show ?thesis by (simp add: loop_ok_break)
    next
      case 2
      then have "rename_loop P isa flatten io unb tid avail ((h, s, sb, pr), set_to_rename unb tid ps r) = Some (left, (h', s', sb', pr'), r')"
        using Suc.prems width q by (simp split: if_splits)
      then show ?thesis using step advanced_skip [where h = h, OF q 2(3)] 2 by blast
    next
      case 3
      then have "left = Suc avail \<and> h' = h \<and> r' = r\<lparr>blockThisCycle := True\<rparr>" using Suc.prems width q by (simp split: if_splits)
      then show ?thesis by (simp add: loop_ok_break marks_def)
    next
      case 4
      then have e: "left = Suc avail" "h' = (if \<not> has (h p) SerializeBefore then upd_inst p (set_status SerializeHandled) h else h)"
          "r' = (set_to_rename unb tid ps r)\<lparr>renameStatus := (renameStatus r)(tid := SerializeStall),
             serializeInst := (serializeInst r)(tid := Some p), blockThisCycle := True\<rparr>"
        using Suc.prems width q by (simp_all split: if_splits)
      have "stalled unb tid r r'" unfolding stalled_def e(3) using q by (simp add: marks_def set_to_rename_def)
      then show ?thesis using e(1,2) by (simp add: loop_ok_break same_insts_status)
    next
      case 5
      obtain h1 r1 where hr: "(if (sflag (h p) IsStoreConditional \<or> isSerializeAfter (h p)) \<and> \<not> has (h p) SerializeHandled
            then serializeAfter ps tid (upd_inst p (set_status SerializeHandled) h, set_to_rename unb tid ps r)
            else (h, set_to_rename unb tid ps r)) = (h1, r1)" by force
      then have h1: "same_insts h h1" "r1 = marks r1 (set_to_rename unb tid ps r)"
        using serializeAfter_marks same_insts_status(1) [of SerializeHandled h p] same_insts_trans by (auto split: if_splits) (blast+)?
      obtain h2 s2 sb2 pr2 r2 where o: "rename_one isa flatten tid p ((h1, s, sb, pr), r1) = Some ((h2, s2, sb2, pr2), r2)"
          "rename_loop P isa flatten io unb tid avail ((h2, s2, sb2, pr2), r2) = Some (left, (h', s', sb', pr'), r')"
        using Suc.prems width q 5 hr by (auto simp: Let_def bind_eq_Some_conv split: prod.splits)
      show ?thesis using step [OF advanced_send [where h = h, OF q 5(3) h1 o(1)] _ _ o(2)] 5 by blast
    qed
  qed
qed

section \<open>Progress of a thread\<close>

text \<open>The instructions of a thread that rename holds, oldest first.\<close>

definition pending :: "RenameStage \<Rightarrow> ThreadID \<Rightarrow> inst_ptr list" where
  "pending r t = (case serializeInst r t of None \<Rightarrow> [] | Some p \<Rightarrow> [p]) @ skidBuffer r t @ insts r t"

definition thread_inv :: "RenameStage \<Rightarrow> ThreadID \<Rightarrow> bool" where
  "thread_inv r t \<longleftrightarrow> \<not> resumeSerialize r \<and> \<not> resumeUnblocking r \<and>
     (serializeInst r t \<noteq> None \<longleftrightarrow> renameStatus r t = SerializeStall) \<and>
     (renameStatus r t \<in> {ThreadRunning, ThreadIdle, Squashing} \<longrightarrow> skidBuffer r t = [])"

text \<open>Nothing that belongs to another thread changes.\<close>

definition frame :: "ThreadID \<Rightarrow> RenameStage \<Rightarrow> RenameStage \<Rightarrow> bool" where
  "frame t r r' \<longleftrightarrow> resumeSerialize r' = resumeSerialize r \<and> resumeUnblocking r' = resumeUnblocking r \<and>
     (\<forall>u. u \<noteq> t \<longrightarrow> insts r' u = insts r u \<and> skidBuffer r' u = skidBuffer r u \<and> serializeInst r' u = serializeInst r u \<and>
        renameStatus r' u = renameStatus r u)"

lemma frame_refl [simp]: "frame t r r"
  by (simp add: frame_def)

lemma frame_trans: "frame t r r1 \<Longrightarrow> frame t r1 r2 \<Longrightarrow> frame t r r2"
  by (simp add: frame_def)

definition progress :: "ThreadID \<Rightarrow> inst_store \<times> RenameStage \<Rightarrow> inst_store \<times> RenameStage \<Rightarrow> bool" where
  "progress t hr hr' \<longleftrightarrow> (case (hr, hr') of ((h, r), (h', r')) \<Rightarrow>
     same_insts h h' \<and> frame t r r' \<and>
     (\<exists>pre. pending r t = pre @ pending r' t \<and> toIEW r' = toIEW r @ live h pre))"

lemma progress_refl: "same_insts h h' \<Longrightarrow> frame t r r' \<Longrightarrow> pending r' t = pending r t \<Longrightarrow> toIEW r' = toIEW r \<Longrightarrow> progress t (h, r) (h', r')"
  by (simp add: progress_def)

lemma progress_trans:
  assumes "progress t (h, r) (h1, r1)" and "progress t (h1, r1) (h2, r2)"
  shows "progress t (h, r) (h2, r2)"
proof -
  obtain pre where a: "same_insts h h1" "frame t r r1" "pending r t = pre @ pending r1 t" "toIEW r1 = toIEW r @ live h pre"
    using assms(1) by (auto simp: progress_def)
  obtain pre' where b: "same_insts h1 h2" "frame t r1 r2" "pending r1 t = pre' @ pending r2 t" "toIEW r2 = toIEW r1 @ live h1 pre'"
    using assms(2) by (auto simp: progress_def)
  have "pending r t = (pre @ pre') @ pending r2 t \<and> toIEW r2 = toIEW r @ live h (pre @ pre')"
    using a(3,4) b(3,4) same_insts_counts [OF a(1)] by simp
  then show ?thesis using same_insts_trans [OF a(1) b(1)] frame_trans [OF a(2) b(2)] unfolding progress_def by blast
qed

lemma skidInsert_eq:
  "skidInsert P h tid r = Some r' \<Longrightarrow> r' = r\<lparr>skidBuffer := (skidBuffer r)(tid := skidBuffer r tid @ insts r tid), insts := (insts r)(tid := [])\<rparr>"
  by (auto simp: skidInsert_def Let_def)

lemma skidInsert_pending:
  "skidInsert P h tid r = Some r' \<Longrightarrow> pending r' tid = pending r tid \<and> frame tid r r' \<and> toIEW r' = toIEW r \<and>
     renameStatus r' = renameStatus r \<and> serializeInst r' = serializeInst r"
  using skidInsert_eq [of P h tid r r'] by (simp add: pending_def frame_def)

text \<open>Blocking keeps the instructions and their order.\<close>

lemma rename_block_ok:
  assumes "rename_block P h tid r = Some (b, r')"
  shows "pending r' tid = pending r tid \<and> frame tid r r' \<and> toIEW r' = toIEW r \<and> serializeInst r' = serializeInst r \<and>
    renameStatus r' tid = (if renameStatus r tid = SerializeStall then SerializeStall else Blocked) \<and>
    instsInProgress r' = instsInProgress r \<and> loadsInProgress r' = loadsInProgress r \<and> storesInProgress r' = storesInProgress r \<and>
    rs_freeEntries r' = rs_freeEntries r"
proof -
  obtain r1 where r1: "skidInsert P h tid r = Some r1" using assms by (auto simp: rename_block_def bind_eq_Some_conv)
  note e = skidInsert_eq [OF r1] and p = skidInsert_pending [OF r1]
  have p': "pending r' tid = pending r1 tid" "frame tid r1 r'" "toIEW r' = toIEW r1" "serializeInst r' = serializeInst r1"
      "renameStatus r' tid = (if renameStatus r1 tid = SerializeStall then SerializeStall else Blocked)"
      "instsInProgress r' = instsInProgress r1 \<and> loadsInProgress r' = loadsInProgress r1 \<and> storesInProgress r' = storesInProgress r1"
      "rs_freeEntries r' = rs_freeEntries r1"
    using assms r1 by (auto simp: rename_block_def Let_def pending_def frame_def split: if_splits)
  have "frame tid r r'" using p p'(2) frame_trans by blast
  then show ?thesis using p p' e by simp
qed

lemma thread_inv_block: "rename_block P h tid r = Some (b, r') \<Longrightarrow> thread_inv r tid \<Longrightarrow> thread_inv r' tid"
  using rename_block_ok [of P h tid r b r'] by (auto simp: thread_inv_def frame_def)

text \<open>The thread is ready to rename: it is running, idle or unblocking.\<close>

definition ready_to_rename :: "RenameStage \<Rightarrow> ThreadID \<Rightarrow> bool" where
  "ready_to_rename r t \<longleftrightarrow> renameStatus r t \<in> {ThreadRunning, ThreadIdle, Unblocking}"

lemma pending_ready:
  assumes "thread_inv r t" and "ready_to_rename r t" and "unb = (renameStatus r t = Unblocking)"
  shows "pending r t = to_rename unb t r @ (if unb then insts r t else []) \<and> (\<not> unb \<longrightarrow> skidBuffer r t = []) \<and> serializeInst r t = None"
  using assms by (auto simp: pending_def thread_inv_def ready_to_rename_def to_rename_def)

lemma advanced_progress:
  assumes inv: "thread_inv r t" "ready_to_rename r t" "unb = (renameStatus r t = Unblocking)" and a: "advanced unb t pre (h, r) (h1, r1)"
  shows "progress t (h, r) (h1, r1) \<and> renameStatus r1 = renameStatus r \<and> serializeInst r1 = serializeInst r \<and> thread_inv r1 t \<and>
    instsInProgress r1 = instsInProgress r \<and> rs_freeEntries r1 = rs_freeEntries r \<and> toIEW r1 = toIEW r @ live h pre"
proof -
  let ?s = "marks r1 (sent t h (live h pre) (set_to_rename unb t (to_rename unb t r1) r))"
  have o: "same_insts h h1" "to_rename unb t r = pre @ to_rename unb t r1" and r1: "r1 = ?s" using a by (auto simp: advanced_def)
  have f: "frame t r ?s" "toIEW ?s = toIEW r @ live h pre" "renameStatus ?s = renameStatus r" "serializeInst ?s = serializeInst r"
      "unb \<longrightarrow> insts ?s = insts r" "\<not> unb \<longrightarrow> skidBuffer ?s = skidBuffer r" "instsInProgress ?s = instsInProgress r"
      "rs_freeEntries ?s = rs_freeEntries r"
    by (simp_all add: frame_def set_to_rename_def)
  have f: "frame t r r1" "toIEW r1 = toIEW r @ live h pre" "renameStatus r1 = renameStatus r" "serializeInst r1 = serializeInst r"
      "unb \<longrightarrow> insts r1 = insts r" "\<not> unb \<longrightarrow> skidBuffer r1 = skidBuffer r" "instsInProgress r1 = instsInProgress r"
      "rs_freeEntries r1 = rs_freeEntries r"
    using f r1 by metis+
  note p = pending_ready [OF inv]
  have i1: "thread_inv r1 t" using inv f p by (auto simp: thread_inv_def frame_def ready_to_rename_def)
  have "pending r1 t = to_rename unb t r1 @ (if unb then insts r1 t else [])"
    using pending_ready [OF i1, of unb] inv(2,3) f(3) by (simp add: ready_to_rename_def)
  then have "pending r t = pre @ pending r1 t" using p o(2) f(5) by simp
  then show ?thesis using o(1) f i1 by (auto simp: progress_def)
qed

lemma stalled_ok:
  assumes inv: "thread_inv r t" "ready_to_rename r t" "unb = (renameStatus r t = Unblocking)" and st: "stalled unb t r r'" and h: "same_insts h h'"
  shows "progress t (h, r) (h', r') \<and> thread_inv r' t \<and> renameStatus r' t = SerializeStall \<and> instsInProgress r' = instsInProgress r \<and>
    rs_freeEntries r' = rs_freeEntries r \<and> toIEW r' = toIEW r \<and> loadsInProgress r' = loadsInProgress r \<and> storesInProgress r' = storesInProgress r"
proof -
  obtain p ps where q: "to_rename unb t r = p # ps" and r': "r' = marks r' ((set_to_rename unb t ps r)
     \<lparr>renameStatus := (renameStatus r)(t := SerializeStall), serializeInst := (serializeInst r)(t := Some p)\<rparr>)"
    using st by (auto simp: stalled_def)
  let ?s = "marks r' ((set_to_rename unb t ps r)
     \<lparr>renameStatus := (renameStatus r)(t := SerializeStall), serializeInst := (serializeInst r)(t := Some p)\<rparr>)"
  note pr = pending_ready [OF inv]
  have "pending ?s t = pending r t" using pr q by (auto simp: pending_def to_rename_def set_to_rename_def)
  moreover have "frame t r ?s" "toIEW ?s = toIEW r" by (simp_all add: frame_def set_to_rename_def)
  moreover have "thread_inv ?s t" using inv(1) by (simp add: thread_inv_def)
  moreover have "instsInProgress ?s = instsInProgress r" "rs_freeEntries ?s = rs_freeEntries r" "renameStatus ?s t = SerializeStall"
    "loadsInProgress ?s = loadsInProgress r" "storesInProgress ?s = storesInProgress r" by (simp_all add: set_to_rename_def)
  ultimately have "progress t (h, r) (h', ?s) \<and> thread_inv ?s t \<and> renameStatus ?s t = SerializeStall \<and> instsInProgress ?s = instsInProgress r \<and>
    rs_freeEntries ?s = rs_freeEntries r \<and> toIEW ?s = toIEW r \<and> loadsInProgress ?s = loadsInProgress r \<and> storesInProgress ?s = storesInProgress r"
    using progress_refl [OF h] by simp
  then show ?thesis using r' by metis
qed

lemma within_credits_same:
  "within_credits P io t r r1 \<Longrightarrow> toIEW r' = toIEW r1 \<Longrightarrow> rs_freeEntries r' = rs_freeEntries r1 \<Longrightarrow>
     loadsInProgress r' = loadsInProgress r1 \<Longrightarrow> storesInProgress r' = storesInProgress r1 \<Longrightarrow> within_credits P io t r r'"
  by (simp add: within_credits_def calcFreeLQEntries_def calcFreeSQEntries_def)

lemma loop_result:
  assumes inv: "thread_inv r t" "ready_to_rename r t" "unb = (renameStatus r t = Unblocking)"
    and l: "loop_ok P io unb t avail (h, r) left (h', r')"
  shows "progress t (h, r) (h', r') \<and> thread_inv r' t \<and> instsInProgress r' = instsInProgress r \<and> rs_freeEntries r' = rs_freeEntries r \<and>
    within_credits P io t r r' \<and> length (toIEW r') + left \<le> length (toIEW r) + avail \<and> renameStatus r' t \<in> {renameStatus r t, SerializeStall}"
proof -
  obtain pre h1 r1 where a: "advanced unb t pre (h, r) (h1, r1)" "left + length pre = avail" "same_insts h1 h'"
      "r' = marks r' r1 \<or> stalled unb t r1 r'" "within_credits P io t r r1"
    using l by (auto simp: loop_ok_def)
  note p = advanced_progress [OF inv a(1)]
  have len: "length (toIEW r1) + left \<le> length (toIEW r) + avail" using p a(2) live_length [of h pre] by simp
  have inv1: "thread_inv r1 t" "ready_to_rename r1 t" "unb = (renameStatus r1 t = Unblocking)" using p inv by (auto simp: ready_to_rename_def)
  from a(4) have s: "progress t (h1, r1) (h', r') \<and> thread_inv r' t \<and> instsInProgress r' = instsInProgress r1 \<and> rs_freeEntries r' = rs_freeEntries r1 \<and>
      toIEW r' = toIEW r1 \<and> loadsInProgress r' = loadsInProgress r1 \<and> storesInProgress r' = storesInProgress r1 \<and>
      renameStatus r' t \<in> {renameStatus r1 t, SerializeStall}"
  proof
    assume r': "r' = marks r' r1"
    have "progress t (h1, r1) (h', marks r' r1) \<and> thread_inv (marks r' r1) t"
      using progress_refl [OF a(3), of t r1 "marks r' r1"] inv1(1) by (simp add: frame_def pending_def thread_inv_def)
    then show ?thesis using r' marks_simps by (metis insertI1)
  qed (use stalled_ok [OF inv1 _ a(3)] in blast)
  have "within_credits P io t r r'" using within_credits_same [OF a(5)] s by blast
  then show ?thesis using p s len progress_trans [of t h r h1 r1 h' r'] by simp
qed

lemma serialize_next_marks: "serialize_next unb t (h, r) = (h', r') \<Longrightarrow> same_insts h h' \<and> r' = marks r' r"
  by (auto simp: serialize_next_def marks_def same_insts_status split: if_splits list.splits)

text \<open>The credits of all four structures.\<close>

definition credits_kept :: "rename_params \<Rightarrow> rename_in \<Rightarrow> ThreadID \<Rightarrow> RenameStage \<Rightarrow> RenameStage \<Rightarrow> bool" where
  "credits_kept P io t r r' \<longleftrightarrow> within_credits P io t r r' \<and>
     (0 \<le> calcFreeROBEntries io t r \<longrightarrow> 0 \<le> calcFreeROBEntries io t r') \<and>
     (0 \<le> calcFreeIQEntries io t r \<longrightarrow> 0 \<le> calcFreeIQEntries io t r') \<and>
     instsInProgress r' t = instsInProgress r t + int (length (toIEW r')) - int (length (toIEW r))"

lemma credits_kept_same:
  "credits_kept P io t r r1 \<Longrightarrow> toIEW r' = toIEW r1 \<Longrightarrow> rs_freeEntries r' = rs_freeEntries r1 \<Longrightarrow> instsInProgress r' = instsInProgress r1 \<Longrightarrow>
     loadsInProgress r' = loadsInProgress r1 \<Longrightarrow> storesInProgress r' = storesInProgress r1 \<Longrightarrow> credits_kept P io t r r'"
  using within_credits_same [of P io t r r1 r'] by (auto simp: credits_kept_def calcFreeROBEntries_def calcFreeIQEntries_def)

lemma credits_kept_refl: "credits_kept P io t r r"
  using within_credits_refl [of r r] by (simp add: credits_kept_def)

lemma marks_progress:
  assumes "r' = marks r' r" and "same_insts h h'"
  shows "progress t (h, r) (h', r') \<and> (thread_inv r t \<longrightarrow> thread_inv r' t) \<and> renameStatus r' = renameStatus r \<and> toIEW r' = toIEW r \<and>
    rs_freeEntries r' = rs_freeEntries r \<and> instsInProgress r' = instsInProgress r \<and> loadsInProgress r' = loadsInProgress r \<and>
    storesInProgress r' = storesInProgress r \<and> to_rename unb t r' = to_rename unb t r"
proof -
  have "progress t (h, r) (h', marks r' r) \<and> (thread_inv r t \<longrightarrow> thread_inv (marks r' r) t)"
    using progress_refl [OF assms(2), of t r "marks r' r"] by (simp add: frame_def pending_def thread_inv_def)
  then show ?thesis using assms(1) marks_simps by metis
qed

lemma finish_ok:
  assumes f: "finish_rename P h t k left r = Some r'" and inv: "thread_inv r t"
  shows "progress t (h, r) (h, r') \<and> thread_inv r' t \<and> toIEW r' = toIEW r \<and> rs_freeEntries r' = rs_freeEntries r \<and>
    loadsInProgress r' = loadsInProgress r \<and> storesInProgress r' = storesInProgress r \<and>
    instsInProgress r' t = instsInProgress r t + int (length (toIEW r) - k) \<and> renameStatus r' t \<in> {renameStatus r t, Blocked}"
proof -
  let ?same = "\<lambda>r1. pending r1 t = pending r t \<and> frame t r r1 \<and> thread_inv r1 t \<and> toIEW r1 = toIEW r \<and> rs_freeEntries r1 = rs_freeEntries r \<and>
    loadsInProgress r1 = loadsInProgress r \<and> storesInProgress r1 = storesInProgress r \<and> instsInProgress r1 t = instsInProgress r t + int (length (toIEW r) - k) \<and>
    renameStatus r1 t \<in> {renameStatus r t, Blocked}"
  define r1 where "r1 = (let r = r\<lparr>instsInProgress := (instsInProgress r)(t := instsInProgress r t + int (length (toIEW r) - k))\<rparr>;
    r = (if toIEW r \<noteq> [] then r\<lparr>wroteToTimeBuffer := True\<rparr> else r) in if left \<noteq> 0 then r\<lparr>blockThisCycle := True\<rparr> else r)"
  have 1: "?same r1" using inv by (simp add: r1_def Let_def pending_def frame_def thread_inv_def)
  have "?same r'"
  proof (cases "blockThisCycle r1")
    case True
    then obtain b r2 where r2: "rename_block P h t r1 = Some (b, r2)" and r': "r' = r2\<lparr>renameUnblock := (renameUnblock r2)(t := False)\<rparr>"
      using f by (auto simp: finish_rename_def r1_def Let_def bind_eq_Some_conv)
    have "?same r2" using 1 rename_block_ok [OF r2] thread_inv_block [OF r2] frame_trans [of t r r1 r2] by auto
    then show ?thesis using inv by (simp add: r' pending_def frame_def thread_inv_def)
  next
    case False
    then show ?thesis using f 1 by (simp add: finish_rename_def r1_def Let_def)
  qed
  then show ?thesis using progress_refl [of h h] by simp
qed

lemma renameInsts_cases:
  assumes "renameInsts P isa flatten io t ((h, s, sb, pr), r) = Some ((h', s', sb', pr'), r')"
  defines "unb \<equiv> (renameStatus r t = Unblocking)" and "room \<equiv> min (calcFreeROBEntries io t r) (calcFreeIQEntries io t r)"
  obtains (idle) "h' = h" "r' = r"
  | (full) b where "h' = h" "rename_block P h t (r\<lparr>blockThisCycle := True\<rparr>) = Some (b, r')"
  | (some) r0 h1 r1 left s2 sb2 pr2 r2 where "0 < room" "r0 = marks r0 r" "serialize_next unb t (h, r0) = (h1, r1)"
      "rename_loop P isa flatten io unb t (nat (min (int (length (to_rename unb t r))) room)) ((h1, s, sb, pr), r1) = Some (left, (h', s2, sb2, pr2), r2)"
      "finish_rename P h' t (length (toIEW r1)) left r2 = Some r'"
proof -
  define r0 where "r0 = (if room < int (length (to_rename unb t r)) then r\<lparr>blockThisCycle := True\<rparr> else r)"
  obtain h1 r1 where sn: "serialize_next unb t (h, r0) = (h1, r1)" by force
  have r0: "r0 = marks r0 r" by (simp add: r0_def marks_def)
  consider "to_rename unb t r = []" | "to_rename unb t r \<noteq> []" "room \<le> 0" | "to_rename unb t r \<noteq> []" "0 < room" by linarith
  then show thesis
  proof cases
    case 1
    then have "h' = h \<and> r' = r" using assms(1) by (simp add: renameInsts_def unb_def Let_def)
    then show thesis using idle by blast
  next
    case 2
    then show thesis using assms(1) full by (auto simp: renameInsts_def unb_def room_def Let_def bind_eq_Some_conv)
  next
    case 3
    then obtain left h2 s2 sb2 pr2 r2 where "rename_loop P isa flatten io unb t (nat (min (int (length (to_rename unb t r))) room)) ((h1, s, sb, pr), r1) =
        Some (left, (h2, s2, sb2, pr2), r2)" "finish_rename P h2 t (length (toIEW r1)) left r2 = Some r'" "h' = h2"
      using assms(1) sn by (auto simp: renameInsts_def unb_def [symmetric] room_def [symmetric] r0_def [symmetric] Let_def bind_eq_Some_conv)
    then show thesis using some [OF 3(2) r0 sn] by blast
  qed
qed

lemma renameInsts_ok:
  assumes i: "renameInsts P isa flatten io t ((h, s, sb, pr), r) = Some ((h', s', sb', pr'), r')"
    and inv: "thread_inv r t" "ready_to_rename r t"
  shows "progress t (h, r) (h', r') \<and> thread_inv r' t \<and> credits_kept P io t r r' \<and>
    renameStatus r' t \<in> {renameStatus r t, Blocked, SerializeStall}"
  using i
proof (cases rule: renameInsts_cases)
  case idle
  then show ?thesis using inv(1) by (simp add: progress_refl credits_kept_refl)
next
  case (full b)
  let ?r = "r\<lparr>blockThisCycle := True\<rparr>"
  have inv': "thread_inv ?r t" using inv(1) by (simp add: thread_inv_def)
  note k = rename_block_ok [OF full(2)]
  have "progress t (h, r) (h', r')"
    using k full(1) by (intro progress_refl) (auto simp: pending_def frame_def)
  then show ?thesis using thread_inv_block [OF full(2) inv'] credits_kept_same [OF credits_kept_refl, of r'] k by simp
next
  case (some r0 h1 r1 left s2 sb2 pr2 r2)
  let ?unb = "renameStatus r t = Unblocking" and ?room = "min (calcFreeROBEntries io t r) (calcFreeIQEntries io t r)"
  note m0 = marks_progress [OF some(2) same_insts_refl, where t = t] and n = serialize_next_marks [OF some(3)]
  note m1 = marks_progress [OF n [THEN conjunct2] n [THEN conjunct1], where t = t]
  have inv1: "thread_inv r1 t" "ready_to_rename r1 t" "?unb = (renameStatus r1 t = Unblocking)"
    using m0 m1 inv by (auto simp: ready_to_rename_def)
  note l = loop_result [OF inv1 rename_loop_ok [OF some(4)]]
  note f = finish_ok [OF some(5) l [THEN conjunct2, THEN conjunct1]]
  have p: "progress t (h, r) (h', r')" using m0 m1 l f progress_trans by metis
  have eq: "toIEW r1 = toIEW r" "rs_freeEntries r1 = rs_freeEntries r" "instsInProgress r1 = instsInProgress r"
      "loadsInProgress r1 = loadsInProgress r" "storesInProgress r1 = storesInProgress r" using m0 m1 by simp_all
  have "within_credits P io t r1 r2" using l by simp
  then have "within_credits P io t r r2" using eq by (simp add: within_credits_def calcFreeLQEntries_def calcFreeSQEntries_def)
  then have w: "within_credits P io t r r'" using within_credits_same f by blast
  have grow: "length (toIEW r) \<le> length (toIEW r')" using p by (auto simp: progress_def)
  have inp: "instsInProgress r' t = instsInProgress r t + int (length (toIEW r') - length (toIEW r))" using f l eq by simp
  have "length (toIEW r') \<le> length (toIEW r) + nat (min (int (length (to_rename ?unb t r))) ?room)" using l f eq by simp
  then have "int (length (toIEW r')) \<le> int (length (toIEW r)) + ?room" using some(1) by linarith
  then have "0 \<le> calcFreeROBEntries io t r'" "0 \<le> calcFreeIQEntries io t r'"
    using inp grow f l eq by (auto simp: calcFreeROBEntries_def calcFreeIQEntries_def)
  moreover have "renameStatus r' t \<in> {renameStatus r t, Blocked, SerializeStall}" using m0 m1 l f by auto
  ultimately show ?thesis using p f w inp grow by (simp add: credits_kept_def)
qed

end
