(* ===== verification/RenameOrder.thy ===== *)
theory RenameOrder
  imports RenameStageOk
begin

text \<open>
  The cycle of the rename stage: the signals of the other stages, the order in which the
  instructions of each thread leave the stage, and the credits of the back end.
\<close>

section \<open>Signals\<close>

text \<open>Identities, and the squash bits of the other threads, are kept by everything, a squash included.\<close>

definition same_ids :: "ThreadID \<Rightarrow> inst_store \<Rightarrow> inst_store \<Rightarrow> bool" where
  "same_ids t h h' \<longleftrightarrow> (\<forall>q. threadNumber (h' q) = threadNumber (h q) \<and> seqNum (h' q) = seqNum (h q) \<and>
     (threadNumber (h q) \<noteq> t \<longrightarrow> (has (h' q) Squashed \<longleftrightarrow> has (h q) Squashed)))"

lemma same_insts_ids: "same_insts h h' \<Longrightarrow> same_ids t h h'"
  by (simp add: same_insts_def same_ids_def)

lemma same_ids_trans: "same_ids t h h1 \<Longrightarrow> same_ids t h1 h2 \<Longrightarrow> same_ids t h h2"
  by (simp add: same_ids_def)

lemma squash_ids: "\<forall>p\<in>set ps. threadNumber (h p) = t \<Longrightarrow> same_ids t h (fold (\<lambda>p. upd_inst p (set_status Squashed)) ps h)"
proof (induction ps arbitrary: h)
  case Nil
  then show ?case by (simp add: same_ids_def)
next
  case (Cons p ps)
  have 1: "same_ids t h (upd_inst p (set_status Squashed) h)" using Cons.prems by (auto simp: same_ids_def upd_inst_def inst_defs)
  then have "\<forall>q\<in>set ps. threadNumber (upd_inst p (set_status Squashed) h q) = t" using Cons.prems by (simp add: same_ids_def)
  from same_ids_trans [OF 1 Cons.IH [OF this]] show ?case by simp
qed

text \<open>
  A squash of a thread whose serializing instruction, if it waits for one, is younger than
  the squash.
\<close>

lemma rename_squash_ok:
  assumes q: "rename_squash isa io sn t ((h, s, sb, pr), r) = Some ((h', s', sb', pr'), r')" and inv: "thread_inv r t"
    and y: "\<And>p. serializeInst r t = Some p \<Longrightarrow> sn < seqNum (h p)"
  shows "same_ids t h h' \<and> frame t r r' \<and> thread_inv r' t \<and> pending r' t = [] \<and> toIEW r' = toIEW r \<and> renameStatus r' t = Squashing"
proof -
  let ?hit = "filter (\<lambda>p. threadNumber (h p) = t \<and> seqNum (h p) > sn) (fromDecode io)"
  obtain r1 where r1: "(if renameStatus r t = Blocked \<or> renameStatus r t = Unblocking
        then Some (r\<lparr>renameUnblock := (renameUnblock r)(t := True), resumeSerialize := False, serializeInst := (serializeInst r)(t := None)\<rparr>)
        else if renameStatus r t = SerializeStall
        then do {
          p \<leftarrow> serializeInst r t;
          if seqNum (h p) \<le> sn then Some (r\<lparr>resumeSerialize := True\<rparr>)
          else Some (r\<lparr>resumeSerialize := False, renameUnblock := (renameUnblock r)(t := True), serializeInst := (serializeInst r)(t := None)\<rparr>)
        }
        else Some r) = Some r1"
    and h': "h' = fold (\<lambda>p. upd_inst p (set_status Squashed)) ?hit h"
    and r': "r' = r1\<lparr>renameStatus := (renameStatus r1)(t := Squashing), wroteToTimeBuffer := (wroteToTimeBuffer r1 \<or> ?hit \<noteq> []),
                insts := (insts r1)(t := []), skidBuffer := (skidBuffer r1)(t := [])\<rparr>"
    using q by (auto simp only: rename_squash_def Let_def prod.case bind_eq_Some_conv option.inject prod.inject)
  have "frame t r r1 \<and> serializeInst r1 t = None \<and> toIEW r1 = toIEW r"
  proof (cases "renameStatus r t = SerializeStall")
    case True
    then obtain p where p: "serializeInst r t = Some p" using inv by (auto simp: thread_inv_def)
    then have "\<not> seqNum (h p) \<le> sn" using y by (simp add: not_le)
    then show ?thesis using r1 True p inv by (simp add: thread_inv_def) (auto simp: frame_def)
  next
    case False
    then have "serializeInst r t = None" using inv by (auto simp: thread_inv_def)
    then show ?thesis using r1 False inv by (auto simp: frame_def thread_inv_def split: if_splits)
  qed
  then have f: "frame t r r' \<and> serializeInst r' t = None \<and> insts r' t = [] \<and> skidBuffer r' t = [] \<and> toIEW r' = toIEW r \<and> renameStatus r' t = Squashing"
    by (simp add: r' frame_def)
  have "same_ids t h h'" unfolding h' by (rule squash_ids) simp
  then show ?thesis using f inv by (auto simp: thread_inv_def pending_def frame_def)
qed

lemma read_signals:
  assumes "readStallSignals io t (readFreeEntries io t r) = Some r'"
  shows "pending r' t = pending r t \<and> frame t r r' \<and> toIEW r' = toIEW r \<and> renameStatus r' = renameStatus r \<and> serializeInst r' = serializeInst r \<and>
    (thread_inv r t \<longrightarrow> thread_inv r' t)"
proof -
  obtain f e where 1: "readFreeEntries io t r = r\<lparr>rs_freeEntries := f, emptyROB := e\<rparr>" unfolding readFreeEntries_def Let_def by blast
  have "\<exists>x. r' = (readFreeEntries io t r)\<lparr>stalls_iew := x\<rparr>"
  proof (cases "iewUnblock io t")
    case True
    then show ?thesis using assms by (cases "iewBlock io t") (auto simp: readStallSignals_def Let_def split: if_splits)
  next
    case False
    then show ?thesis using assms by (cases "iewBlock io t") (auto simp: readStallSignals_def Let_def intro: exI [of _ "stalls_iew (readFreeEntries io t r)"])
  qed
  then obtain x where "r' = r\<lparr>rs_freeEntries := f, emptyROB := e, stalls_iew := x\<rparr>" unfolding 1 by auto
  then show ?thesis by (simp add: pending_def frame_def thread_inv_def)
qed

lemma rename_unblock_ok:
  "pending (snd (rename_unblock t r)) t = pending r t \<and> frame t r (snd (rename_unblock t r)) \<and> toIEW (snd (rename_unblock t r)) = toIEW r \<and>
   serializeInst (snd (rename_unblock t r)) = serializeInst r \<and> insts (snd (rename_unblock t r)) = insts r \<and>
   skidBuffer (snd (rename_unblock t r)) = skidBuffer r \<and>
   renameStatus (snd (rename_unblock t r)) t = (if skidBuffer r t = [] \<and> renameStatus r t \<noteq> SerializeStall then ThreadRunning else renameStatus r t)"
  by (simp add: rename_unblock_def pending_def frame_def)

lemma rename_unblock_inv:
  assumes "thread_inv r t"
  shows "thread_inv (snd (rename_unblock t r)) t"
proof (cases "skidBuffer r t = [] \<and> renameStatus r t \<noteq> SerializeStall")
  case True
  then show ?thesis using assms by (auto simp: rename_unblock_def thread_inv_def)
next
  case False
  then have "snd (rename_unblock t r) = r" unfolding rename_unblock_def if_not_P [OF False] by simp
  then show ?thesis using assms by simp
qed

text \<open>The end of a serialize stall puts the instruction back in front of the others.\<close>

lemma serialize_end_ok:
  assumes inv: "thread_inv r t" and st: "renameStatus r t = SerializeStall"
    and u: "u = snd (rename_unblock t (r\<lparr>renameStatus := (renameStatus r)(t := Unblocking)\<rparr>))" and p: "serializeInst u t = Some p"
    and r': "r' = (if skidBuffer u t \<noteq> [] then u\<lparr>skidBuffer := (skidBuffer u)(t := p # skidBuffer u t), serializeInst := (serializeInst u)(t := None)\<rparr>
      else u\<lparr>insts := (insts u)(t := p # insts u t), serializeInst := (serializeInst u)(t := None)\<rparr>)"
  shows "pending r' t = pending r t \<and> frame t r r' \<and> toIEW r' = toIEW r \<and> thread_inv r' t"
proof -
  let ?r = "r\<lparr>renameStatus := (renameStatus r)(t := Unblocking)\<rparr>"
  have k: "frame t ?r u" "toIEW u = toIEW r" "serializeInst u = serializeInst r" "insts u = insts r" "skidBuffer u = skidBuffer r"
      "renameStatus u t = (if skidBuffer r t = [] then ThreadRunning else Unblocking)"
    using rename_unblock_ok [of t ?r] by (simp_all add: u)
  have fr: "frame t r u" using k(1) by (simp add: frame_def)
  have "pending r' t = pending r t" using p k(3-5) by (simp add: r' pending_def)
  moreover have "frame t r r'" using fr by (simp add: r' frame_def)
  moreover have "toIEW r' = toIEW r" using k(2) by (simp add: r')
  moreover have "thread_inv r' t" using inv fr k(5,6) by (cases "skidBuffer r t = []") (simp_all add: r' thread_inv_def frame_def)
  ultimately show ?thesis by simp
qed

lemma resume_thread_ok:
  assumes c: "resume_thread t (h, r) = Some (b, h', r')" and inv: "thread_inv r t"
  shows "same_insts h h' \<and> pending r' t = pending r t \<and> frame t r r' \<and> toIEW r' = toIEW r \<and> thread_inv r' t"
proof -
  consider "renameStatus r t = Blocked" | "renameStatus r t = Squashing" | "renameStatus r t = SerializeStall"
    | "renameStatus r t \<notin> {Blocked, Squashing, SerializeStall}" by blast
  then show ?thesis
  proof cases
    case 1
    let ?r = "r\<lparr>renameStatus := (renameStatus r)(t := Unblocking)\<rparr>"
    have e: "h' = h" "r' = snd (rename_unblock t ?r)" using c 1 by (simp_all add: resume_thread_def)
    then show ?thesis using rename_unblock_ok [of t ?r] inv 1 by (auto simp: thread_inv_def frame_def pending_def)
  next
    case 2
    then have e: "h' = h" "r' = r\<lparr>renameStatus := (renameStatus r)(t := ThreadRunning)\<rparr>" using c inv by (simp_all add: thread_inv_def resume_thread_def)
    then show ?thesis using inv 2 by (simp add: thread_inv_def frame_def pending_def)
  next
    case 3
    define u where "u = snd (rename_unblock t (r\<lparr>renameStatus := (renameStatus r)(t := Unblocking)\<rparr>))"
    obtain p where p: "serializeInst u t = Some p" "h' = upd_inst p (reset_status SerializeBefore) h"
      and r': "r' = (if skidBuffer u t \<noteq> [] then u\<lparr>skidBuffer := (skidBuffer u)(t := p # skidBuffer u t), serializeInst := (serializeInst u)(t := None)\<rparr>
        else u\<lparr>insts := (insts u)(t := p # insts u t), serializeInst := (serializeInst u)(t := None)\<rparr>)"
      using c 3 by (cases "skidBuffer u t = []") (auto simp: resume_thread_def u_def [symmetric] Let_def bind_eq_Some_conv)
    show ?thesis using serialize_end_ok [OF inv 3 u_def p(1) r'] p(2) same_insts_status(2) [of SerializeBefore h p] by simp
  next
    case 4
    then have "h' = h \<and> r' = r" using c by (simp add: resume_thread_def)
    then show ?thesis using inv by simp
  qed
qed

lemma checkSignals_cases:
  assumes "checkSignalsAndUpdate P isa io t ((h, s, sb, pr), r) = Some (b, (h', s', sb', pr'), r')"
  obtains (squash) r1 where "readStallSignals io t (readFreeEntries io t r) = Some r1" "commitSquash (commitInfo io t)"
      "rename_squash isa io (doneSeqNum (commitInfo io t)) t ((h, s, sb, pr), r1) = Some ((h', s', sb', pr'), r')"
  | (block) r1 where "readStallSignals io t (readFreeEntries io t r) = Some r1" "\<not> commitSquash (commitInfo io t)"
      "rename_block P h t r1 = Some (b, r')" "h' = h"
  | (resume) r1 where "readStallSignals io t (readFreeEntries io t r) = Some r1" "\<not> commitSquash (commitInfo io t)"
      "resume_thread t (h, r1) = Some (b, h', r')"
proof (cases "readStallSignals io t (readFreeEntries io t r)")
  case None
  then show thesis using assms by (simp add: checkSignalsAndUpdate_def)
next
  case (Some r1)
  show thesis
  proof (cases "commitSquash (commitInfo io t)")
    case True
    with assms Some have "rename_squash isa io (doneSeqNum (commitInfo io t)) t ((h, s, sb, pr), r1) = Some ((h', s', sb', pr'), r')"
      by (cases "rename_squash isa io (doneSeqNum (commitInfo io t)) t ((h, s, sb, pr), r1)") (simp_all add: checkSignalsAndUpdate_def)
    then show thesis using squash [OF Some True] by blast
  next
    case False
    show thesis
    proof (cases "checkStall io s t r1")
      case True
      with assms Some False have "rename_block P h t r1 = Some (b, r') \<and> h' = h"
        by (cases "rename_block P h t r1") (simp_all add: checkSignalsAndUpdate_def split_def prod_eq_iff)
      then show thesis using block [OF Some False] by blast
    next
      case stall: False
      with assms Some False have "resume_thread t (h, r1) = Some (b, h', r')"
        by (cases "resume_thread t (h, r1)") (simp_all add: checkSignalsAndUpdate_def split_def prod_eq_iff)
      then show thesis using resume [OF Some False] by blast
    qed
  qed
qed

lemma checkSignals_ok:
  assumes c: "checkSignalsAndUpdate P isa io t ((h, s, sb, pr), r) = Some (b, (h', s', sb', pr'), r')" and inv: "thread_inv r t"
    and ns: "\<not> commitSquash (commitInfo io t)"
  shows "progress t (h, r) (h', r') \<and> thread_inv r' t"
  using c
proof (cases rule: checkSignals_cases)
  case (squash r1)
  then show ?thesis using ns by simp
next
  case (block r1)
  note g = read_signals [OF block(1)]
  have "thread_inv r1 t" using g inv by simp
  then show ?thesis using rename_block_ok [OF block(3)] thread_inv_block [OF block(3)] g block(4)
      frame_trans [of t r r1 r'] progress_refl [of h h' t r r'] by simp
next
  case (resume r1)
  note g = read_signals [OF resume(1)]
  have "thread_inv r1 t" using g inv by simp
  from resume_thread_ok [OF resume(3) this] show ?thesis using g frame_trans [of t r r1 r'] progress_refl [of h h' t r r'] by simp
qed

section \<open>A thread's cycle\<close>

lemma rename_thread_ok:
  assumes c: "rename_thread P isa flatten io t (b, (h, s, sb, pr), r) = Some (b', (h', s', sb', pr'), r')" and inv: "thread_inv r t"
  shows "progress t (h, r) (h', r') \<and> thread_inv r' t \<and> (renameStatus r t = Squashing \<longrightarrow> h' = h \<and> r' = r)"
proof -
  have res: "rename_resume P h t r = Some r" using inv by (simp add: rename_resume_def thread_inv_def)
  consider "renameStatus r t = ThreadRunning \<or> renameStatus r t = ThreadIdle" | "renameStatus r t = Unblocking"
    | "\<not> ready_to_rename r t" by (auto simp: ready_to_rename_def)
  then show ?thesis
  proof cases
    case 1
    then have i: "renameInsts P isa flatten io t ((h, s, sb, pr), r) = Some ((h', s', sb', pr'), r')"
      using c res by (cases "renameInsts P isa flatten io t ((h, s, sb, pr), r)") (simp_all add: rename_thread_def)
    show ?thesis using renameInsts_ok [OF i inv] 1 by (auto simp: ready_to_rename_def)
  next
    case 2
    obtain x where x: "renameInsts P isa flatten io t ((h, s, sb, pr), r) = Some x"
      using c res 2 by (cases "renameInsts P isa flatten io t ((h, s, sb, pr), r)") (simp_all add: rename_thread_def)
    obtain h1 s1 sb1 pr1 r1 where i: "renameInsts P isa flatten io t ((h, s, sb, pr), r) = Some ((h1, s1, sb1, pr1), r1)"
      unfolding x by (metis surj_pair)
    have k: "progress t (h, r) (h1, r1)" "thread_inv r1 t" "renameStatus r1 t \<in> {Unblocking, Blocked, SerializeStall}"
      using renameInsts_ok [OF i inv] 2 by (simp_all add: ready_to_rename_def)
    obtain r2 where r2: "(if validInsts io h1 \<noteq> 0 then skidInsert P h1 t r1 else Some r1) = Some r2" and e: "h' = h1" "r' = snd (rename_unblock t r2)"
    proof (cases "if validInsts io h1 \<noteq> 0 then skidInsert P h1 t r1 else Some r1")
      case None
      then show thesis using c res 2 i by (cases "validInsts io h1 = 0") (simp_all add: rename_thread_def)
    next
      case (Some a)
      then have "h' = h1 \<and> r' = snd (rename_unblock t a)"
        using c res 2 i by (cases "validInsts io h1 = 0"; cases "rename_unblock t a") (simp_all add: rename_thread_def)
      then show thesis using that Some by blast
    qed
    then have s2: "pending r2 t = pending r1 t \<and> frame t r1 r2 \<and> toIEW r2 = toIEW r1 \<and> renameStatus r2 = renameStatus r1 \<and> serializeInst r2 = serializeInst r1"
      using skidInsert_pending [of P h1 t r1 r2] by (cases "validInsts io h1 = 0") simp_all
    have inv2: "thread_inv r2 t" using s2 k(2,3) by (auto simp: thread_inv_def frame_def)
    have p1: "progress t (h1, r1) (h', r2)" using s2 e(1) by (simp add: progress_refl)
    have p2: "progress t (h', r2) (h', r')" unfolding e(2) by (rule progress_refl) (simp_all add: rename_unblock_ok)
    have "thread_inv r' t" unfolding e(2) using inv2 by (rule rename_unblock_inv)
    then show ?thesis using progress_trans [OF progress_trans [OF k(1) p1] p2] 2 by simp
  next
    case 3
    then have "h' = h \<and> r' = r" using c res by (simp add: rename_thread_def ready_to_rename_def)
    then show ?thesis using inv by (simp add: progress_refl)
  qed
qed

text \<open>Every queue holds instructions of its own thread only.\<close>

definition queue_ok :: "inst_store \<Rightarrow> RenameStage \<Rightarrow> bool" where
  "queue_ok h r \<longleftrightarrow> (\<forall>t. \<forall>p\<in>set (pending r t). threadNumber (h p) = t)"

definition of_thread :: "inst_store \<Rightarrow> ThreadID \<Rightarrow> inst_ptr list \<Rightarrow> inst_ptr list" where
  "of_thread h t ps = filter (\<lambda>p. threadNumber (h p) = t) ps"

lemma of_thread_simps [simp]: "of_thread h t [] = []" "of_thread h t (ps @ qs) = of_thread h t ps @ of_thread h t qs"
  by (simp_all add: of_thread_def)

lemma of_thread_own: "\<forall>p\<in>set ps. threadNumber (h p) = t \<Longrightarrow> of_thread h u ps = (if u = t then ps else [])"
  by (auto simp: of_thread_def filter_empty_conv)

lemma of_thread_ids: "same_ids t h h' \<Longrightarrow> of_thread h' u ps = of_thread h u ps"
  by (simp add: of_thread_def same_ids_def)

text \<open>
  What a cycle does to a thread: a squash empties its queues; otherwise a prefix of its
  instructions leaves, and those of the prefix that are not squashed are sent, in order.
\<close>

definition thread_outcome :: "rename_in \<Rightarrow> ThreadID \<Rightarrow> inst_store \<times> RenameStage \<Rightarrow> RenameStage \<Rightarrow> bool" where
  "thread_outcome io t hr r' \<longleftrightarrow> (case hr of (h, r) \<Rightarrow> thread_inv r' t \<and>
     (if commitSquash (commitInfo io t) then pending r' t = [] \<and> of_thread h t (toIEW r') = of_thread h t (toIEW r)
      else \<exists>pre. pending r t = pre @ pending r' t \<and> of_thread h t (toIEW r') = of_thread h t (toIEW r) @ live h pre))"

lemma pending_frame: "frame t r r' \<Longrightarrow> u \<noteq> t \<Longrightarrow> pending r' u = pending r u"
  by (simp add: frame_def pending_def)

lemma inv_frame: "frame t r r' \<Longrightarrow> u \<noteq> t \<Longrightarrow> thread_inv r' u = thread_inv r u"
  by (simp add: frame_def thread_inv_def)

lemma queue_ok_step:
  assumes "queue_ok h r" and "same_ids t h h'" and "frame t r r'" and "set (pending r' t) \<subseteq> set (pending r t)"
  shows "queue_ok h' r'"
  unfolding queue_ok_def
proof (intro allI ballI)
  fix u p
  assume p: "p \<in> set (pending r' u)"
  have "p \<in> set (pending r u)" using p assms(4) pending_frame [OF assms(3), of u] by (cases "u = t") auto
  then show "threadNumber (h' p) = u" using assms(1,2) by (auto simp: queue_ok_def same_ids_def)
qed

lemma progress_outcome:
  assumes p: "progress t (h, r) (h', r')" and q: "queue_ok h r" and i: "thread_inv r' t" and ns: "\<not> commitSquash (commitInfo io t)"
  shows "same_ids t h h' \<and> frame t r r' \<and> thread_outcome io t (h, r) r' \<and> queue_ok h' r' \<and>
    (\<forall>u. u \<noteq> t \<longrightarrow> of_thread h u (toIEW r') = of_thread h u (toIEW r))"
proof -
  obtain pre where a: "same_insts h h'" "frame t r r'" "pending r t = pre @ pending r' t" "toIEW r' = toIEW r @ live h pre"
    using p by (auto simp: progress_def)
  have own: "\<forall>p\<in>set (live h pre). threadNumber (h p) = t" using q a(3) by (auto simp: queue_ok_def live_def)
  have "queue_ok h' r'" using queue_ok_step [OF q same_insts_ids [OF a(1)] a(2)] a(3) by auto
  then show ?thesis using a ns i same_insts_ids [OF a(1)] of_thread_own [OF own] by (auto simp: thread_outcome_def)
qed

lemma rename_tick_thread_ok:
  assumes c: "rename_tick_thread P isa flatten io t (b, (h, s, sb, pr), r) = Some (b', (h', s', sb', pr'), r')"
    and inv: "thread_inv r t" and q: "queue_ok h r"
    and y: "\<And>p. commitSquash (commitInfo io t) \<Longrightarrow> serializeInst r t = Some p \<Longrightarrow> doneSeqNum (commitInfo io t) < seqNum (h p)"
  shows "same_ids t h h' \<and> frame t r r' \<and> thread_outcome io t (h, r) r' \<and> queue_ok h' r' \<and>
    (\<forall>u. u \<noteq> t \<longrightarrow> of_thread h u (toIEW r') = of_thread h u (toIEW r))"
proof -
  obtain x where x: "checkSignalsAndUpdate P isa io t ((h, s, sb, pr), r) = Some x"
    using c by (cases "checkSignalsAndUpdate P isa io t ((h, s, sb, pr), r)") (simp_all add: rename_tick_thread_def)
  obtain b1 h1 s1 sb1 pr1 r1 where k: "checkSignalsAndUpdate P isa io t ((h, s, sb, pr), r) = Some (b1, (h1, s1, sb1, pr1), r1)"
    unfolding x by (metis surj_pair)
  have rt: "rename_thread P isa flatten io t (b1 \<or> b, (h1, s1, sb1, pr1), r1) = Some (b', (h', s', sb', pr'), r')"
    using c k by (simp add: rename_tick_thread_def)
  show ?thesis
  proof (cases "commitSquash (commitInfo io t)")
    case True
    from k obtain r0 where r0: "readStallSignals io t (readFreeEntries io t r) = Some r0"
      and sq: "rename_squash isa io (doneSeqNum (commitInfo io t)) t ((h, s, sb, pr), r0) = Some ((h1, s1, sb1, pr1), r1)"
      by (cases rule: checkSignals_cases) (use True in auto)
    note g = read_signals [OF r0]
    have o: "same_ids t h h1" "frame t r0 r1" "thread_inv r1 t" "pending r1 t = []" "toIEW r1 = toIEW r0" "renameStatus r1 t = Squashing"
      using rename_squash_ok [OF sq] g inv y True by simp_all
    have e: "h' = h1" "r' = r1" using rename_thread_ok [OF rt o(3)] o(6) by simp_all
    have f: "frame t r r1" using g o(2) frame_trans by blast
    have "queue_ok h1 r1" using queue_ok_step [OF q o(1) f] o(4) by simp
    then show ?thesis using e o g f True by (simp add: thread_outcome_def)
  next
    case False
    have p: "progress t (h, r) (h1, r1)" "thread_inv r1 t" using checkSignals_ok [OF k inv False] by auto
    have "progress t (h, r) (h', r')" "thread_inv r' t" using rename_thread_ok [OF rt p(2)] progress_trans [OF p(1)] by auto
    then show ?thesis using progress_outcome [OF _ q _ False] by blast
  qed
qed

section \<open>The cycle\<close>

definition squash_is_older :: "rename_in \<Rightarrow> ThreadID \<Rightarrow> inst_store \<times> RenameStage \<Rightarrow> bool" where
  "squash_is_older io t hr \<longleftrightarrow> (case hr of (h, r) \<Rightarrow>
     commitSquash (commitInfo io t) \<longrightarrow> (\<forall>p. serializeInst r t = Some p \<longrightarrow> doneSeqNum (commitInfo io t) < seqNum (h p)))"

definition untouched :: "ThreadID \<Rightarrow> inst_store \<times> RenameStage \<Rightarrow> RenameStage \<Rightarrow> bool" where
  "untouched u hr r' \<longleftrightarrow> (case hr of (h, r) \<Rightarrow>
     pending r' u = pending r u \<and> thread_inv r' u = thread_inv r u \<and> of_thread h u (toIEW r') = of_thread h u (toIEW r))"

text \<open>The outcome of a thread does not depend on what the other threads did before.\<close>

lemma outcome_later:
  assumes o: "thread_outcome io u (h1, r1) r'" and ids: "same_ids t h h1" and f: "frame t r r1" and u: "u \<noteq> t" and q: "queue_ok h r"
    and iew: "of_thread h u (toIEW r1) = of_thread h u (toIEW r)"
  shows "thread_outcome io u (h, r) r'"
proof -
  have p: "pending r1 u = pending r u" using pending_frame [OF f u] .
  have l: "live h1 pre = live h pre" if "pending r u = pre @ rest" for pre rest
  proof -
    have "\<forall>p\<in>set pre. threadNumber (h p) = u" using q that by (auto simp: queue_ok_def)
    then show ?thesis using ids u by (auto simp: live_def same_ids_def intro!: filter_cong)
  qed
  have e: "of_thread h1 u ps = of_thread h u ps" for ps by (rule of_thread_ids [OF ids])
  show ?thesis
  proof (cases "commitSquash (commitInfo io u)")
    case True
    then show ?thesis using o iew by (simp add: thread_outcome_def e)
  next
    case False
    then obtain pre where "pending r1 u = pre @ pending r' u" "of_thread h1 u (toIEW r') = of_thread h1 u (toIEW r1) @ live h1 pre" "thread_inv r' u"
      using o by (auto simp: thread_outcome_def)
    then show ?thesis using False iew p l [of pre "pending r' u"] by (auto simp: thread_outcome_def e)
  qed
qed

lemma outcome_kept:
  assumes "thread_outcome io t (h, r) r1" and "untouched t (h1, r1) r'" and "same_ids t h h1"
  shows "thread_outcome io t (h, r) r'"
proof -
  have "pending r' t = pending r1 t" "thread_inv r' t = thread_inv r1 t" "of_thread h t (toIEW r') = of_thread h t (toIEW r1)"
    using assms(2) of_thread_ids [OF assms(3)] by (simp_all add: untouched_def)
  then show ?thesis using assms(1) by (simp add: thread_outcome_def)
qed

lemma threads_ok:
  assumes "foldM (rename_tick_thread P isa flatten io) ts (b, (h, s, sb, pr), r) = Some (b', (h', s', sb', pr'), r')" and "distinct ts"
    and "\<forall>t\<in>set ts. thread_inv r t \<and> squash_is_older io t (h, r)" and "queue_ok h r"
  shows "queue_ok h' r' \<and> (\<forall>u. if u \<in> set ts then thread_outcome io u (h, r) r' else untouched u (h, r) r')"
  using assms
proof (induction ts arbitrary: b h s sb pr r)
  case Nil
  then show ?case by (simp add: untouched_def)
next
  case (Cons t ts)
  obtain x where x: "rename_tick_thread P isa flatten io t (b, (h, s, sb, pr), r) = Some x"
    "foldM (rename_tick_thread P isa flatten io) ts x = Some (b', (h', s', sb', pr'), r')"
    using Cons.prems(1) by (cases "rename_tick_thread P isa flatten io t (b, (h, s, sb, pr), r)") simp_all
  obtain b1 h1 s1 sb1 pr1 r1 where e: "x = (b1, (h1, s1, sb1, pr1), r1)" by (metis surj_pair)
  have y: "commitSquash (commitInfo io t) \<Longrightarrow> serializeInst r t = Some p \<Longrightarrow> doneSeqNum (commitInfo io t) < seqNum (h p)" for p
    using Cons.prems(3) by (simp add: squash_is_older_def)
  have it: "thread_inv r t" using Cons.prems(3) by simp
  have o: "same_ids t h h1" "frame t r r1" "thread_outcome io t (h, r) r1" "queue_ok h1 r1"
      "\<forall>u. u \<noteq> t \<longrightarrow> of_thread h u (toIEW r1) = of_thread h u (toIEW r)"
    using rename_tick_thread_ok [OF x(1) [unfolded e] it Cons.prems(4) y] by blast+
  have rest: "\<forall>u\<in>set ts. thread_inv r1 u \<and> squash_is_older io u (h1, r1)"
  proof
    fix u
    assume u: "u \<in> set ts"
    then have "u \<noteq> t" using Cons.prems(2) by auto
    then have "thread_inv r1 u = thread_inv r u" "serializeInst r1 u = serializeInst r u" "\<forall>q. seqNum (h1 q) = seqNum (h q)"
      using o(1,2) inv_frame [OF o(2)] by (simp_all add: frame_def same_ids_def)
    then show "thread_inv r1 u \<and> squash_is_older io u (h1, r1)" using Cons.prems(3) u by (simp add: squash_is_older_def)
  qed
  from Cons.IH [OF x(2) [unfolded e] _ rest o(4)] Cons.prems(2)
  have IH: "queue_ok h' r'" "\<And>u. if u \<in> set ts then thread_outcome io u (h1, r1) r' else untouched u (h1, r1) r'" by simp_all
  have "if u \<in> set (t # ts) then thread_outcome io u (h, r) r' else untouched u (h, r) r'" for u
  proof (cases "u = t")
    case True
    then have "untouched t (h1, r1) r'" using IH(2) [of t] Cons.prems(2) by simp
    then show ?thesis using True outcome_kept [OF o(3) _ o(1)] by simp
  next
    case False
    show ?thesis
    proof (cases "u \<in> set ts")
      case True
      then show ?thesis using IH(2) [of u] outcome_later [OF _ o(1,2) False Cons.prems(4)] o(5) False by simp
    next
      case out: False
      have "untouched u (h1, r1) r'" using IH(2) [of u] out by simp
      then have "untouched u (h, r) r'"
        using False o(5) of_thread_ids [OF o(1)] pending_frame [OF o(2) False] inv_frame [OF o(2) False] by (simp add: untouched_def)
      then show ?thesis using False out by simp
    qed
  qed
  then show ?case using IH(1) by blast
qed

lemma sortInsts_eq: "sortInsts io h r = r\<lparr>insts := (\<lambda>t. insts r t @ of_thread h t (fromDecode io))\<rparr>"
proof -
  have "fold (\<lambda>p r. r\<lparr>insts := (insts r)(threadNumber (h p) := insts r (threadNumber (h p)) @ [p])\<rparr>) ps r =
      r\<lparr>insts := (\<lambda>t. insts r t @ of_thread h t ps)\<rparr>" for ps r
    by (induction ps arbitrary: r) (auto simp: of_thread_def fun_eq_iff intro!: RenameStage.fold_congs)
  then show ?thesis by (simp add: sortInsts_def)
qed

text \<open>The end of the cycle touches no queue.\<close>

definition same_queues :: "RenameStage \<Rightarrow> RenameStage \<Rightarrow> bool" where
  "same_queues r r' \<longleftrightarrow> pending r' = pending r \<and> toIEW r' = toIEW r \<and> thread_inv r' = thread_inv r"

lemma same_queues_status: "same_queues r (updateStatus P r)"
  by (simp add: same_queues_def updateStatus_def pending_def [abs_def] thread_inv_def [abs_def])

lemma same_queues_progress: "updateProgress io t r = Some r' \<Longrightarrow> same_queues r r'"
  by (auto simp: same_queues_def updateProgress_def Let_def pending_def [abs_def] thread_inv_def [abs_def])

lemma same_queues_tail:
  assumes "foldM (updateProgress io) ts r = Some r'"
  shows "same_queues r r'"
  using assms by (rule foldM_relation [where R = same_queues]) (use same_queues_progress in \<open>auto simp: same_queues_def\<close>)

lemma rename_tick_parts:
  assumes "rename_tick P isa flatten io ((h, s, sb, pr), r) = Some ((h', s', sb', pr'), r')"
  obtains b s1 r1 where "foldM (rename_tick_thread P isa flatten io) (rs_activeThreads P) (False, (h, s, sb, pr),
      sortInsts io h (r\<lparr>wroteToTimeBuffer := False, blockThisCycle := False, toIEW := [],
        renameBlock := (\<lambda>_. False), renameUnblock := (\<lambda>_. False)\<rparr>)) = Some (b, (h', s1, sb', pr'), r1)"
    "same_queues r1 r'"
proof -
  let ?r = "sortInsts io h (r\<lparr>wroteToTimeBuffer := False, blockThisCycle := False, toIEW := [],
        renameBlock := (\<lambda>_. False), renameUnblock := (\<lambda>_. False)\<rparr>)"
  obtain x where x: "foldM (rename_tick_thread P isa flatten io) (rs_activeThreads P) (False, (h, s, sb, pr), ?r) = Some x"
    using assms by (cases "foldM (rename_tick_thread P isa flatten io) (rs_activeThreads P) (False, (h, s, sb, pr), ?r)") (simp_all add: rename_tick_def)
  obtain b h1 s1 sb1 pr1 r1 where e: "x = (b, (h1, s1, sb1, pr1), r1)" by (metis surj_pair)
  define r2 where "r2 = (if b then updateStatus P r1 else r1)"
  have "(do { s \<leftarrow> foldM (commit_history io r2) (rs_activeThreads P) s1; r \<leftarrow> foldM (updateProgress io) [0..<rs_numThreads P] r2;
      Some ((h1, s, sb1, pr1), r) }) = Some ((h', s', sb', pr'), r')"
    using assms x by (simp add: rename_tick_def e r2_def Let_def)
  then have eq: "h1 = h'" "sb1 = sb'" "pr1 = pr'" and u: "foldM (updateProgress io) [0..<rs_numThreads P] r2 = Some r'"
    by (auto simp: bind_eq_Some_conv)
  have "same_queues r1 r2" using same_queues_status by (simp add: r2_def same_queues_def)
  then have "same_queues r1 r'" using same_queues_tail [OF u] by (simp add: same_queues_def)
  then show thesis using that x [unfolded e eq] by blast
qed

section \<open>A small stage\<close>

text \<open>One thread; decode sends an instruction without operands.\<close>

definition nop_inst :: "InstSeqNum \<Rightarrow> dyn_inst" where
  "nop_inst sn = (sample_inst sn {} {})\<lparr>staticInst := (staticInst (sample_inst sn {} {}))\<lparr>snumSrcRegs := 0, snumDestRegs := 0, snumDests := (\<lambda>_. 0)\<rparr>\<rparr>"

definition nop_params :: rename_params where
  "nop_params = \<lparr>renameWidth = 8, skidBufferMax = 16, rs_numThreads = 1, rs_activeThreads = [0]\<rparr>"

definition nop_in :: "inst_ptr list \<Rightarrow> rename_in" where
  "nop_in ps = \<lparr>fromDecode = ps,
     iewInfo = (\<lambda>_. \<lparr>freeIQEntries = 4, freeLQEntries = 4, freeSQEntries = 4, dispatchedToLQ = 0, dispatchedToSQ = 0, iew_dispatched = 0,
       usedIQ = True, usedLSQ = True\<rparr>),
     iewBlock = (\<lambda>_. False), iewUnblock = (\<lambda>_. False),
     commitInfo = (\<lambda>_. \<lparr>usedROB = True, freeROBEntries = 4, commEmptyROB = True, commitSquash = False, doneSeqNum = 0\<rparr>)\<rparr>"

definition nop_stage :: "inst_ptr list \<Rightarrow> inst_ptr list \<Rightarrow> RenameStage" where
  "nop_stage new out =
     \<lparr>rs_status = StageInactive, renameStatus = (\<lambda>_. ThreadRunning), insts = (\<lambda>_. [])(0 := new), skidBuffer = (\<lambda>_. []),
      instsInProgress = (\<lambda>_. 0)(0 := int (length out)), loadsInProgress = (\<lambda>_. 0), storesInProgress = (\<lambda>_. 0),
      rs_freeEntries = (\<lambda>_. \<lparr>iqEntries = 4, robEntries = 4, lqEntries = 4, sqEntries = 4\<rparr>), emptyROB = (\<lambda>_. True),
      stalls_iew = (\<lambda>_. False), serializeInst = (\<lambda>_. None), serializeOnNextInst = (\<lambda>_. False), blockThisCycle = False,
      resumeSerialize = False, resumeUnblocking = False, wroteToTimeBuffer = out \<noteq> [], toIEW = out,
      renameBlock = (\<lambda>_. False), renameUnblock = (\<lambda>_. False)\<rparr>"

definition nop_rename :: Rename where
  "nop_rename = \<lparr>renameMap = (\<lambda>_. sample_map Full), commitRenameMap = (\<lambda>_. sample_map Full), historyBuffer = (\<lambda>_. []),
     freeList = (\<lambda>_. [null_reg]), taintedRegs = {}\<rparr>"

definition nop_state :: rename_state where
  "nop_state = ((\<lambda>_. nop_inst 5), nop_rename, Scoreboard_init 16, (\<lambda>_. None))"

lemma nop_inst_simps [simp]:
  "threadNumber (nop_inst sn) = 0" "status (nop_inst sn) = {}" "sflags (staticInst (nop_inst sn)) = {}"
  "snumSrcRegs (staticInst (nop_inst sn)) = 0" "snumDestRegs (staticInst (nop_inst sn)) = 0" "snumDests (staticInst (nop_inst sn)) = (\<lambda>_. 0)"
  by (simp_all add: nop_inst_def)

lemmas nop_defs = nop_params_def nop_in_def nop_stage_def nop_rename_def calcFreeROBEntries_def calcFreeIQEntries_def calcFreeLQEntries_def
  calcFreeSQEntries_def

lemma nop_renameInsts:
  "renameInsts nop_params sample_isa id (nop_in [3]) 0 (nop_state, nop_stage [3] []) = Some (nop_state, nop_stage [] [3])"
  by (simp add: renameInsts_def nop_state_def nop_defs to_rename_def serialize_next_def Let_def canRename_inst_def canRename_def isSerializeBefore_def
      isSerializeAfter_def rename_one_def renameSrcRegs_def renameDestRegs_def set_to_rename_def finish_rename_def)

lemma nop_tick: "rename_tick nop_params sample_isa id (nop_in [3]) (nop_state, nop_stage [] []) = Some (nop_state, nop_stage [] [3])"
proof -
  let ?s0 = "(nop_stage [] [])\<lparr>wroteToTimeBuffer := False, blockThisCycle := False, toIEW := [], renameBlock := (\<lambda>_. False), renameUnblock := (\<lambda>_. False)\<rparr>"
  have s: "sortInsts (nop_in [3]) (\<lambda>_. nop_inst 5) ?s0 = nop_stage [3] []"
    by (simp add: sortInsts_def nop_in_def nop_stage_def)
  have c: "checkSignalsAndUpdate nop_params sample_isa (nop_in [3]) 0 (nop_state, nop_stage [3] []) = Some (False, nop_state, nop_stage [3] [])"
    by (simp add: checkSignalsAndUpdate_def nop_state_def readStallSignals_def readFreeEntries_def checkStall_def resume_thread_def nop_defs
        rm_numFreeEntries_def Let_def fun_upd_idem)
  have r: "rename_thread nop_params sample_isa id (nop_in [3]) 0 (False, nop_state, nop_stage [3] []) = Some (False, nop_state, nop_stage [] [3])"
    using nop_renameInsts by (simp add: rename_thread_def nop_state_def rename_resume_def nop_stage_def)
  have u: "updateProgress (nop_in [3]) 0 (nop_stage [] [3]) = Some (nop_stage [] [3])"
    by (simp add: updateProgress_def nop_in_def nop_stage_def Let_def fun_upd_idem)
  show ?thesis using s c r u
    by (simp add: rename_tick_def nop_state_def rename_tick_thread_def nop_params_def commit_history_def nop_in_def)
qed





end
