(* ===== verification/IntMath.thy ===== *)
theory IntMath
  imports Prelude
begin

unbundle bit_operations_syntax

text \<open>
  The integer helpers of \<open>src/custom_gem5/src/base/intmath.hh\<close> and
  \<open>base/bitfield.hh\<close> at their 64-bit width.  A C++ \<open>int\<close> that counts bits or names a bit
  position is a natural number; \<open>None\<close> is a failed \<open>assert\<close>.
\<close>

section \<open>Masks and bit fields\<close>

definition mask_bits :: "nat \<Rightarrow> Addr" where
  "mask_bits nbits = (if nbits = 64 then - 1 else push_bit nbits 1 - 1)"

text \<open>The field from bit \<open>last\<close> up to bit \<open>first\<close>, inclusive.\<close>

definition bits :: "Addr \<Rightarrow> nat \<Rightarrow> nat \<Rightarrow> Addr" where
  "bits val fst_bit lst_bit = drop_bit lst_bit val AND mask_bits (fst_bit + 1 - lst_bit)"

text \<open>
  \<open>insertBits(val, first, last, bit_val)\<close>; the code calls it with \<open>first = last - 1\<close>, which
  inserts nothing, so the first argument is the number of bits \<open>first - last + 1\<close>.
\<close>

definition insertBits :: "Addr \<Rightarrow> nat \<Rightarrow> nat \<Rightarrow> Addr \<Rightarrow> Addr" where
  "insertBits val nbits lst_bit bit_val =
     (let bmask = push_bit lst_bit (mask_bits nbits)
      in (push_bit lst_bit bit_val AND bmask) OR (val AND NOT bmask))"

section \<open>Powers of two and rounding\<close>

definition leastSigBit_Addr :: "Addr \<Rightarrow> Addr" where
  "leastSigBit_Addr n = n AND NOT (n - 1)"

definition isPowerOf2_Addr :: "Addr \<Rightarrow> bool" where
  "isPowerOf2_Addr n = (n \<noteq> 0 \<and> leastSigBit_Addr n = n)"

definition log2_step :: "Addr \<Rightarrow> nat \<Rightarrow> nat \<times> Addr \<Rightarrow> nat \<times> Addr" where
  "log2_step m k yx = (case yx of (y, x) \<Rightarrow>
     if x AND m \<noteq> 0 then (y + k, drop_bit k x) else (y, x))"

definition floorLog2 :: "Addr \<Rightarrow> nat option" where
  "floorLog2 x = do {
     assert_that (x > 0);
     Some (fst (log2_step 0x2 1
           (log2_step 0xc 2
           (log2_step 0xf0 4
           (log2_step 0xff00 8
           (log2_step 0xffff0000 16
           (log2_step 0xffffffff00000000 32 (0, x))))))))
   }"

definition divCeil :: "int \<Rightarrow> int \<Rightarrow> int" where
  "divCeil a b = (a + b - 1) div b"

definition roundDown :: "Addr \<Rightarrow> Addr \<Rightarrow> Addr" where
  "roundDown val align = val AND NOT (align - 1)"

definition roundUp :: "Addr \<Rightarrow> Addr \<Rightarrow> Addr" where
  "roundUp val align = (val + (align - 1)) AND NOT (align - 1)"

section \<open>What the helpers compute\<close>

lemma mask_bits_eq: "n \<le> 64 \<Longrightarrow> mask_bits n = mask n"
  by (auto simp: mask_bits_def mask_eq_exp_minus_1 push_bit_eq_mult)

lemma bit_bits:
  assumes "lo \<le> hi" and "hi < 64"
  shows "bit (bits val hi lo) i = (i \<le> hi - lo \<and> bit val (lo + i))"
  using assms by (auto simp: bits_def mask_bits_eq bit_simps Suc_diff_le dest: bit_imp_le_length)

lemma bit_insertBits:
  assumes "nbits \<le> 64" and "i < 64"
  shows "bit (insertBits val nbits lo v) i =
         (if lo \<le> i \<and> i < lo + nbits then bit v (i - lo) else bit val i)"
  using assms by (auto simp: insertBits_def Let_def mask_bits_eq bit_simps)

lemma take_bit_eq_self_unat: "(take_bit n x = x) = (unat x < 2 ^ n)"
  for x :: Addr
  by (metis take_bit_nat_eq_self_iff unsigned_take_bit_eq unsigned_word_eqI)

text \<open>One comparison of \<open>floorLog2\<close>: the masked bits are all clear exactly below the power of two.\<close>

lemma and_field_eq_0:
  fixes x m :: Addr
  assumes "m = push_bit lo (mask (hi - lo))" and "unat x < 2 ^ hi" and "hi \<le> 64"
  shows "(x AND m = 0) = (unat x < 2 ^ lo)"
proof -
  have "take_bit hi x = x" using assms(2) by (simp add: take_bit_eq_self_unat)
  then have clear: "\<not> bit x i" if "hi \<le> i" for i
    using that by (metis bit_take_bit_iff not_le)
  have "bit m i = (lo \<le> i \<and> i < hi)" for i
    using assms(1,3) by (auto simp: bit_simps)
  then have "bit (x AND m) i = (lo \<le> i \<and> bit x i)" for i
    using clear by (metis bit_and_iff not_le)
  then have "(x AND m = 0) = (\<forall>i. lo \<le> i \<longrightarrow> \<not> bit x i)"
    by (metis bit_eqI bit_0_eq bot_apply bot_bool_def)
  also have "\<dots> = (take_bit lo x = x)"
    by (metis bit_eqI bit_take_bit_iff not_le)
  finally show ?thesis by (simp add: take_bit_eq_self_unat)
qed

text \<open>
  The state of \<open>floorLog2\<close> between two comparisons: \<open>x\<close> is the argument shifted right by \<open>y\<close> and
  has at most \<open>w\<close> significant bits.
\<close>

definition log2_inv :: "Addr \<Rightarrow> nat \<Rightarrow> nat \<times> Addr \<Rightarrow> bool" where
  "log2_inv X w yx = (case yx of (y, x) \<Rightarrow> 0 < unat x \<and> unat x < 2 ^ w \<and> unat X div 2 ^ y = unat x)"

lemma log2_step_inv:
  assumes inv: "log2_inv X (2 * k) yx" and m: "m = push_bit k (mask k)" and "2 * k \<le> 64"
  shows "log2_inv X k (log2_step m k yx)"
proof -
  obtain y x where [simp]: "yx = (y, x)" by fastforce
  have lt: "0 < unat x" "unat x < 2 ^ (2 * k)" and X: "unat X div 2 ^ y = unat x"
    using inv by (auto simp: log2_inv_def)
  have field: "(x AND m = 0) = (unat x < 2 ^ k)"
    using lt(2) m assms(3) by (intro and_field_eq_0 [where hi = "2 * k"]) (auto simp: mult_2)
  show ?thesis
  proof (cases "x AND m = 0")
    case True
    with lt X field show ?thesis by (simp add: log2_inv_def log2_step_def)
  next
    case False
    have un: "unat (drop_bit k x) = unat x div 2 ^ k"
      unfolding unat_drop_bit_eq by (simp add: drop_bit_eq_div)
    have "2 ^ k \<le> unat x" using False field by simp
    moreover have "unat x div 2 ^ k < 2 ^ k"
      using lt(2) by (simp add: less_mult_imp_div_less mult_2 power_add)
    moreover have "unat X div 2 ^ (y + k) = unat x div 2 ^ k"
      by (simp add: power_add div_mult2_eq X)
    ultimately show ?thesis
      using False by (simp add: log2_inv_def log2_step_def un div_greater_zero_iff)
  qed
qed

lemma floorLog2_bounds:
  "floorLog2 x = Some y \<Longrightarrow> 2 ^ y \<le> unat x \<and> unat x < 2 ^ Suc y"
proof -
  assume "floorLog2 x = Some y"
  then have "0 < x" and y: "y = fst (log2_step 0x2 1 (log2_step 0xc 2 (log2_step 0xf0 4
      (log2_step 0xff00 8 (log2_step 0xffff0000 16 (log2_step 0xffffffff00000000 32 (0, x)))))))"
    (is "_ = fst ?yx") by (simp_all add: floorLog2_def)
  have "log2_inv x (2 * 32) (0, x)"
    using \<open>0 < x\<close> unsigned_less [of x] by (simp add: log2_inv_def word_gt_0 unat_gt_0)
  then have "log2_inv x 32 (log2_step 0xffffffff00000000 32 (0, x))" (is "log2_inv x _ ?a")
    by (rule log2_step_inv) (simp_all add: mask_eq_exp_minus_1 push_bit_eq_mult)
  then have "log2_inv x 16 (log2_step 0xffff0000 16 ?a)" (is "log2_inv x _ ?b")
    by (intro log2_step_inv) (simp_all add: mask_eq_exp_minus_1 push_bit_eq_mult)
  then have "log2_inv x 8 (log2_step 0xff00 8 ?b)" (is "log2_inv x _ ?c")
    by (intro log2_step_inv) (simp_all add: mask_eq_exp_minus_1 push_bit_eq_mult)
  then have "log2_inv x 4 (log2_step 0xf0 4 ?c)" (is "log2_inv x _ ?d")
    by (intro log2_step_inv) (simp_all add: mask_eq_exp_minus_1 push_bit_eq_mult)
  then have "log2_inv x 2 (log2_step 0xc 2 ?d)" (is "log2_inv x _ ?e")
    by (intro log2_step_inv) (simp_all add: mask_eq_exp_minus_1 push_bit_eq_mult)
  then have "log2_inv x 1 ?yx"
    by (intro log2_step_inv) (simp_all add: mask_eq_exp_minus_1 push_bit_eq_mult)
  then have "unat x div 2 ^ y = 1" unfolding y by (auto simp: log2_inv_def split: prod.splits)
  then show ?thesis
    using div_times_less_eq_dividend [of "unat x" "2 ^ y"]
      dividend_less_times_div [of "2 ^ y" "unat x"] by simp
qed

lemma floorLog2_eq_Some: "(floorLog2 x = Some y) = (2 ^ y \<le> unat x \<and> unat x < 2 ^ Suc y)"
proof
  assume *: "2 ^ y \<le> unat x \<and> unat x < 2 ^ Suc y"
  then have "0 < unat x" by (meson less_le_trans zero_less_numeral zero_less_power)
  then have "0 < x" by (simp add: word_gt_0 unat_gt_0)
  then obtain z where z: "floorLog2 x = Some z" by (simp add: floorLog2_def)
  then have "2 ^ z < (2 :: nat) ^ Suc y" and "2 ^ y < (2 :: nat) ^ Suc z"
    using * floorLog2_bounds [OF z] by linarith+
  then have "z = y" by (simp add: power_strict_increasing_iff del: power_Suc)
  with z show "floorLog2 x = Some y" by simp
qed (rule floorLog2_bounds)

lemma bit_floorLog2:
  assumes "2 ^ y \<le> unat x" and "unat x < 2 ^ Suc y"
  shows "bit (x :: Addr) y"
proof -
  have "unat x div 2 ^ y = 1"
    using assms by (intro div_nat_eqI) simp_all
  moreover have "bit x y = bit (unat x) y"
    by (metis bit_unsigned_iff bit_imp_possible_bit possible_bit_nat possible_bit_word bit_imp_le_length)
  ultimately show ?thesis by (simp add: bit_iff_odd)
qed

text \<open>\<open>isPowerOf2_Addr\<close> recognises exactly the powers of two of the word.\<close>

lemma isPowerOf2_Addr_iff: "isPowerOf2_Addr n = (\<exists>k < 64. n = 2 ^ k)"
proof
  assume n: "isPowerOf2_Addr n"
  then have "0 < n" by (simp add: isPowerOf2_Addr_def word_gt_0)
  then obtain y where y: "floorLog2 n = Some y" by (simp add: floorLog2_def)
  then have b: "2 ^ y \<le> unat n" "unat n < 2 ^ Suc y" by (simp_all add: floorLog2_eq_Some)
  then have "bit n y" by (rule bit_floorLog2)
  then have "y < 64" using bit_imp_le_length by fastforce
  have "unat (n - 1) = unat n - 1" using \<open>0 < n\<close> by (simp add: unat_minus_one word_gt_0)
  have "\<not> bit (n - 1) y"
    using n \<open>bit n y\<close> by (metis bit_and_iff bit_not_iff isPowerOf2_Addr_def leastSigBit_Addr_def)
  with b have "unat n = 2 ^ y"
    using bit_floorLog2 [of y "n - 1"] \<open>unat (n - 1) = unat n - 1\<close> by fastforce
  then have "n = 2 ^ y" by (metis of_nat_numeral of_nat_power of_nat_unat ucast_id)
  with \<open>y < 64\<close> show "\<exists>k < 64. n = 2 ^ k" by blast
next
  assume "\<exists>k < 64. n = 2 ^ k"
  then obtain k where k: "k < 64" "n = 2 ^ k" by blast
  have "n AND NOT (n - 1) = n"
    unfolding k(2) mask_eq_exp_minus_1 [symmetric] by (rule bit_eqI) (auto simp: bit_simps)
  with k show "isPowerOf2_Addr n" by (simp add: isPowerOf2_Addr_def leastSigBit_Addr_def)
qed

lemma unat_exp: "k < 64 \<Longrightarrow> unat (2 ^ k :: Addr) = 2 ^ k"
proof -
  assume "k < 64"
  then have "(2 :: nat) ^ k < 2 ^ 64" by (rule power_strict_increasing) simp
  then show ?thesis using unat_of_nat [of "2 ^ k", where 'a = 64] by simp
qed

lemma uint_exp: "k < 64 \<Longrightarrow> uint (2 ^ k :: Addr) = 2 ^ k"
  by (metis of_nat_numeral of_nat_power uint_nat unat_exp)

end
