(* ===== verification/AddrRange.thy ===== *)
theory AddrRange
  imports IntMath
begin

text \<open>
  \<open>src/custom_gem5/src/base/addr_range.hh\<close>: plain and interleaved address ranges.  The 8-bit
  fields are natural numbers; the one place where their width matters, the counter of the
  merging constructor, wraps explicitly.  \<open>fatal\<close> and \<open>panic\<close> are \<open>None\<close>.
\<close>

section \<open>The class\<close>

record AddrRange =
  ar_start :: Addr
  ar_end :: Addr
  intlvHighBit :: nat
  xorHighBit :: nat
  intlvBits :: nat
  intlvMatch :: nat

definition AddrRange_empty :: AddrRange where
  "AddrRange_empty = \<lparr>ar_start = 1, ar_end = 0, intlvHighBit = 0, xorHighBit = 0, intlvBits = 0,
     intlvMatch = 0\<rparr>"

definition AddrRange_plain :: "Addr \<Rightarrow> Addr \<Rightarrow> AddrRange" where
  "AddrRange_plain s e = \<lparr>ar_start = s, ar_end = e, intlvHighBit = 0, xorHighBit = 0,
     intlvBits = 0, intlvMatch = 0\<rparr>"

definition AddrRange_intlv :: "Addr \<Rightarrow> Addr \<Rightarrow> nat \<Rightarrow> nat \<Rightarrow> nat \<Rightarrow> nat \<Rightarrow> AddrRange option" where
  "AddrRange_intlv s e high xorHigh nbits m = do {
     assert_that (\<not> (nbits \<noteq> 0 \<and> m \<ge> 2 ^ nbits));
     assert_that (\<not> (nbits \<noteq> 0 \<and> xorHigh \<noteq> 0 \<and>
       (xorHigh = high
        \<or> xorHigh > high \<and> xorHigh - high < nbits
        \<or> xorHigh < high \<and> high - xorHigh < nbits)));
     Some \<lparr>ar_start = s, ar_end = e, intlvHighBit = high, xorHighBit = xorHigh, intlvBits = nbits,
       intlvMatch = m\<rparr>
   }"

definition interleaved :: "AddrRange \<Rightarrow> bool" where
  "interleaved r = (intlvBits r \<noteq> 0)"

definition hashed :: "AddrRange \<Rightarrow> bool" where
  "hashed r = (interleaved r \<and> xorHighBit r \<noteq> 0)"

definition range_size :: "AddrRange \<Rightarrow> Addr" where
  "range_size r = drop_bit (intlvBits r) (ar_end r - ar_start r + 1)"

definition granularity :: "AddrRange \<Rightarrow> Addr" where
  "granularity r =
     (if interleaved r
      then (let intlv_low_bit = intlvHighBit r + 1 - intlvBits r in
        if hashed r
        then (let xor_low_bit = xorHighBit r + 1 - intlvBits r
              in push_bit (min intlv_low_bit xor_low_bit) 1)
        else push_bit intlv_low_bit 1)
      else range_size r)"

definition stripes :: "AddrRange \<Rightarrow> nat" where
  "stripes r = 2 ^ intlvBits r"

definition range_valid :: "AddrRange \<Rightarrow> bool" where
  "range_valid r = (ar_start r \<le> ar_end r)"

definition mergesWith :: "AddrRange \<Rightarrow> AddrRange \<Rightarrow> bool" where
  "mergesWith this r = (ar_start r = ar_start this \<and> ar_end r = ar_end this \<and>
     intlvHighBit r = intlvHighBit this \<and> xorHighBit r = xorHighBit this \<and>
     intlvBits r = intlvBits this)"

definition contains :: "AddrRange \<Rightarrow> Addr \<Rightarrow> bool" where
  "contains r a =
     (let in_range = a \<ge> ar_start r \<and> a \<le> ar_end r in
      if \<not> interleaved r then in_range
      else if in_range then
        if \<not> hashed r
        then bits a (intlvHighBit r) (intlvHighBit r + 1 - intlvBits r) = word_of_nat (intlvMatch r)
        else bits a (intlvHighBit r) (intlvHighBit r + 1 - intlvBits r)
             XOR bits a (xorHighBit r) (xorHighBit r + 1 - intlvBits r)
             = word_of_nat (intlvMatch r)
      else False)"

text \<open>
  The constructor that merges the stripes of one interleaved range.  The object under
  construction takes the geometry of the first stripe before \<open>mergesWith\<close> is called on it.
\<close>

definition merge_step :: "AddrRange \<Rightarrow> AddrRange \<Rightarrow> nat \<Rightarrow> nat option" where
  "merge_step this r m = do {
     assert_that (mergesWith this r);
     assert_that (intlvMatch r = m);
     Some ((m + 1) mod 256)
   }"

definition AddrRange_merge :: "AddrRange list \<Rightarrow> AddrRange option" where
  "AddrRange_merge ranges = (case ranges of
     [] \<Rightarrow> Some AddrRange_empty
   | r0 # _ \<Rightarrow>
       (let this = r0\<lparr>intlvMatch := 0\<rparr> in do {
         assert_that (length ranges = 2 ^ intlvBits this);
         _ \<leftarrow> foldM (merge_step this) ranges 0;
         Some (this\<lparr>intlvHighBit := 0, xorHighBit := 0, intlvBits := 0\<rparr>)
       }))"

definition intersects :: "AddrRange \<Rightarrow> AddrRange \<Rightarrow> bool option" where
  "intersects this r =
     (if ar_start this > ar_end r \<or> ar_end this < ar_start r then Some False
      else if \<not> interleaved this \<and> \<not> interleaved r then Some True
      else if range_size r = 1 then Some (contains this (ar_start r))
      else if mergesWith this r then Some (intlvMatch this = intlvMatch r)
      else None)"

definition isSubset :: "AddrRange \<Rightarrow> AddrRange \<Rightarrow> bool option" where
  "isSubset this r =
     (if interleaved this then None
      else if interleaved r
      then Some (contains r (ar_start this) \<and> contains r (ar_end this) \<and>
                 range_size this \<le> granularity r)
      else Some (ar_start this \<ge> ar_start r \<and> ar_end this \<le> ar_end r))"

definition removeIntlvBits :: "AddrRange \<Rightarrow> Addr \<Rightarrow> Addr" where
  "removeIntlvBits r a = insertBits (drop_bit (intlvBits r) a) (intlvHighBit r + 1 - intlvBits r) 0 a"

definition getOffset :: "AddrRange \<Rightarrow> Addr \<Rightarrow> Addr" where
  "getOffset r a =
     (if \<not> (a \<ge> ar_start r \<and> a \<le> ar_end r) then - 1
      else if interleaved r then removeIntlvBits r a - removeIntlvBits r (ar_start r)
      else a - ar_start r)"

definition range_less :: "AddrRange \<Rightarrow> AddrRange \<Rightarrow> bool" where
  "range_less this r =
     (if ar_start this \<noteq> ar_start r then ar_start this < ar_start r
      else intlvMatch this < intlvMatch r)"

definition range_eq :: "AddrRange \<Rightarrow> AddrRange \<Rightarrow> bool" where
  "range_eq this r =
     (ar_start this = ar_start r \<and> ar_end this = ar_end r \<and> intlvBits this = intlvBits r \<and>
      (intlvBits this \<noteq> 0 \<longrightarrow>
        intlvHighBit this = intlvHighBit r \<and> intlvMatch this = intlvMatch r))"

definition RangeEx :: "Addr \<Rightarrow> Addr \<Rightarrow> AddrRange" where
  "RangeEx s e = AddrRange_plain s (e - 1)"

definition RangeSize :: "Addr \<Rightarrow> Addr \<Rightarrow> AddrRange" where
  "RangeSize s sz = AddrRange_plain s (s + sz - 1)"

section \<open>Stripes partition the merged range\<close>

text \<open>
  The interleaving slice and the hash slice lie inside the 64-bit address and, as the
  interleaving constructor checks, apart from each other.
\<close>

definition geometry_ok :: "AddrRange \<Rightarrow> bool" where
  "geometry_ok r = (interleaved r \<longrightarrow>
     intlvBits r \<le> intlvHighBit r + 1 \<and> intlvHighBit r < 64 \<and>
     (hashed r \<longrightarrow> intlvBits r \<le> xorHighBit r + 1 \<and> xorHighBit r < 64 \<and>
        (xorHighBit r + intlvBits r \<le> intlvHighBit r \<or>
         intlvHighBit r + intlvBits r \<le> xorHighBit r)))"

text \<open>The value of the interleaving slice that \<open>contains\<close> compares.\<close>

definition stripe_of :: "AddrRange \<Rightarrow> Addr \<Rightarrow> Addr" where
  "stripe_of r a =
     (if hashed r
      then bits a (intlvHighBit r) (intlvHighBit r + 1 - intlvBits r)
           XOR bits a (xorHighBit r) (xorHighBit r + 1 - intlvBits r)
      else bits a (intlvHighBit r) (intlvHighBit r + 1 - intlvBits r))"

lemma contains_stripe:
  "contains r a = (ar_start r \<le> a \<and> a \<le> ar_end r \<and>
     (interleaved r \<longrightarrow> stripe_of r a = word_of_nat (intlvMatch r)))"
  by (auto simp: contains_def stripe_of_def Let_def hashed_def)

lemma bit_slice:
  assumes "nbits \<noteq> 0" and "nbits \<le> high + 1" and "high < 64"
  shows "bit (bits a high (high + 1 - nbits)) i = (i < nbits \<and> bit a (high + 1 - nbits + i))"
proof -
  have "(i \<le> high - (high + 1 - nbits)) = (i < nbits)" using assms by arith
  with assms show ?thesis by (simp add: bit_bits)
qed

lemma bit_stripe_of:
  assumes "geometry_ok r" and "interleaved r"
  shows "bit (stripe_of r a) i = (i < intlvBits r \<and>
    (bit a (intlvHighBit r + 1 - intlvBits r + i) \<noteq>
     (hashed r \<and> bit a (xorHighBit r + 1 - intlvBits r + i))))"
proof -
  have "bit (bits a (intlvHighBit r) (intlvHighBit r + 1 - intlvBits r)) i =
      (i < intlvBits r \<and> bit a (intlvHighBit r + 1 - intlvBits r + i))"
    using assms by (intro bit_slice) (auto simp: geometry_ok_def interleaved_def)
  moreover have "bit (bits a (xorHighBit r) (xorHighBit r + 1 - intlvBits r)) i =
      (i < intlvBits r \<and> bit a (xorHighBit r + 1 - intlvBits r + i))" if "hashed r"
    using assms that by (intro bit_slice) (auto simp: geometry_ok_def interleaved_def)
  ultimately show ?thesis by (auto simp: stripe_of_def bit_xor_iff)
qed

lemma stripe_of_less:
  assumes "geometry_ok r" and "interleaved r"
  shows "unat (stripe_of r a) < 2 ^ intlvBits r"
  unfolding take_bit_eq_self_unat [symmetric]
  by (rule bit_eqI) (auto simp: bit_take_bit_iff bit_stripe_of [OF assms])

lemma merge_step_eq_Some:
  "(merge_step this r m = Some m') = (mergesWith this r \<and> intlvMatch r = m \<and> m' = (m + 1) mod 256)"
  by (auto simp: merge_step_def)

lemma merge_steps:
  assumes "foldM (merge_step this) rs m = Some m'" and "m + length rs \<le> 256"
  shows "\<forall>i < length rs. mergesWith this (rs ! i) \<and> intlvMatch (rs ! i) = m + i"
  using assms
proof (induction rs arbitrary: m)
  case (Cons r rs)
  from Cons.prems(1) have step: "mergesWith this r" "intlvMatch r = m"
    and rest: "foldM (merge_step this) rs ((m + 1) mod 256) = Some m'"
    by (auto simp: bind_eq_Some_conv merge_step_eq_Some)
  show ?case
  proof (cases rs)
    case Nil
    with step show ?thesis by simp
  next
    case (Cons r' rs')
    with \<open>m + length (r # rs) \<le> 256\<close> have "(m + 1) mod 256 = m + 1" by simp
    with rest Cons.IH [of "m + 1"] \<open>m + length (r # rs) \<le> 256\<close> have
      "\<forall>i < length rs. mergesWith this (rs ! i) \<and> intlvMatch (rs ! i) = m + 1 + i" by simp
    with step show ?thesis by (auto simp: nth_Cons split: nat.splits)
  qed
qed simp

lemma merged_stripes:
  assumes "AddrRange_merge (r0 # rs) = Some whole" and "intlvBits r0 \<le> 8"
  shows "length (r0 # rs) = 2 ^ intlvBits r0"
    and "whole = r0\<lparr>intlvMatch := 0, intlvHighBit := 0, xorHighBit := 0, intlvBits := 0\<rparr>"
    and "i < length (r0 # rs) \<Longrightarrow> mergesWith r0 ((r0 # rs) ! i) \<and> intlvMatch ((r0 # rs) ! i) = i"
proof -
  from assms(1) obtain m' where len: "length (r0 # rs) = 2 ^ intlvBits r0"
    and steps: "foldM (merge_step (r0\<lparr>intlvMatch := 0\<rparr>)) (r0 # rs) 0 = Some m'"
    and whole: "whole = r0\<lparr>intlvMatch := 0, intlvHighBit := 0, xorHighBit := 0, intlvBits := 0\<rparr>"
    unfolding AddrRange_merge_def Let_def list.case by (auto simp del: foldM.simps simp: bind_eq_Some_conv)
  show "length (r0 # rs) = 2 ^ intlvBits r0"
    and "whole = r0\<lparr>intlvMatch := 0, intlvHighBit := 0, xorHighBit := 0, intlvBits := 0\<rparr>"
    by fact+
  have "(2 :: nat) ^ intlvBits r0 \<le> 2 ^ 8" using assms(2) by (intro power_increasing) auto
  with len have "0 + length (r0 # rs) \<le> 256" by simp
  from merge_steps [OF steps this] show
    "i < length (r0 # rs) \<Longrightarrow> mergesWith r0 ((r0 # rs) ! i) \<and> intlvMatch ((r0 # rs) ! i) = i"
    by (simp add: mergesWith_def)
qed

lemma mergesWith_contains:
  assumes "mergesWith r0 r"
  shows "contains r a = (ar_start r0 \<le> a \<and> a \<le> ar_end r0 \<and>
    (interleaved r0 \<longrightarrow> stripe_of r0 a = word_of_nat (intlvMatch r)))"
  using assms by (simp add: contains_stripe mergesWith_def stripe_of_def hashed_def interleaved_def)

text \<open>
  C33. Merging the stripes of an interleaved range loses and duplicates nothing: an address lies
  in the merged range exactly when it lies in one, and only one, of the stripes.  The stripe
  counter of the constructor has 8 bits, so at most 8 interleaving bits are covered.
\<close>

theorem stripes_partition:
  assumes "AddrRange_merge ranges = Some whole" and "ranges \<noteq> []"
    and "geometry_ok (hd ranges)" and "intlvBits (hd ranges) \<le> 8"
  shows "contains whole a = (\<exists>!i. i < length ranges \<and> contains (ranges ! i) a)"
proof -
  obtain r0 rs where [simp]: "ranges = r0 # rs" using assms(2) by (cases ranges) auto
  note m = merged_stripes [of r0 rs whole]
  have geo: "geometry_ok r0" "intlvBits r0 \<le> 8" using assms(3,4) by auto
  have len: "length ranges = 2 ^ intlvBits r0" using m(1) assms(1) geo by simp
  have whole: "contains whole a = (ar_start r0 \<le> a \<and> a \<le> ar_end r0)"
    using m(2) assms(1) geo by (simp add: contains_stripe interleaved_def)
  have stripe: "contains (ranges ! i) a = (ar_start r0 \<le> a \<and> a \<le> ar_end r0 \<and>
      (interleaved r0 \<longrightarrow> stripe_of r0 a = word_of_nat i))" if "i < length ranges" for i
    using m(3) [of i] mergesWith_contains [of r0 "ranges ! i" a] assms(1) geo that by simp
  have eq: "(stripe_of r0 a = word_of_nat i) = (i = unat (stripe_of r0 a))"
    if "i < length ranges" for i
  proof -
    have "(2 :: nat) ^ intlvBits r0 \<le> 2 ^ 8" using geo(2) by (intro power_increasing) auto
    then have "unat (word_of_nat i :: Addr) = i" using that len by (simp add: unat_of_nat)
    then show ?thesis by (metis unsigned_word_eqI)
  qed
  show ?thesis
  proof (cases "interleaved r0")
    case True
    have "unat (stripe_of r0 a) < length ranges"
      unfolding len using stripe_of_less [OF geo(1) True] .
    with True stripe eq whole show ?thesis by (metis (no_types, lifting))
  next
    case False
    then have "length ranges = 1" unfolding len by (simp add: interleaved_def)
    with False stripe whole show ?thesis by (metis less_one)
  qed
qed

text \<open>A four-way striped range with a hashed selector, merged back.\<close>

definition demo_stripe :: "nat \<Rightarrow> AddrRange" where
  "demo_stripe m = \<lparr>ar_start = 0, ar_end = 0xffff, intlvHighBit = 7, xorHighBit = 11, intlvBits = 2,
     intlvMatch = m\<rparr>"

theorem stripes_partition_witness:
  "contains (AddrRange_plain 0 0xffff) 0x1234 =
   (\<exists>!i. i < length (map demo_stripe [0, 1, 2, 3]) \<and>
         contains (map demo_stripe [0, 1, 2, 3] ! i) 0x1234)"
proof (rule stripes_partition)
  show "AddrRange_merge (map demo_stripe [0, 1, 2, 3]) = Some (AddrRange_plain 0 0xffff)"
    by (simp add: AddrRange_merge_def merge_step_def demo_stripe_def mergesWith_def
        AddrRange_plain_def)
qed (simp_all add: demo_stripe_def geometry_ok_def hashed_def interleaved_def)

section \<open>Flat offsets inside a stripe\<close>

lemma bit_removeIntlvBits:
  assumes "geometry_ok r" and "interleaved r" and "i < 64"
  shows "bit (removeIntlvBits r a) i =
    (if i < intlvHighBit r + 1 - intlvBits r then bit a i else bit a (intlvBits r + i))"
  using assms by (auto simp: removeIntlvBits_def bit_insertBits bit_drop_bit_eq geometry_ok_def)

text \<open>Removing the interleaving bits keeps every bit outside the slice.\<close>

lemma removeIntlvBits_eq:
  assumes "geometry_ok r" and "interleaved r" and "removeIntlvBits r a = removeIntlvBits r b"
    and "j < intlvHighBit r + 1 - intlvBits r \<or> intlvHighBit r < j"
  shows "bit a j = bit b j"
  using assms(4)
proof
  assume "j < intlvHighBit r + 1 - intlvBits r"
  moreover from this have "j < 64" using assms(1,2) by (auto simp: geometry_ok_def)
  ultimately show ?thesis using bit_removeIntlvBits [OF assms(1,2)] assms(3) by metis
next
  assume j: "intlvHighBit r < j"
  show ?thesis
  proof (cases "j < 64")
    case True
    with j assms(1,2) have "j - intlvBits r < 64" "\<not> j - intlvBits r < intlvHighBit r + 1 - intlvBits r"
      "intlvBits r + (j - intlvBits r) = j" by (auto simp: geometry_ok_def)
    then show ?thesis using bit_removeIntlvBits [OF assms(1,2)] assms(3) by metis
  next
    case False
    then show ?thesis using bit_imp_le_length [of a j] bit_imp_le_length [of b j] by auto
  qed
qed

lemma removeIntlvBits_inj:
  assumes geo: "geometry_ok r" and int: "interleaved r"
    and eq: "removeIntlvBits r a = removeIntlvBits r b" and stripe: "stripe_of r a = stripe_of r b"
  shows "a = b"
proof (rule bit_eqI)
  fix j
  let ?lo = "intlvHighBit r + 1 - intlvBits r"
  note outside = removeIntlvBits_eq [OF geo int eq]
  show "bit a j = bit b j"
  proof (cases "j < ?lo \<or> intlvHighBit r < j")
    case False
    define i where "i = j - ?lo"
    have j: "?lo + i = j" and i: "i < intlvBits r"
      using False geo int by (auto simp: i_def geometry_ok_def)
    have "bit a (xorHighBit r + 1 - intlvBits r + i) = bit b (xorHighBit r + 1 - intlvBits r + i)"
      if "hashed r"
      using that i geo int by (intro outside) (auto simp: geometry_ok_def)
    then show ?thesis
      using bit_stripe_of [OF geo int, of a i] bit_stripe_of [OF geo int, of b i] stripe i j by auto
  qed (rule outside)
qed

text \<open>
  C34. Two different addresses of one range never get the same flat offset, for plain, interleaved
  and hashed ranges: the interleaving bits that \<open>removeIntlvBits\<close> drops are determined by the rest
  of the address and the range's match value.
\<close>

theorem offset_injective:
  assumes "geometry_ok r" and "contains r a" and "contains r b" and "a \<noteq> b"
  shows "getOffset r a \<noteq> getOffset r b"
proof
  assume eq: "getOffset r a = getOffset r b"
  show False
  proof (cases "interleaved r")
    case True
    with assms(2,3) eq have "removeIntlvBits r a = removeIntlvBits r b"
      by (simp add: getOffset_def contains_stripe)
    moreover have "stripe_of r a = stripe_of r b" using True assms(2,3) by (simp add: contains_stripe)
    ultimately show ?thesis using removeIntlvBits_inj [OF assms(1) True] assms(4) by blast
  next
    case False
    with assms(2-4) eq show ?thesis by (simp add: getOffset_def contains_stripe)
  qed
qed

theorem offset_injective_witness: "getOffset (demo_stripe 1) 0x40 \<noteq> getOffset (demo_stripe 1) 0x400"
  by (rule offset_injective)
    (simp_all add: demo_stripe_def geometry_ok_def hashed_def interleaved_def contains_def
      bits_def mask_bits_def)

section \<open>Intersection\<close>

text \<open>
  A negative answer of \<open>intersects\<close> is right unless the second range is interleaved with stripes of
  a single byte: there the code tests the start address of the range, which need not belong to it.
\<close>

lemma intersects_False:
  assumes "intersects this r = Some False" and "\<not> (interleaved r \<and> range_size r = 1)"
    and "intlvMatch this < 256" and "intlvMatch r < 256" and "contains this a"
  shows "\<not> contains r a"
proof
  assume r: "contains r a"
  from assms(1) consider "ar_start this > ar_end r \<or> ar_end this < ar_start r"
    | "range_size r = 1" "\<not> contains this (ar_start r)"
    | "mergesWith this r" "interleaved this" "intlvMatch this \<noteq> intlvMatch r"
    by (auto simp: intersects_def mergesWith_def interleaved_def split: if_splits)
  then show False
  proof cases
    case 1
    with r assms(5) show ?thesis by (auto simp: contains_stripe)
  next
    case 2
    with assms(2) have "ar_end r = ar_start r" by (simp add: range_size_def interleaved_def)
    with r have "a = ar_start r" by (auto simp: contains_stripe)
    with 2 assms(5) show ?thesis by simp
  next
    case 3
    have "stripe_of this a = word_of_nat (intlvMatch this)"
      using assms(5) 3(2) by (simp add: contains_stripe)
    moreover have "stripe_of this a = word_of_nat (intlvMatch r)"
      using mergesWith_contains [OF 3(1), of a] r 3(2) by simp
    moreover have "unat (word_of_nat (intlvMatch this) :: Addr) = intlvMatch this"
      "unat (word_of_nat (intlvMatch r) :: Addr) = intlvMatch r"
      using assms(3,4) by (simp_all add: unat_Addr_of_nat)
    ultimately show ?thesis using 3(3) by metis
  qed
qed

end
