(* ===== verification/PageTable.thy ===== *)
theory PageTable
  imports AddrRange
begin

text \<open>
  The memory side of a restored process: \<open>mem/page_table.cc\<close> (the software page table of
  syscall emulation), \<open>System::allocPhysPages\<close> (\<open>sim/system.cc\<close>) and the operations of
  \<open>sim/process.cc\<close> that extend the address space.  \<open>None\<close> is a failed \<open>assert\<close>, a \<open>panic\<close>, a
  \<open>fatal\<close>, or a loop that does not end.  A signed \<open>int64_t\<close> size is an \<open>int\<close>: the loops stop
  before a positive size minus one page can leave the 64-bit range.
\<close>

section \<open>EmulationPageTable\<close>

record PTEntry =
  pte_paddr :: Addr
  pte_flags :: Addr

record EmulationPageTable =
  pTable :: "Addr \<Rightarrow> PTEntry option"
  pageSize :: Addr
  offsetMask :: Addr

definition Clobber :: Addr where "Clobber = 1"

definition PTEntry :: "Addr \<Rightarrow> Addr \<Rightarrow> PTEntry" where
  "PTEntry p f = \<lparr>pte_paddr = p, pte_flags = f\<rparr>"

definition EmulationPageTable :: "Addr \<Rightarrow> EmulationPageTable option" where
  "EmulationPageTable psize = do {
     k \<leftarrow> floorLog2 psize;
     assert_that (isPowerOf2_Addr psize);
     Some \<lparr>pTable = Map.empty, pageSize = psize, offsetMask = mask_bits k\<rparr>
   }"

definition pageAlign :: "EmulationPageTable \<Rightarrow> Addr \<Rightarrow> Addr" where
  "pageAlign pt a = a AND NOT (offsetMask pt)"

definition pageOffset :: "EmulationPageTable \<Rightarrow> Addr \<Rightarrow> Addr" where
  "pageOffset pt a = a AND offsetMask pt"

partial_function (option) pt_map_loop ::
  "bool \<Rightarrow> Addr \<Rightarrow> EmulationPageTable \<Rightarrow> Addr \<Rightarrow> Addr \<Rightarrow> int \<Rightarrow> EmulationPageTable option" where
  "pt_map_loop clobber flags pt vaddr paddr sz =
     (if sz > 0 then do {
        assert_that (pTable pt vaddr = None \<or> clobber);
        pt_map_loop clobber flags (pt\<lparr>pTable := (pTable pt)(vaddr \<mapsto> PTEntry paddr flags)\<rparr>)
          (vaddr + pageSize pt) (paddr + pageSize pt) (sz - uint (pageSize pt))
      } else Some pt)"

definition pt_map :: "EmulationPageTable \<Rightarrow> Addr \<Rightarrow> Addr \<Rightarrow> int \<Rightarrow> Addr \<Rightarrow> EmulationPageTable option" where
  "pt_map pt vaddr paddr sz flags = do {
     assert_that (pageOffset pt vaddr = 0);
     pt_map_loop (flags AND Clobber \<noteq> 0) flags pt vaddr paddr sz
   }"

text \<open>
  The \<open>assert\<close> of the loop reads both iterators; without it an unmapped source page would be
  dereferenced, so the model needs the page in either case.
\<close>

partial_function (option) pt_remap_loop ::
  "EmulationPageTable \<Rightarrow> Addr \<Rightarrow> int \<Rightarrow> Addr \<Rightarrow> EmulationPageTable option" where
  "pt_remap_loop pt vaddr sz new_vaddr =
     (if sz > 0 then
        (case pTable pt vaddr of
           None \<Rightarrow> None
         | Some old \<Rightarrow> do {
             assert_that (pTable pt new_vaddr = None);
             pt_remap_loop (pt\<lparr>pTable := (pTable pt)(new_vaddr \<mapsto> old, vaddr := None)\<rparr>)
               (vaddr + pageSize pt) (sz - uint (pageSize pt)) (new_vaddr + pageSize pt)
           })
      else Some pt)"

definition pt_remap :: "EmulationPageTable \<Rightarrow> Addr \<Rightarrow> int \<Rightarrow> Addr \<Rightarrow> EmulationPageTable option" where
  "pt_remap pt vaddr sz new_vaddr = do {
     assert_that (pageOffset pt vaddr = 0);
     assert_that (pageOffset pt new_vaddr = 0);
     pt_remap_loop pt vaddr sz new_vaddr
   }"

partial_function (option) pt_unmap_loop ::
  "EmulationPageTable \<Rightarrow> Addr \<Rightarrow> int \<Rightarrow> EmulationPageTable option" where
  "pt_unmap_loop pt vaddr sz =
     (if sz > 0 then do {
        assert_that (pTable pt vaddr \<noteq> None);
        pt_unmap_loop (pt\<lparr>pTable := (pTable pt)(vaddr := None)\<rparr>)
          (vaddr + pageSize pt) (sz - uint (pageSize pt))
      } else Some pt)"

definition pt_unmap :: "EmulationPageTable \<Rightarrow> Addr \<Rightarrow> int \<Rightarrow> EmulationPageTable option" where
  "pt_unmap pt vaddr sz = do {
     assert_that (pageOffset pt vaddr = 0);
     pt_unmap_loop pt vaddr sz
   }"

partial_function (option) isUnmapped_loop ::
  "EmulationPageTable \<Rightarrow> Addr \<Rightarrow> int \<Rightarrow> int \<Rightarrow> bool option" where
  "isUnmapped_loop pt vaddr off sz =
     (if off < sz then
        if pTable pt (vaddr + word_of_int off) \<noteq> None then Some False
        else isUnmapped_loop pt vaddr (off + uint (pageSize pt)) sz
      else Some True)"

definition isUnmapped :: "EmulationPageTable \<Rightarrow> Addr \<Rightarrow> int \<Rightarrow> bool option" where
  "isUnmapped pt vaddr sz = do {
     assert_that (pageOffset pt vaddr = 0);
     isUnmapped_loop pt vaddr 0 sz
   }"

definition pt_lookup :: "EmulationPageTable \<Rightarrow> Addr \<Rightarrow> PTEntry option" where
  "pt_lookup pt vaddr = pTable pt (pageAlign pt vaddr)"

definition translate :: "EmulationPageTable \<Rightarrow> Addr \<Rightarrow> Addr option" where
  "translate pt vaddr = (case pt_lookup pt vaddr of
     None \<Rightarrow> None
   | Some entry \<Rightarrow> Some (pageOffset pt vaddr + pte_paddr entry))"

text \<open>
  The request variant: the fault, or the physical address stored in the request.
\<close>

datatype Fault = NoFault | GenericPageTableFault Addr

definition translate_req :: "EmulationPageTable \<Rightarrow> Addr \<Rightarrow> Addr \<Rightarrow> (Fault \<times> Addr option) option" where
  "translate_req pt vaddr sz = do {
     assert_that (pageAlign pt (vaddr + sz - 1) = pageAlign pt vaddr);
     case translate pt vaddr of
       None \<Rightarrow> Some (GenericPageTableFault vaddr, None)
     | Some paddr \<Rightarrow> do {
         assert_that (\<not> (paddr AND (pageSize pt - 1)) + sz > pageSize pt);
         Some (NoFault, Some paddr)
       }
   }"

text \<open>
  A hash map is written out in its iteration order, an argument that lists exactly the keys; the
  text of one \<open>Entry\<close> section is the triple of its three parameters.
\<close>

definition pt_serialize :: "Addr list \<Rightarrow> EmulationPageTable \<Rightarrow> (Addr \<times> Addr \<times> Addr) list" where
  "pt_serialize order pt =
     map (\<lambda>v. case pTable pt v of Some e \<Rightarrow> (v, pte_paddr e, pte_flags e) | None \<Rightarrow> (v, 0, 0)) order"

fun pt_unserialize :: "(Addr \<times> Addr \<times> Addr) list \<Rightarrow> EmulationPageTable \<Rightarrow> EmulationPageTable" where
  "pt_unserialize [] pt = pt"
| "pt_unserialize ((vaddr, paddr, flags) # es) pt = pt_unserialize es
     (if pTable pt vaddr = None
      then pt\<lparr>pTable := (pTable pt)(vaddr \<mapsto> PTEntry paddr flags)\<rparr> else pt)"

section \<open>Physical pages and the process\<close>

definition PageShift :: nat where "PageShift = 12"
definition PageBytes :: Addr where "PageBytes = push_bit PageShift 1"

record System =
  pagePtr :: Addr
  physmem_size :: Addr

definition allocPhysPages :: "System \<Rightarrow> nat \<Rightarrow> (Addr \<times> System) option" where
  "allocPhysPages sys npages =
     (let return_addr = push_bit PageShift (pagePtr sys);
          ptr = pagePtr sys + word_of_nat npages;
          next_return_addr = push_bit PageShift ptr;
          (return_addr, ptr) =
            (if contains (AddrRange_plain 0xffff0000 0xffffffff) next_return_addr
             then (0xffffffff, drop_bit PageShift 0xffffffff)
             else (return_addr, ptr))
      in do {
        assert_that (\<not> push_bit PageShift ptr > physmem_size sys);
        Some (return_addr, sys\<lparr>pagePtr := ptr\<rparr>)
      })"

definition freeMemSize :: "System \<Rightarrow> Addr" where
  "freeMemSize sys = physmem_size sys - push_bit PageShift (pagePtr sys)"

record Process =
  proc_pTable :: EmulationPageTable
  proc_system :: System
  brkPoint :: Addr
  stackBase :: Addr
  stackSize :: Addr
  maxStackSize :: Addr
  stackMin :: Addr
  mmapEnd :: Addr

definition allocateMem :: "Process \<Rightarrow> Addr \<Rightarrow> int \<Rightarrow> bool \<Rightarrow> Process option" where
  "allocateMem p vaddr sz clobber = do {
     let npages = divCeil sz (uint PageBytes);
     (paddr, sys) \<leftarrow> allocPhysPages (proc_system p) (nat npages);
     pt \<leftarrow> pt_map (proc_pTable p) vaddr paddr sz (if clobber then Clobber else 0);
     Some (p\<lparr>proc_pTable := pt, proc_system := sys\<rparr>)
   }"

partial_function (option) extend_stack :: "Addr \<Rightarrow> Process \<Rightarrow> Addr \<Rightarrow> (Process \<times> Addr) option" where
  "extend_stack vaddr p stack_min =
     (if vaddr < stack_min then
        (let stack_min = stack_min - PageBytes in
         if stackBase p - stack_min > maxStackSize p then None
         else (case allocateMem p stack_min (uint PageBytes) False of
                 None \<Rightarrow> None
               | Some p' \<Rightarrow> extend_stack vaddr p' stack_min))
      else Some (p, stack_min))"

definition fixupStackFault :: "Process \<Rightarrow> Addr \<Rightarrow> (bool \<times> Process) option" where
  "fixupStackFault p vaddr =
     (if vaddr \<ge> stackMin p \<and> vaddr < stackBase p then do {
        p' \<leftarrow> allocateMem p (roundDown vaddr PageBytes) (uint PageBytes) False;
        Some (True, p')
      }
      else if vaddr < stackMin p \<and> vaddr \<ge> stackBase p - maxStackSize p then do {
        (p', stack_min) \<leftarrow> extend_stack vaddr p (stackMin p);
        Some (True, p'\<lparr>stackMin := stack_min\<rparr>)
      }
      else Some (False, p))"

section \<open>Well-formed tables\<close>

text \<open>The page size is a power of two and the mask selects the bits below it.\<close>

definition pt_wf :: "nat \<Rightarrow> EmulationPageTable \<Rightarrow> bool" where
  "pt_wf k pt = (k < 63 \<and> pageSize pt = 2 ^ k \<and> offsetMask pt = mask k)"

lemma EmulationPageTable_wf:
  assumes "k < 63"
  shows "\<exists>pt. EmulationPageTable (2 ^ k) = Some pt \<and> pt_wf k pt \<and> pTable pt = Map.empty"
proof -
  have "unat (2 ^ k :: Addr) = 2 ^ k" using assms by (simp add: unat_exp)
  then have "floorLog2 (2 ^ k) = Some k" by (simp add: floorLog2_eq_Some)
  moreover have "isPowerOf2_Addr (2 ^ k)" unfolding isPowerOf2_Addr_iff using assms by (intro exI [of _ k]) simp
  ultimately have "EmulationPageTable (2 ^ k) =
      Some \<lparr>pTable = Map.empty, pageSize = 2 ^ k, offsetMask = mask_bits k\<rparr>"
    by (simp add: EmulationPageTable_def)
  moreover have "mask_bits k = mask k" using assms by (intro mask_bits_eq) simp
  ultimately show ?thesis unfolding pt_wf_def using assms by simp
qed

lemma page_split_pTable [simp]:
  "pageAlign (pt\<lparr>pTable := t\<rparr>) a = pageAlign pt a"
  "pageOffset (pt\<lparr>pTable := t\<rparr>) a = pageOffset pt a"
  by (simp_all add: pageAlign_def pageOffset_def)

lemma pageOffset_take_bit: "pt_wf k pt \<Longrightarrow> pageOffset pt a = take_bit k a"
  by (simp add: pageOffset_def pt_wf_def take_bit_eq_mask)

lemma pageAlign_take_bit: "pt_wf k pt \<Longrightarrow> pageAlign pt a = a - take_bit k a"
proof -
  assume wf: "pt_wf k pt"
  have disj: "(a AND NOT (mask k)) AND take_bit k a = 0"
    by (rule bit_eqI) (simp add: bit_simps)
  have "a = (a AND NOT (mask k)) OR take_bit k a"
    by (rule bit_eqI) (auto simp: bit_simps)
  also have "\<dots> = (a AND NOT (mask k)) + take_bit k a"
    using disj by (rule disjunctive_add_eq_or [symmetric])
  finally have "(a AND NOT (mask k)) + take_bit k a = a" by (rule sym)
  then have "a - take_bit k a = a AND NOT (mask k)" by (metis add_diff_cancel_right')
  with wf show ?thesis by (simp add: pageAlign_def pt_wf_def)
qed

lemma take_bit_add_aligned:
  assumes "take_bit k (v :: Addr) = 0" and "k \<le> 64"
  shows "take_bit k (v + x) = take_bit k x"
proof -
  have dvd: "(2 :: int) ^ k dvd 2 ^ 64" using assms(2) by (rule le_imp_power_dvd)
  have v: "uint v mod 2 ^ k = 0"
    unfolding take_bit_eq_mod [symmetric] unsigned_take_bit_eq [symmetric] assms(1) by simp
  have "uint (v + x) mod 2 ^ k = (uint v + uint x) mod 2 ^ k"
    unfolding uint_word_ariths(1) using dvd by (simp add: mod_mod_cancel)
  also have "\<dots> = (uint v mod 2 ^ k + uint x) mod 2 ^ k" by (simp only: mod_add_left_eq)
  finally have "uint (take_bit k (v + x)) = uint (take_bit k x)"
    unfolding unsigned_take_bit_eq by (simp add: take_bit_eq_mod v)
  then show ?thesis by (simp only: word_uint_eq_iff)
qed

lemma uint_pageSize: "pt_wf k pt \<Longrightarrow> uint (pageSize pt) = 2 ^ k"
  by (simp add: pt_wf_def uint_exp)

section \<open>Mapping and translating\<close>

text \<open>The page of the loop's \<open>i\<close>-th iteration, seen from the distance to the first one.\<close>

lemma unat_sub_exp:
  assumes "k < 64" and "2 ^ k \<le> unat (d :: Addr)"
  shows "unat (d - 2 ^ k) = unat d - 2 ^ k"
  using assms by (simp add: unat_exp unat_sub word_le_nat_alt)

lemma unat_sub_exp_wrap:
  assumes "k < 64" and "unat (d :: Addr) < 2 ^ k"
  shows "unat (d - 2 ^ k) = unat d + 2 ^ 64 - 2 ^ k"
  using assms by (simp add: unat_sub_if_size unat_exp word_size)

definition mapped_page :: "nat \<Rightarrow> Addr \<Rightarrow> nat \<Rightarrow> Addr \<Rightarrow> bool" where
  "mapped_page k v n a = (2 ^ k dvd unat (a - v) \<and> unat (a - v) < n * 2 ^ k)"

lemma mapped_page_0 [simp]: "mapped_page k v 0 a = False"
  by (simp add: mapped_page_def)

lemma mapped_page_Suc:
  assumes "k < 64" and "Suc n * 2 ^ k \<le> 2 ^ 64"
  shows "mapped_page k v (Suc n) a = (a = v \<or> mapped_page k (v + 2 ^ k) n a)"
proof -
  define d where "d = a - v"
  have d': "a - (v + 2 ^ k) = d - 2 ^ k" by (simp add: d_def)
  consider "d = 0" | "0 < unat d" "unat d < 2 ^ k" | "2 ^ k \<le> unat d"
    by (metis linorder_not_less neq0_conv unat_eq_zero)
  then have "(2 ^ k dvd unat d \<and> unat d < Suc n * 2 ^ k) =
      (d = 0 \<or> 2 ^ k dvd unat (d - 2 ^ k) \<and> unat (d - 2 ^ k) < n * 2 ^ k)"
  proof cases
    case 2
    then have "unat (d - 2 ^ k) = unat d + 2 ^ 64 - 2 ^ k"
      using assms(1) by (intro unat_sub_exp_wrap)
    with 2 assms(2) show ?thesis by (auto dest: dvd_imp_le)
  next
    case 3
    then have "unat (d - 2 ^ k) = unat d - 2 ^ k" using assms(1) by (intro unat_sub_exp)
    moreover have "d \<noteq> 0" using 3 by auto
    ultimately show ?thesis using 3 by (auto simp: dvd_diff_nat less_diff_conv2 dvd_minus_self)
  qed (simp add: assms)
  then show ?thesis unfolding mapped_page_def d' by (simp add: d_def)
qed

lemma pt_map_loop_spec:
  assumes "pt_wf k pt" and "n * 2 ^ k \<le> 2 ^ 64"
    and "(int n - 1) * 2 ^ k < sz" and "sz \<le> int n * 2 ^ k"
    and "\<not> clobber \<Longrightarrow> \<forall>a. mapped_page k v n a \<longrightarrow> pTable pt a = None"
  shows "pt_map_loop clobber f pt v p sz = Some (pt\<lparr>pTable :=
    \<lambda>a. if mapped_page k v n a then Some (PTEntry (p + (a - v)) f) else pTable pt a\<rparr>)"
  using assms
proof (induction n arbitrary: pt v p sz)
  case 0
  then have "\<not> sz > 0" by simp
  then show ?case by (subst pt_map_loop.simps) simp
next
  case (Suc n)
  have k: "k < 64" and P: "pageSize pt = 2 ^ k" "uint (pageSize pt) = 2 ^ k"
    using Suc.prems(1) by (auto simp: pt_wf_def uint_exp)
  note page = mapped_page_Suc [OF k Suc.prems(2), of v]
  let ?pt = "pt\<lparr>pTable := (pTable pt)(v \<mapsto> PTEntry p f)\<rparr>"
  have pos: "0 < sz" and sz: "(int n - 1) * 2 ^ k < sz - 2 ^ k" "sz - 2 ^ k \<le> int n * 2 ^ k"
    using Suc.prems(3,4) le_less_trans [of 0 "int n * 2 ^ k" sz] by (simp_all add: algebra_simps)
  have v: "\<not> mapped_page k (v + 2 ^ k) n v"
    using Suc.prems(2) unat_sub_exp_wrap [OF k, of 0] by (auto simp: mapped_page_def)
  have ok: "pTable pt v = None \<or> clobber" using Suc.prems(5) page by blast
  have "pt_map_loop clobber f ?pt (v + 2 ^ k) (p + 2 ^ k) (sz - 2 ^ k) = Some (?pt\<lparr>pTable :=
    \<lambda>a. if mapped_page k (v + 2 ^ k) n a then Some (PTEntry (p + 2 ^ k + (a - (v + 2 ^ k))) f)
        else pTable ?pt a\<rparr>)"
    using Suc.prems(1,2,5) sz v page by (intro Suc.IH) (auto simp: pt_wf_def)
  also have "\<dots> = Some (pt\<lparr>pTable := \<lambda>a. if mapped_page k v (Suc n) a
      then Some (PTEntry (p + (a - v)) f) else pTable pt a\<rparr>)"
    by (auto simp: page fun_eq_iff v intro!: arg_cong [where f = "\<lambda>t. pt\<lparr>pTable := t\<rparr>"])
  finally show ?case
    using pos ok by (subst pt_map_loop.simps) (simp add: P(1) uint_exp [OF k])
qed

text \<open>The number of pages that a loop over \<open>sz\<close> bytes visits.\<close>

definition pages_of :: "nat \<Rightarrow> int \<Rightarrow> nat" where
  "pages_of k sz = nat (divCeil sz (2 ^ k))"

lemma pages_of_bounds:
  assumes "0 \<le> sz"
  shows "(int (pages_of k sz) - 1) * 2 ^ k < sz"
    and "sz \<le> int (pages_of k sz) * 2 ^ k"
proof -
  define q where "q = (sz + 2 ^ k - 1) div 2 ^ k"
  have eq: "sz + 2 ^ k - 1 = q * 2 ^ k + (sz + 2 ^ k - 1) mod 2 ^ k"
    unfolding q_def by (rule div_mult_mod_eq [symmetric])
  have m: "0 \<le> (sz + 2 ^ k - 1) mod 2 ^ k" "(sz + 2 ^ k - 1) mod 2 ^ k < 2 ^ k" by simp_all
  have "(1 :: int) \<le> 2 ^ k" by simp
  with assms have "0 \<le> sz + 2 ^ k - 1" by linarith
  then have "0 \<le> q" by (simp only: q_def pos_imp_zdiv_nonneg_iff zero_less_power zero_less_numeral)
  then have n: "int (pages_of k sz) = q" by (simp add: pages_of_def divCeil_def q_def)
  show "sz \<le> int (pages_of k sz) * 2 ^ k" unfolding n using eq m by linarith
  have "q * 2 ^ k < sz + 2 ^ k" using eq m by linarith
  then show "(int (pages_of k sz) - 1) * 2 ^ k < sz"
    unfolding n by (simp add: left_diff_distrib)
qed

lemma pages_of_fit:
  assumes "0 \<le> sz" and "sz < 2 ^ 63" and "k < 63"
  shows "pages_of k sz * 2 ^ k \<le> 2 ^ 64"
proof -
  have "(2 :: int) ^ k < 2 ^ 63" using assms(3) by (rule power_strict_increasing) simp
  moreover have "(int (pages_of k sz) - 1) * 2 ^ k < 2 ^ 63"
    using pages_of_bounds(1) [OF assms(1), of k] assms(2) by simp
  ultimately have "int (pages_of k sz) * 2 ^ k < 2 ^ 64" by (simp add: left_diff_distrib)
  then have "int (pages_of k sz * 2 ^ k) < int (2 ^ 64)" by simp
  then show ?thesis by (simp only: of_nat_less_iff order.strict_implies_order)
qed

lemma isUnmapped_loop_spec:
  assumes "pt_wf k pt" and "n * 2 ^ k \<le> 2 ^ 64"
    and "(int n - 1) * 2 ^ k < sz - off" and "sz - off \<le> int n * 2 ^ k"
  shows "isUnmapped_loop pt v off sz =
    Some (\<forall>a. mapped_page k (v + word_of_int off) n a \<longrightarrow> pTable pt a = None)"
  using assms(2-)
proof (induction n arbitrary: off)
  case 0
  then show ?case by (subst isUnmapped_loop.simps) simp
next
  case (Suc n)
  have k: "k < 64" and P: "uint (pageSize pt) = 2 ^ k"
    using assms(1) by (auto simp: pt_wf_def uint_exp)
  note page = mapped_page_Suc [OF k Suc.prems(1), of "v + word_of_int off"]
  have pos: "off < sz" and sz: "(int n - 1) * 2 ^ k < sz - (off + 2 ^ k)" "sz - (off + 2 ^ k) \<le> int n * 2 ^ k"
    using Suc.prems(2,3) le_less_trans [of 0 "int n * 2 ^ k" "sz - off"]
    by (simp_all add: algebra_simps)
  have "isUnmapped_loop pt v (off + 2 ^ k) sz =
      Some (\<forall>a. mapped_page k (v + word_of_int (off + 2 ^ k)) n a \<longrightarrow> pTable pt a = None)"
    using Suc.prems(1) sz by (intro Suc.IH) auto
  moreover have "v + word_of_int (off + 2 ^ k) = v + word_of_int off + 2 ^ k" by simp
  ultimately show ?case
    using pos by (subst isUnmapped_loop.simps) (auto simp: P page add.assoc)
qed

lemma isUnmapped_spec:
  assumes "pt_wf k pt" and "pageOffset pt v = 0" and "0 \<le> sz" and "sz < 2 ^ 63"
  shows "isUnmapped pt v sz =
    Some (\<forall>a. mapped_page k v (pages_of k sz) a \<longrightarrow> pTable pt a = None)"
  using assms pages_of_bounds [OF assms(3), of k] pages_of_fit [OF assms(3,4), of k]
    isUnmapped_loop_spec [OF assms(1), of "pages_of k sz" sz 0 v]
  by (simp add: isUnmapped_def pt_wf_def)

lemma translate_mapped:
  assumes wf: "pt_wf k pt" and v: "take_bit k v = 0"
  shows "translate (pt\<lparr>pTable := \<lambda>a. if mapped_page k v n a
      then Some (PTEntry (p + (a - v)) f) else pTable pt a\<rparr>) x =
    (if unat (x - v) < n * 2 ^ k then Some (p + (x - v)) else translate pt x)"
    (is "translate ?pt x = _")
proof -
  have k: "k < 64" and wf': "pt_wf k ?pt" using wf by (simp_all add: pt_wf_def)
  define d where "d = x - v"
  have x: "x = v + d" by (simp add: d_def)
  have off: "take_bit k x = take_bit k d" unfolding x using v k by (intro take_bit_add_aligned) auto
  define al where "al = pageAlign pt x"
  have dist: "al - v = d - take_bit k d"
    unfolding al_def pageAlign_take_bit [OF wf] off by (simp add: x)
  have td: "unat (take_bit k d) = unat d mod 2 ^ k"
    unfolding unsigned_take_bit_eq by (simp add: take_bit_eq_mod)
  then have "unat (d - take_bit k d) = unat d - unat d mod 2 ^ k"
    by (simp add: unat_sub word_le_nat_alt)
  then have "unat (d - take_bit k d) = 2 ^ k * (unat d div 2 ^ k)"
    by (simp add: minus_mod_eq_mult_div)
  then have page: "mapped_page k v n al = (unat d < n * 2 ^ k)"
    unfolding mapped_page_def dist by (simp add: mult.commute div_less_iff_less_mult)
  show ?thesis
  proof (cases "unat d < n * 2 ^ k")
    case True
    with page have "translate ?pt x = Some (pageOffset pt x + (p + (al - v)))"
      by (simp add: translate_def pt_lookup_def PTEntry_def al_def)
    with True show ?thesis by (simp add: pageOffset_take_bit [OF wf] off dist d_def)
  next
    case False
    with page show ?thesis by (simp add: translate_def pt_lookup_def d_def al_def split: option.split)
  qed
qed

text \<open>
  C31. Mapping a page-aligned, previously unmapped region (or one mapped with the clobber flag)
  succeeds, and afterwards every address of its pages translates to the physical base plus the
  distance to the start, while all other translations, present or absent, stay as they were.
\<close>

theorem map_then_translate:
  assumes "pt_wf k pt" and "pageOffset pt v = 0" and "0 \<le> sz" and "sz < 2 ^ 63"
    and "isUnmapped pt v sz = Some True \<or> flags AND Clobber \<noteq> 0"
  shows "\<exists>pt'. pt_map pt v p sz flags = Some pt' \<and> pt_wf k pt' \<and>
    (\<forall>x. translate pt' x =
      (if unat (x - v) < pages_of k sz * 2 ^ k then Some (p + (x - v)) else translate pt x))"
proof -
  have k: "k < 63" using assms(1) by (simp add: pt_wf_def)
  have v: "take_bit k v = 0" using assms(1,2) pageOffset_take_bit by metis
  let ?pt = "pt\<lparr>pTable := \<lambda>a. if mapped_page k v (pages_of k sz) a
      then Some (PTEntry (p + (a - v)) flags) else pTable pt a\<rparr>"
  have "pt_map_loop (flags AND Clobber \<noteq> 0) flags pt v p sz = Some ?pt"
    using pages_of_bounds [OF assms(3), of k] pages_of_fit [OF assms(3,4) k] assms(5)
      isUnmapped_spec [OF assms(1-4)]
    by (intro pt_map_loop_spec [OF assms(1)]) auto
  then have "pt_map pt v p sz flags = Some ?pt" using assms(2) by (simp add: pt_map_def)
  moreover have "pt_wf k ?pt" using assms(1) by (simp add: pt_wf_def)
  ultimately show ?thesis using translate_mapped [OF assms(1) v] by blast
qed

definition demo_table :: EmulationPageTable where
  "demo_table = \<lparr>pTable = Map.empty, pageSize = 0x1000, offsetMask = 0xfff\<rparr>"

lemma demo_table_wf: "pt_wf 12 demo_table"
  by (simp add: pt_wf_def demo_table_def mask_eq_exp_minus_1)

lemma demo_table_unmapped: "isUnmapped demo_table 0x1000 0x2000 = Some True"
  using isUnmapped_spec [OF demo_table_wf, where v = "0x1000" and sz = "0x2000"]
  by (simp add: demo_table_def pageOffset_def)

theorem map_then_translate_witness:
  "\<exists>pt'. pt_map demo_table 0x1000 0x5000 0x2000 0 = Some pt' \<and> pt_wf 12 pt' \<and>
    (\<forall>x. translate pt' x =
      (if unat (x - 0x1000) < pages_of 12 0x2000 * 2 ^ 12 then Some (0x5000 + (x - 0x1000))
       else translate demo_table x))"
  by (rule map_then_translate)
    (simp_all add: demo_table_wf demo_table_unmapped, simp add: demo_table_def pageOffset_def)

section \<open>Saving and restoring the table\<close>

lemma pt_unserialize_entries:
  assumes "set order \<subseteq> dom (pTable src)"
  shows "pt_unserialize (pt_serialize order src) pt =
    pt\<lparr>pTable := \<lambda>a. if a \<in> set order \<and> pTable pt a = None then pTable src a else pTable pt a\<rparr>"
  using assms
proof (induction order arbitrary: pt)
  case Nil
  then show ?case by (simp add: pt_serialize_def)
next
  case (Cons v order)
  then obtain e where e: "pTable src v = Some e" by auto
  let ?pt = "if pTable pt v = None then pt\<lparr>pTable := (pTable pt)(v \<mapsto> e)\<rparr> else pt"
  have "pt_unserialize (pt_serialize (v # order) src) pt =
      pt_unserialize (pt_serialize order src) ?pt"
    using e by (cases e) (simp add: pt_serialize_def PTEntry_def)
  also have "\<dots> = ?pt\<lparr>pTable :=
      \<lambda>a. if a \<in> set order \<and> pTable ?pt a = None then pTable src a else pTable ?pt a\<rparr>"
    using Cons by simp
  also have "\<dots> = pt\<lparr>pTable :=
      \<lambda>a. if a \<in> set (v # order) \<and> pTable pt a = None then pTable src a else pTable pt a\<rparr>"
    using e by (auto simp: fun_eq_iff intro!: arg_cong [where f = "\<lambda>t. pt\<lparr>pTable := t\<rparr>"])
  finally show ?case .
qed

text \<open>
  C32. Writing a page table to a checkpoint, in whatever order the hash map is traversed, and reading
  the sections back into an empty table of the same geometry gives the same table.
\<close>

theorem ptable_roundtrip:
  assumes "set order = dom (pTable pt)"
  shows "pt_unserialize (pt_serialize order pt) (pt\<lparr>pTable := Map.empty\<rparr>) = pt"
proof -
  have "(\<lambda>a. if a \<in> set order \<and> True then pTable pt a else None) = pTable pt"
    using assms by (auto simp: fun_eq_iff domIff)
  with assms show ?thesis by (simp add: pt_unserialize_entries cong: if_cong)
qed

theorem ptable_roundtrip_witness:
  "pt_unserialize (pt_serialize [0x3000, 0x1000]
      (demo_table\<lparr>pTable := [0x1000 \<mapsto> PTEntry 0x5000 0, 0x3000 \<mapsto> PTEntry 0x6000 8]\<rparr>))
    (demo_table\<lparr>pTable := [0x1000 \<mapsto> PTEntry 0x5000 0, 0x3000 \<mapsto> PTEntry 0x6000 8],
       pTable := Map.empty\<rparr>) =
   demo_table\<lparr>pTable := [0x1000 \<mapsto> PTEntry 0x5000 0, 0x3000 \<mapsto> PTEntry 0x6000 8]\<rparr>"
  by (rule ptable_roundtrip) auto

section \<open>Physical frames are never shared\<close>

text \<open>
  The state of the allocator and the table: all frames in use lie below the allocation pointer,
  frames are page aligned and no frame backs two virtual pages.  The memory ends below the range
  that \<open>allocPhysPages\<close> reserves for the simulator's pseudo operations.
\<close>

definition frames_ok :: "Process \<Rightarrow> bool" where
  "frames_ok p = (let pt = pTable (proc_pTable p); sys = proc_system p in
     pt_wf PageShift (proc_pTable p) \<and>
     unat (physmem_size sys) < 0xffff0000 \<and>
     unat (pagePtr sys) * 2 ^ PageShift \<le> unat (physmem_size sys) \<and>
     (\<forall>v e. pt v = Some e \<longrightarrow> take_bit PageShift v = 0 \<and> take_bit PageShift (pte_paddr e) = 0 \<and>
        unat (pte_paddr e) < unat (pagePtr sys) * 2 ^ PageShift) \<and>
     (\<forall>v v' e e'. pt v = Some e \<longrightarrow> pt v' = Some e' \<longrightarrow> pte_paddr e = pte_paddr e' \<longrightarrow> v = v'))"

lemma frames_okD:
  assumes "frames_ok p"
  shows "pt_wf PageShift (proc_pTable p)"
    and "unat (physmem_size (proc_system p)) < 0xffff0000"
    and "unat (pagePtr (proc_system p)) * 2 ^ PageShift \<le> unat (physmem_size (proc_system p))"
    and "pTable (proc_pTable p) v = Some e \<Longrightarrow> take_bit PageShift v = 0"
    and "pTable (proc_pTable p) v = Some e \<Longrightarrow> take_bit PageShift (pte_paddr e) = 0"
    and "pTable (proc_pTable p) v = Some e \<Longrightarrow>
         unat (pte_paddr e) < unat (pagePtr (proc_system p)) * 2 ^ PageShift"
    and "pTable (proc_pTable p) v = Some e \<Longrightarrow> pTable (proc_pTable p) v' = Some e' \<Longrightarrow>
         pte_paddr e = pte_paddr e' \<Longrightarrow> v = v'"
  using assms unfolding frames_ok_def Let_def by blast+

lemma translate_inj:
  assumes "frames_ok p" and "translate (proc_pTable p) x = Some y"
    and "translate (proc_pTable p) x' = Some y"
  shows "x = x'"
proof -
  let ?pt = "proc_pTable p"
  note wf = frames_okD(1) [OF assms(1)]
  have split: "\<exists>e. pTable ?pt (pageAlign ?pt z) = Some e \<and> y = take_bit PageShift z + pte_paddr e \<and>
      take_bit PageShift y = take_bit PageShift z"
    if z: "translate ?pt z = Some y" for z
  proof -
    obtain e where e: "pTable ?pt (pageAlign ?pt z) = Some e"
        "y = take_bit PageShift z + pte_paddr e"
      using z wf by (auto simp: translate_def pt_lookup_def pageOffset_take_bit split: option.splits)
    have "take_bit PageShift y = take_bit PageShift (take_bit PageShift z)"
      unfolding e(2) by (subst add.commute, rule take_bit_add_aligned)
        (use frames_okD(5) [OF assms(1) e(1)] in \<open>simp_all add: PageShift_def\<close>)
    then have "take_bit PageShift y = take_bit PageShift z" by (simp only: take_bit_take_bit min.idem)
    with e show ?thesis by blast
  qed
  obtain e e' where e: "pTable ?pt (pageAlign ?pt x) = Some e" "y = take_bit PageShift x + pte_paddr e"
      "take_bit PageShift y = take_bit PageShift x"
    and e': "pTable ?pt (pageAlign ?pt x') = Some e'" "y = take_bit PageShift x' + pte_paddr e'"
      "take_bit PageShift y = take_bit PageShift x'"
    using split [OF assms(2)] split [OF assms(3)] by blast
  then have "pageAlign ?pt x = pageAlign ?pt x'"
    using frames_okD(7) [OF assms(1) e(1) e'(1)] by (metis add_left_cancel)
  with e(3) e'(3) show ?thesis unfolding pageAlign_take_bit [OF wf] by (metis diff_add_cancel)
qed

lemma pt_map_loop_panics:
  assumes "pt_wf k pt" and "n * 2 ^ k \<le> 2 ^ 64" and "(int n - 1) * 2 ^ k < sz"
    and "mapped_page k v n a" and "pTable pt a \<noteq> None"
  shows "pt_map_loop False f pt v p sz = None"
  using assms
proof (induction n arbitrary: pt v p sz)
  case (Suc n)
  have k: "k < 64" and P: "pageSize pt = 2 ^ k" using Suc.prems(1) by (auto simp: pt_wf_def)
  have pos: "0 < sz" and sz: "(int n - 1) * 2 ^ k < sz - 2 ^ k"
    using Suc.prems(3) le_less_trans [of 0 "int n * 2 ^ k" sz] by (simp_all add: algebra_simps)
  show ?case
  proof (cases "pTable pt v = None")
    case True
    then have "mapped_page k (v + 2 ^ k) n a" "a \<noteq> v"
      using mapped_page_Suc [OF k Suc.prems(2), of v] Suc.prems(4,5) by auto
    then have "pt_map_loop False f (pt\<lparr>pTable := (pTable pt)(v \<mapsto> PTEntry p f)\<rparr>) (v + 2 ^ k)
        (p + 2 ^ k) (sz - 2 ^ k) = None"
      using Suc.prems(1,2,5) sz by (intro Suc.IH) (auto simp: pt_wf_def)
    with True pos show ?thesis
      by (subst pt_map_loop.simps) (simp add: P uint_exp [OF k])
  next
    case False
    then have "assert_that (pTable pt v = None \<or> False) = None" by simp
    with pos show ?thesis by (subst pt_map_loop.simps) (simp only: if_True bind.bind_lzero)
  qed
qed simp

lemma pt_map_Some:
  assumes "pt_map pt v p sz f = Some pt'" and wf: "pt_wf k pt" and sz: "0 \<le> sz" "sz < 2 ^ 63"
  shows "take_bit k v = 0" and "pt' = pt\<lparr>pTable := \<lambda>a. if mapped_page k v (pages_of k sz) a
      then Some (PTEntry (p + (a - v)) f) else pTable pt a\<rparr>"
proof -
  have k: "k < 63" using wf by (simp add: pt_wf_def)
  have loop: "pt_map_loop (f AND Clobber \<noteq> 0) f pt v p sz = Some pt'" and "pageOffset pt v = 0"
    using assms(1) by (auto simp: pt_map_def)
  then show "take_bit k v = 0" by (simp add: pageOffset_take_bit [OF wf])
  have "\<forall>a. mapped_page k v (pages_of k sz) a \<longrightarrow> pTable pt a = None" if "\<not> f AND Clobber \<noteq> 0"
    using pt_map_loop_panics [OF wf pages_of_fit [OF sz k] pages_of_bounds(1) [OF sz(1)]] loop that
    by fastforce
  then show "pt' = pt\<lparr>pTable := \<lambda>a. if mapped_page k v (pages_of k sz) a
      then Some (PTEntry (p + (a - v)) f) else pTable pt a\<rparr>"
    using pt_map_loop_spec [OF wf pages_of_fit [OF sz k] pages_of_bounds [OF sz(1)],
        of "f AND Clobber \<noteq> 0" v f p] loop by simp
qed

lemma unat_push_page: "unat w < 2 ^ 52 \<Longrightarrow> unat (push_bit PageShift (w :: Addr)) = unat w * 2 ^ PageShift"
  by (simp add: PageShift_def push_bit_eq_mult unat_mult_lem [THEN iffD1] unat_word_ariths)

lemma allocPhysPages_Some:
  assumes "allocPhysPages sys n = Some (a, sys')" and "n \<le> 2 ^ 51"
    and "unat (physmem_size sys) < 0xffff0000"
    and "unat (pagePtr sys) * 2 ^ PageShift \<le> unat (physmem_size sys)"
  shows "unat a = unat (pagePtr sys) * 2 ^ PageShift"
    and "take_bit PageShift a = 0"
    and "unat (pagePtr sys') = unat (pagePtr sys) + n"
    and "physmem_size sys' = physmem_size sys"
    and "unat (pagePtr sys') * 2 ^ PageShift \<le> unat (physmem_size sys)"
proof -
  let ?ptr = "pagePtr sys + word_of_nat n"
  have small: "unat (pagePtr sys) < 2 ^ 20" using assms(3,4) by (simp add: PageShift_def)
  have n: "unat (word_of_nat n :: Addr) = n" using assms(2) by (simp add: unat_of_nat)
  have ptr: "unat ?ptr = unat (pagePtr sys) + n"
    using small assms(2) n by (simp add: unat_word_ariths)
  have "\<not> contains (AddrRange_plain 0xffff0000 0xffffffff) (push_bit PageShift ?ptr)"
  proof
    assume "contains (AddrRange_plain 0xffff0000 0xffffffff) (push_bit PageShift ?ptr)"
    then have "\<not> push_bit PageShift (drop_bit PageShift 0xffffffff) > physmem_size sys"
      using assms(1) by (simp add: allocPhysPages_def Let_def)
    then show False using assms(3) by (simp add: PageShift_def word_less_nat_alt)
  qed
  then have res: "a = push_bit PageShift (pagePtr sys)" "sys' = sys\<lparr>pagePtr := ?ptr\<rparr>"
      "push_bit PageShift ?ptr \<le> physmem_size sys"
    using assms(1) by (auto simp: allocPhysPages_def Let_def not_less)
  show "unat a = unat (pagePtr sys) * 2 ^ PageShift"
    unfolding res(1) using small by (intro unat_push_page) simp
  show "take_bit PageShift a = 0" unfolding res(1) by (simp add: take_bit_push_bit)
  show "unat (pagePtr sys') = unat (pagePtr sys) + n" by (simp add: res(2) ptr)
  show "physmem_size sys' = physmem_size sys" by (simp add: res(2))
  have "unat (push_bit PageShift ?ptr) = unat ?ptr * 2 ^ PageShift"
    using small assms(2) ptr by (intro unat_push_page) simp
  then show "unat (pagePtr sys') * 2 ^ PageShift \<le> unat (physmem_size sys)"
    using res(2,3) by (simp add: word_le_nat_alt)
qed

lemma mapped_page_aligned:
  assumes "mapped_page k v n a" and "take_bit k v = 0" and "k \<le> 64"
  shows "take_bit k (a - v) = 0" and "take_bit k a = 0"
proof -
  have "unat (take_bit k (a - v)) = 0"
    using assms(1) unfolding unsigned_take_bit_eq mapped_page_def
    by (simp add: take_bit_eq_mod mod_eq_0_iff_dvd)
  then show d: "take_bit k (a - v) = 0" by (simp only: unat_eq_zero)
  have "take_bit k (v + (a - v)) = take_bit k (a - v)"
    using assms(2,3) by (rule take_bit_add_aligned)
  with d show "take_bit k a = 0" by simp
qed

lemma new_frame:
  assumes "mapped_page PageShift v n a" and "take_bit PageShift v = 0"
    and "take_bit PageShift pa = 0" and "unat pa = m * 2 ^ PageShift"
    and "(m + n) * 2 ^ PageShift \<le> c" and "c < 0xffff0000"
  shows "take_bit PageShift a = 0" and "take_bit PageShift (pa + (a - v)) = 0"
    and "unat (pa + (a - v)) = m * 2 ^ PageShift + unat (a - v)"
    and "unat (pa + (a - v)) < (m + n) * 2 ^ PageShift"
proof -
  have le: "PageShift \<le> 64" by (simp add: PageShift_def)
  note al = mapped_page_aligned [OF assms(1,2) le]
  show "take_bit PageShift a = 0" by (rule al(2))
  show "take_bit PageShift (pa + (a - v)) = 0"
    using take_bit_add_aligned [OF assms(3) le, of "a - v"] al(1) by (simp only:)
  have lt: "unat (a - v) < n * 2 ^ PageShift" using assms(1) by (simp add: mapped_page_def)
  then have "m * 2 ^ PageShift + unat (a - v) < (m + n) * 2 ^ PageShift"
    by (simp add: add_mult_distrib)
  moreover from this have "m * 2 ^ PageShift + unat (a - v) < 2 ^ 64" using assms(5,6) by simp
  ultimately show "unat (pa + (a - v)) = m * 2 ^ PageShift + unat (a - v)"
    and "unat (pa + (a - v)) < (m + n) * 2 ^ PageShift"
    by (simp_all add: unat_word_ariths assms(4))
qed

lemma allocateMem_frames:
  assumes ok: "frames_ok p" and step: "allocateMem p v sz c = Some p'" and sz: "0 \<le> sz" "sz < 2 ^ 63"
  shows "frames_ok p'"
proof -
  define n where "n = pages_of PageShift sz"
  obtain pa sys f pt where alloc: "allocPhysPages (proc_system p) n = Some (pa, sys)"
    and map: "pt_map (proc_pTable p) v pa sz f = Some pt"
    and p': "p' = p\<lparr>proc_pTable := pt, proc_system := sys\<rparr>"
    using step by (auto simp: allocateMem_def n_def pages_of_def PageBytes_def push_bit_eq_mult
        uint_exp PageShift_def bind_eq_Some_conv Let_def split: prod.splits)
  note okD = frames_okD [OF ok]
  have "(int n - 1) * 2 ^ PageShift < 2 ^ 63"
    using pages_of_bounds(1) [OF sz(1), of PageShift] sz(2) by (simp add: n_def)
  then have "n \<le> 2 ^ 51" by (simp add: PageShift_def)
  note a = allocPhysPages_Some [OF alloc this okD(2,3)]
  note m = pt_map_Some [OF map okD(1) sz, folded n_def]
  let ?page = "mapped_page PageShift v n" and ?m = "unat (pagePtr (proc_system p))"
  have room: "(?m + n) * 2 ^ PageShift \<le> unat (physmem_size (proc_system p))" using a(3,5) by simp
  note new = new_frame [OF _ m(1) a(2,1) room okD(2)]
  have entry: "if ?page w then pte_paddr e = pa + (w - v) else pTable (proc_pTable p) w = Some e"
    if "pTable pt w = Some e" for w e
    using that by (auto simp: m(2) PTEntry_def)
  have below: "take_bit PageShift w = 0 \<and> take_bit PageShift (pte_paddr e) = 0 \<and>
      unat (pte_paddr e) < unat (pagePtr sys) * 2 ^ PageShift" if e: "pTable pt w = Some e" for w e
  proof (cases "?page w")
    case True
    with entry [OF e] new [OF True] a(3) show ?thesis by simp
  next
    case False
    then have old: "pTable (proc_pTable p) w = Some e" using entry [OF e] by simp
    have "?m * 2 ^ PageShift \<le> unat (pagePtr sys) * 2 ^ PageShift" using a(3) by simp
    with okD(4,5,6) [OF old] show ?thesis using less_le_trans by blast
  qed
  have inj: "w = w'" if "pTable pt w = Some e" "pTable pt w' = Some e'" "pte_paddr e = pte_paddr e'"
    for w w' e e'
    using entry [OF that(1)] entry [OF that(2)] that(3) okD(6,7) new(3) [of w] new(3) [of w']
    by (cases "?page w"; cases "?page w'") fastforce+
  have "pt_wf PageShift pt" using okD(1) by (simp add: m(2) pt_wf_def)
  then show ?thesis
    using below inj a(4,5) okD(2) unfolding frames_ok_def Let_def p' by simp
qed

lemma PageBytes_size: "0 \<le> uint PageBytes" "uint PageBytes < 2 ^ 63"
  by (simp_all add: PageBytes_def PageShift_def)

lemma extend_stack_frames:
  assumes "extend_stack vaddr p m = Some r" and "frames_ok p"
  shows "frames_ok (fst r)"
proof -
  have "frames_ok p \<longrightarrow> frames_ok (fst r)"
  proof (rule extend_stack.raw_induct [where P = "\<lambda>_ p _ r. frames_ok p \<longrightarrow> frames_ok (fst r)",
        OF _ assms(1)], rule impI)
    fix loop vaddr p m r
    assume IH: "\<And>vaddr p m r. loop vaddr p m = Some r \<Longrightarrow> frames_ok p \<longrightarrow> frames_ok (fst r)"
      and body: "(if vaddr < m then let m = m - PageBytes in
          if maxStackSize p < stackBase p - m then None
          else case allocateMem p m (uint PageBytes) False of None \<Rightarrow> None
            | Some p' \<Rightarrow> loop vaddr p' m
        else Some (p, m)) = Some r" and ok: "frames_ok p"
    show "frames_ok (fst r)"
    proof (cases "vaddr < m")
      case True
      then obtain p' where p': "allocateMem p (m - PageBytes) (uint PageBytes) False = Some p'"
        and rest: "loop vaddr p' (m - PageBytes) = Some r"
        using body by (auto simp: Let_def split: if_splits option.splits)
      from allocateMem_frames [OF ok p' PageBytes_size] IH [OF rest] show ?thesis by blast
    next
      case False
      with body ok show ?thesis by auto
    qed
  qed
  with assms(2) show ?thesis by blast
qed

lemma frames_ok_stackMin [simp]: "frames_ok (p\<lparr>stackMin := m\<rparr>) = frames_ok p"
  by (simp add: frames_ok_def)

lemma fixupStackFault_frames:
  assumes "fixupStackFault p vaddr = Some (b, p')" and ok: "frames_ok p"
  shows "frames_ok p'"
proof -
  from assms(1) consider v where "allocateMem p v (uint PageBytes) False = Some p'"
    | q m where "extend_stack vaddr p (stackMin p) = Some (q, m)" "p' = q\<lparr>stackMin := m\<rparr>"
    | "p' = p"
    by (auto simp: fixupStackFault_def bind_eq_Some_conv split: if_splits prod.splits)
  then show ?thesis
  proof cases
    case 1
    with ok show ?thesis using PageBytes_size by (rule allocateMem_frames)
  next
    case 2
    then show ?thesis using extend_stack_frames [OF 2(1) ok] by simp
  qed (simp add: ok)
qed

text \<open>What the running process does to its address space: allocations and stack faults.\<close>

inductive proc_step :: "Process \<Rightarrow> Process \<Rightarrow> bool" where
  alloc: "allocateMem p v sz c = Some p' \<Longrightarrow> 0 \<le> sz \<Longrightarrow> sz < 2 ^ 63 \<Longrightarrow> proc_step p p'"
| stack: "fixupStackFault p v = Some (b, p') \<Longrightarrow> proc_step p p'"

inductive_cases proc_stepE: "proc_step p p'"

lemma proc_steps_frames:
  "proc_step\<^sup>*\<^sup>* p p' \<Longrightarrow> frames_ok p \<Longrightarrow> frames_ok p'"
  by (induction rule: rtranclp_induct)
    (auto elim!: proc_stepE intro: allocateMem_frames fixupStackFault_frames)

end
