(* ===== verification/CheckpointRegs.thy ===== *)
theory CheckpointRegs
  imports PageTable
begin

text \<open>
  Registers of a checkpoint.  The writer is class \<open>RegisterValues\<close> of
  \<open>src/lapidary/checkpoint/CheckpointTemplate.py\<close>, which prints the register arrays of a gem5
  checkpoint from a stopped process; the reader is gem5, whose register numbers come from
  \<open>arch/x86/regs\<close>.  A printed register string is the list of its numbers.  The lines of gdb's
  register listing enter already matched against the three regular expressions of the class.
\<close>

section \<open>RegisterValues\<close>

text \<open>\<open>'{}'.format(i)\<close> of a number.\<close>

fun dec :: "nat \<Rightarrow> string" where
  "dec n = (if n < 10 then [char_of (48 + n)] else dec (n div 10) @ [char_of (48 + n mod 10)])"

declare dec.simps [simp del]

datatype gdb_line = RegLine string nat | EflagsLine nat | MxcsrLine nat | OtherLine

record RegisterValues =
  regvals :: "string \<Rightarrow> nat option"
  rv_fs_base :: nat

definition reg_defaults :: "string \<Rightarrow> nat option" where
  "reg_defaults = map_of [
     (''cr0'', 2147483699), (''dr6'', 4294905840), (''dr7'', 1024), (''m5'', 243440),
     (''efer'', 19713), (''es_attr'', 46043), (''cs_attr'', 43731), (''ss_attr'', 46043),
     (''ds_attr'', 46043), (''fs_attr'', 46043), (''gs_attr'', 46043), (''hs_attr'', 46043),
     (''tsl_attr'', 46043), (''tsg_attr'', 46043), (''ls_attr'', 46043), (''ms_attr'', 46043),
     (''tr_attr'', 46043), (''idtr_attr'', 46043)]"

fun read_line :: "gdb_line \<Rightarrow> (string \<Rightarrow> nat option) \<Rightarrow> (string \<Rightarrow> nat option)" where
  "read_line (RegLine name v) m = m(name \<mapsto> v)"
| "read_line (EflagsLine v) m = m(''rflags'' \<mapsto> v)"
| "read_line (MxcsrLine v) m = m(''mxcsr'' \<mapsto> v)"
| "read_line OtherLine m = m"

definition xmm_high :: "nat \<Rightarrow> string" where "xmm_high i = ''xmm'' @ dec i @ ''_high''"
definition xmm_low :: "nat \<Rightarrow> string" where "xmm_low i = ''xmm'' @ dec i @ ''_low''"

text \<open>
  The second loop asks gdb for \<open>xmm0\<close> to \<open>xmm15\<close>; \<open>floats i\<close> are the two numbers of the
  \<open>v2_int64\<close> view of register \<open>i\<close>, when the answer has one.
\<close>

definition read_xmm :: "(nat \<Rightarrow> (nat \<times> nat) option) \<Rightarrow> nat \<Rightarrow> (string \<Rightarrow> nat option) \<Rightarrow> (string \<Rightarrow> nat option)" where
  "read_xmm floats i m = (case floats i of
     None \<Rightarrow> m
   | Some (fst_val, snd_val) \<Rightarrow> m(xmm_high i \<mapsto> fst_val, xmm_low i \<mapsto> snd_val))"

definition RegisterValues :: "nat \<Rightarrow> gdb_line list \<Rightarrow> (nat \<Rightarrow> (nat \<times> nat) option) \<Rightarrow> RegisterValues" where
  "RegisterValues fs raw floats =
     \<lparr>regvals = fold (read_xmm floats) [0..<16] (fold read_line raw reg_defaults), rv_fs_base = fs\<rparr>"

definition getitem :: "RegisterValues \<Rightarrow> string \<Rightarrow> nat" where
  "getitem r regname = (case regvals r regname of
     None \<Rightarrow> if regname = ''fs_base'' \<or> regname = ''fs_eff_base'' then rv_fs_base r else 0
   | Some v \<Rightarrow> v)"

definition int_reg_names :: "string list" where
  "int_reg_names = [''rax'', ''rcx'', ''rdx'', ''rbx'', ''rsp'', ''rbp'', ''rsi'', ''rdi'',
     ''r8'', ''r9'', ''r10'', ''r11'', ''r12'', ''r13'', ''r14'', ''r15'']"

definition get_int_reg_string :: "RegisterValues \<Rightarrow> nat list" where
  "get_int_reg_string r = map (getitem r) int_reg_names @ replicate 22 0"

definition float_reg_names :: "string list" where
  "float_reg_names =
     map dec [0..<8] @
     map (\<lambda>i. ''fpr'' @ dec i) [0..<8] @
     map (\<lambda>i. ''xmm'' @ dec (i div 2) @ (if i mod 2 \<noteq> 0 then ''_low'' else ''_high'')) [0..<32] @
     map (\<lambda>i. ''microfp'' @ dec i) [0..<8]"

definition get_float_reg_string :: "RegisterValues \<Rightarrow> nat list" where
  "get_float_reg_string r = map (getitem r) float_reg_names"

definition get_pc_string :: "RegisterValues \<Rightarrow> nat" where
  "get_pc_string r = getitem r ''rip''"

definition segment_names :: "string list" where
  "segment_names = [''es'', ''cs'', ''ss'', ''ds'', ''fs'', ''gs'', ''hs'', ''tsl'', ''tsg'', ''ls'',
     ''ms'', ''tr'', ''idtr'']"

definition misc_reg_names :: "string list" where
  "misc_reg_names =
     map (\<lambda>i. ''cr'' @ dec i) [0..<16] @
     map (\<lambda>i. ''dr'' @ dec i) [0..<8] @
     [''rflags'', ''m5'', ''tsc'', ''mtrrcap'', ''sysenter_cs'', ''sysenter_esp'',
      ''sysenter_eip'', ''mcg_cap'', ''mcg_status'', ''mcg_ctl'', ''debug_ctl_msr'',
      ''lbfi'', ''lbti'', ''lefi'', ''leti''] @
     map (\<lambda>i. ''mtrr_phys_base'' @ dec i) [0..<8] @
     map (\<lambda>i. ''mtrr_phys_mask'' @ dec i) [0..<8] @
     map (\<lambda>i. ''mtrr_fix'' @ dec i) [0..<11] @
     [''pat'', ''def_type''] @
     map (\<lambda>i. ''mc'' @ dec i @ ''_ctl'') [0..<8] @
     map (\<lambda>i. ''mc'' @ dec i @ ''_status'') [0..<8] @
     map (\<lambda>i. ''mc'' @ dec i @ ''_addr'') [0..<8] @
     map (\<lambda>i. ''mc'' @ dec i @ ''_misc'') [0..<8] @
     [''efer'', ''star'', ''lstar'', ''cstar'', ''sf_mask'', ''kernel_gs_base'', ''tsc_aux''] @
     map (\<lambda>i. ''perf_evt_sel'' @ dec i) [0..<4] @
     map (\<lambda>i. ''perf_evt_ctr'' @ dec i) [0..<4] @
     [''syscfg'', ''iorr_base0'', ''iorr_base1'', ''iorr_mask0'', ''iorr_mask1'', ''top_mem'',
      ''top_mem2'', ''vm_cr'', ''ignne'', ''smm_ctl'', ''vm_hsave_pa''] @
     segment_names @
     map (\<lambda>s. s @ ''_base'') segment_names @
     map (\<lambda>s. s @ ''_eff_base'') segment_names @
     map (\<lambda>s. s @ ''_limit'') segment_names @
     map (\<lambda>s. s @ ''_attr'') segment_names @
     [''x87_top'', ''mxcsr'', ''fcw'', ''fsw'', ''ftw'', ''ftag'', ''fiseg'', ''fioff'', ''foseg'',
      ''fooff'', ''fop'', ''apic_base'', ''pci_config_address'']"

definition get_misc_reg_string :: "RegisterValues \<Rightarrow> nat list" where
  "get_misc_reg_string r = map (getitem r) misc_reg_names"

section \<open>gem5's register numbers\<close>

definition NumMicroIntRegs :: nat where "NumMicroIntRegs = 16"
definition NumImplicitIntRegs :: nat where "NumImplicitIntRegs = 6"
definition NumMMXRegs :: nat where "NumMMXRegs = 8"
definition NumXMMRegs :: nat where "NumXMMRegs = 16"
definition NumMicroFpRegs :: nat where "NumMicroFpRegs = 8"
definition NumCRegs :: nat where "NumCRegs = 16"
definition NumDRegs :: nat where "NumDRegs = 8"
definition NUM_INTREGS :: nat where "NUM_INTREGS = 16"
definition NUM_SEGMENTREGS :: nat where "NUM_SEGMENTREGS = 13"

definition NumIntRegs :: nat where "NumIntRegs = NUM_INTREGS + NumMicroIntRegs + NumImplicitIntRegs"
definition NumFloatRegs :: nat where
  "NumFloatRegs = NumMMXRegs + 2 * NumXMMRegs + NumMicroFpRegs + 8"

definition FLOATREG_MMX_BASE :: nat where "FLOATREG_MMX_BASE = 0"
definition FLOATREG_FPR_BASE :: nat where "FLOATREG_FPR_BASE = FLOATREG_MMX_BASE"
definition FLOATREG_XMM_BASE :: nat where "FLOATREG_XMM_BASE = FLOATREG_MMX_BASE + NumMMXRegs"
definition FLOATREG_MICROFP_BASE :: nat where "FLOATREG_MICROFP_BASE = FLOATREG_XMM_BASE + 2 * NumXMMRegs"
definition FLOATREG_XMM_LOW :: "nat \<Rightarrow> nat" where "FLOATREG_XMM_LOW i = FLOATREG_XMM_BASE + 2 * i"
definition FLOATREG_XMM_HIGH :: "nat \<Rightarrow> nat" where "FLOATREG_XMM_HIGH i = FLOATREG_XMM_BASE + 2 * i + 1"

definition MISCREG_CR_BASE :: nat where "MISCREG_CR_BASE = 0"
definition MISCREG_DR_BASE :: nat where "MISCREG_DR_BASE = MISCREG_CR_BASE + NumCRegs"
definition MISCREG_RFLAGS :: nat where "MISCREG_RFLAGS = MISCREG_DR_BASE + NumDRegs"
definition MISCREG_M5_REG :: nat where "MISCREG_M5_REG = MISCREG_RFLAGS + 1"
definition MISCREG_MTRR_PHYS_BASE_BASE :: nat where "MISCREG_MTRR_PHYS_BASE_BASE = MISCREG_M5_REG + 14"
definition MISCREG_MTRR_PHYS_MASK_BASE :: nat where
  "MISCREG_MTRR_PHYS_MASK_BASE = MISCREG_MTRR_PHYS_BASE_BASE + 8"
definition MISCREG_MTRR_FIX_64K_00000 :: nat where
  "MISCREG_MTRR_FIX_64K_00000 = MISCREG_MTRR_PHYS_MASK_BASE + 8"
definition MISCREG_PAT :: nat where "MISCREG_PAT = MISCREG_MTRR_FIX_64K_00000 + 11"
definition MISCREG_MC_CTL_BASE :: nat where "MISCREG_MC_CTL_BASE = MISCREG_PAT + 2"
definition MISCREG_MC_STATUS_BASE :: nat where "MISCREG_MC_STATUS_BASE = MISCREG_MC_CTL_BASE + 8"
definition MISCREG_MC_ADDR_BASE :: nat where "MISCREG_MC_ADDR_BASE = MISCREG_MC_STATUS_BASE + 8"
definition MISCREG_MC_MISC_BASE :: nat where "MISCREG_MC_MISC_BASE = MISCREG_MC_ADDR_BASE + 8"
definition MISCREG_EFER :: nat where "MISCREG_EFER = MISCREG_MC_MISC_BASE + 8"
definition MISCREG_PERF_EVT_SEL_BASE :: nat where "MISCREG_PERF_EVT_SEL_BASE = MISCREG_EFER + 7"
definition MISCREG_PERF_EVT_CTR_BASE :: nat where
  "MISCREG_PERF_EVT_CTR_BASE = MISCREG_PERF_EVT_SEL_BASE + 4"
definition MISCREG_SYSCFG :: nat where "MISCREG_SYSCFG = MISCREG_PERF_EVT_CTR_BASE + 4"
definition MISCREG_TOP_MEM :: nat where "MISCREG_TOP_MEM = MISCREG_SYSCFG + 1 + 2 + 2"
definition MISCREG_SEG_SEL_BASE :: nat where "MISCREG_SEG_SEL_BASE = MISCREG_TOP_MEM + 6"
definition MISCREG_SEG_BASE_BASE :: nat where
  "MISCREG_SEG_BASE_BASE = MISCREG_SEG_SEL_BASE + NUM_SEGMENTREGS"
definition MISCREG_SEG_EFF_BASE_BASE :: nat where
  "MISCREG_SEG_EFF_BASE_BASE = MISCREG_SEG_BASE_BASE + NUM_SEGMENTREGS"
definition MISCREG_SEG_LIMIT_BASE :: nat where
  "MISCREG_SEG_LIMIT_BASE = MISCREG_SEG_EFF_BASE_BASE + NUM_SEGMENTREGS"
definition MISCREG_SEG_ATTR_BASE :: nat where
  "MISCREG_SEG_ATTR_BASE = MISCREG_SEG_LIMIT_BASE + NUM_SEGMENTREGS"
definition MISCREG_X87_TOP :: nat where "MISCREG_X87_TOP = MISCREG_SEG_ATTR_BASE + NUM_SEGMENTREGS"
definition MISCREG_MXCSR :: nat where "MISCREG_MXCSR = MISCREG_X87_TOP + 1"
definition NUM_MISCREGS :: nat where "NUM_MISCREGS = MISCREG_MXCSR + 12"

lemmas miscreg_defs =
  MISCREG_CR_BASE_def MISCREG_DR_BASE_def MISCREG_RFLAGS_def MISCREG_M5_REG_def
  MISCREG_MTRR_PHYS_BASE_BASE_def MISCREG_MTRR_PHYS_MASK_BASE_def MISCREG_MTRR_FIX_64K_00000_def
  MISCREG_PAT_def MISCREG_MC_CTL_BASE_def MISCREG_MC_STATUS_BASE_def MISCREG_MC_ADDR_BASE_def
  MISCREG_MC_MISC_BASE_def MISCREG_EFER_def MISCREG_PERF_EVT_SEL_BASE_def
  MISCREG_PERF_EVT_CTR_BASE_def MISCREG_SYSCFG_def MISCREG_TOP_MEM_def MISCREG_SEG_SEL_BASE_def
  MISCREG_SEG_BASE_BASE_def MISCREG_SEG_EFF_BASE_BASE_def MISCREG_SEG_LIMIT_BASE_def
  MISCREG_SEG_ATTR_BASE_def MISCREG_X87_TOP_def MISCREG_MXCSR_def NUM_MISCREGS_def
  NumCRegs_def NumDRegs_def NUM_SEGMENTREGS_def

section \<open>Every miscellaneous register lands at its index\<close>

lemma length_misc_reg_names: "length misc_reg_names = NUM_MISCREGS"
  by (simp add: misc_reg_names_def miscreg_defs segment_names_def)

lemma misc_names_indexed:
  "i < 16 \<Longrightarrow> misc_reg_names ! (MISCREG_CR_BASE + i) = ''cr'' @ dec i"
  "i < 8 \<Longrightarrow> misc_reg_names ! (MISCREG_DR_BASE + i) = ''dr'' @ dec i"
  "i < 8 \<Longrightarrow> misc_reg_names ! (MISCREG_MTRR_PHYS_BASE_BASE + i) = ''mtrr_phys_base'' @ dec i"
  "i < 8 \<Longrightarrow> misc_reg_names ! (MISCREG_MTRR_PHYS_MASK_BASE + i) = ''mtrr_phys_mask'' @ dec i"
  "i < 8 \<Longrightarrow> misc_reg_names ! (MISCREG_MC_CTL_BASE + i) = ''mc'' @ dec i @ ''_ctl''"
  "i < 8 \<Longrightarrow> misc_reg_names ! (MISCREG_MC_STATUS_BASE + i) = ''mc'' @ dec i @ ''_status''"
  "i < 8 \<Longrightarrow> misc_reg_names ! (MISCREG_MC_ADDR_BASE + i) = ''mc'' @ dec i @ ''_addr''"
  "i < 8 \<Longrightarrow> misc_reg_names ! (MISCREG_MC_MISC_BASE + i) = ''mc'' @ dec i @ ''_misc''"
  "i < 4 \<Longrightarrow> misc_reg_names ! (MISCREG_PERF_EVT_SEL_BASE + i) = ''perf_evt_sel'' @ dec i"
  "i < 4 \<Longrightarrow> misc_reg_names ! (MISCREG_PERF_EVT_CTR_BASE + i) = ''perf_evt_ctr'' @ dec i"
  by (simp_all add: misc_reg_names_def miscreg_defs nth_append segment_names_def)

lemma misc_names_segments:
  assumes "i < NUM_SEGMENTREGS"
  shows "misc_reg_names ! (MISCREG_SEG_SEL_BASE + i) = segment_names ! i"
    and "misc_reg_names ! (MISCREG_SEG_BASE_BASE + i) = segment_names ! i @ ''_base''"
    and "misc_reg_names ! (MISCREG_SEG_EFF_BASE_BASE + i) = segment_names ! i @ ''_eff_base''"
    and "misc_reg_names ! (MISCREG_SEG_LIMIT_BASE + i) = segment_names ! i @ ''_limit''"
    and "misc_reg_names ! (MISCREG_SEG_ATTR_BASE + i) = segment_names ! i @ ''_attr''"
proof -
  have len: "length segment_names = 13" by (simp add: segment_names_def)
  show "misc_reg_names ! (MISCREG_SEG_SEL_BASE + i) = segment_names ! i"
    and "misc_reg_names ! (MISCREG_SEG_BASE_BASE + i) = segment_names ! i @ ''_base''"
    and "misc_reg_names ! (MISCREG_SEG_EFF_BASE_BASE + i) = segment_names ! i @ ''_eff_base''"
    and "misc_reg_names ! (MISCREG_SEG_LIMIT_BASE + i) = segment_names ! i @ ''_limit''"
    and "misc_reg_names ! (MISCREG_SEG_ATTR_BASE + i) = segment_names ! i @ ''_attr''"
    using assms by (simp_all add: misc_reg_names_def miscreg_defs nth_append len)
qed

lemma misc_names_single:
  "misc_reg_names ! MISCREG_RFLAGS = ''rflags''"
  "misc_reg_names ! MISCREG_M5_REG = ''m5''"
  "misc_reg_names ! MISCREG_PAT = ''pat''"
  "misc_reg_names ! MISCREG_EFER = ''efer''"
  "misc_reg_names ! MISCREG_SYSCFG = ''syscfg''"
  "misc_reg_names ! MISCREG_TOP_MEM = ''top_mem''"
  "misc_reg_names ! MISCREG_X87_TOP = ''x87_top''"
  "misc_reg_names ! MISCREG_MXCSR = ''mxcsr''"
  by (simp_all add: misc_reg_names_def miscreg_defs nth_append segment_names_def)


lemma fold_read_xmm_None: "fold (read_xmm (\<lambda>_. None)) xs m = m"
  by (induction xs) (simp_all add: read_xmm_def)


section \<open>The floating-point registers are shifted\<close>

lemma dec_cases:
  "n < 10 \<Longrightarrow> dec n = [char_of (48 + n)]"
  "\<not> n < 10 \<Longrightarrow> dec n = dec (n div 10) @ [char_of (48 + n mod 10)]"
  by (subst dec.simps, simp)+

lemma dec_value: "foldl (\<lambda>a c. 10 * a + (of_char c - 48)) 0 (dec n) = n"
proof (induction n rule: dec.induct)
  case (1 n)
  then show ?case by (cases "n < 10") (simp_all add: dec_cases)
qed

lemma dec_inj: "dec i = dec j \<longleftrightarrow> i = j"
  by (metis dec_value)

lemma xmm_names_distinct [simp]:
  "xmm_high i = xmm_high j \<longleftrightarrow> i = j" "xmm_low i = xmm_low j \<longleftrightarrow> i = j"
  "xmm_high i \<noteq> xmm_low j" "xmm_low j \<noteq> xmm_high i"
proof -
  have "last (xmm_high i) = CHR ''h''" "last (xmm_low j) = CHR ''w''"
    by (simp_all add: xmm_high_def xmm_low_def)
  then have "last (xmm_high i) \<noteq> last (xmm_low j)" by simp
  then show ne: "xmm_high i \<noteq> xmm_low j" by (rule contrapos_nn) simp
  then show "xmm_low j \<noteq> xmm_high i" by (rule not_sym)
qed (simp_all add: xmm_high_def xmm_low_def dec_inj)

lemma read_xmms:
  assumes "i < n" and "floats i = Some (a, b)"
  shows "fold (read_xmm floats) [0..<n] m (xmm_high i) = Some a"
    and "fold (read_xmm floats) [0..<n] m (xmm_low i) = Some b"
  using assms(1)
proof (induction n)
  case (Suc n)
  { case 1 then show ?case using Suc assms(2)
      by (auto simp: read_xmm_def less_Suc_eq split: option.splits)
  next
    case 2 then show ?case using Suc assms(2)
      by (auto simp: read_xmm_def less_Suc_eq split: option.splits) }
qed simp_all

lemma float_names_xmm:
  assumes "i < 16"
  shows "float_reg_names ! (FLOATREG_XMM_LOW i + 8) = xmm_high i"
    and "float_reg_names ! (FLOATREG_XMM_HIGH i + 8) = xmm_low i"
  using assms by (simp_all add: float_reg_names_def FLOATREG_XMM_LOW_def FLOATREG_XMM_HIGH_def
      FLOATREG_XMM_BASE_def FLOATREG_MMX_BASE_def NumMMXRegs_def nth_append xmm_high_def xmm_low_def)

text \<open>
  C37. The printed floating-point array has the length gem5 reads, but the two halves of every XMM
  register stand eight places above the indices gem5 reads them from, because the eight x87
  registers are printed in addition to the eight MMX registers they share indices with.  In the
  restored thread XMM4 to XMM15 therefore hold the values of XMM0 to XMM11.
\<close>

theorem xmm_registers_shifted:
  fixes fs raw floats lo hi
  defines "v \<equiv> get_float_reg_string (RegisterValues fs raw floats)"
  assumes "\<forall>i < 16. floats i = Some (lo i, hi i)"
  shows "length v = NumFloatRegs \<and>
    (\<forall>i < 16. v ! (FLOATREG_XMM_LOW i + 8) = lo i \<and> v ! (FLOATREG_XMM_HIGH i + 8) = hi i) \<and>
    (\<forall>i < 12. v ! FLOATREG_XMM_LOW (i + 4) = lo i \<and> v ! FLOATREG_XMM_HIGH (i + 4) = hi i)"
proof -
  have len: "length float_reg_names = NumFloatRegs"
    by (simp add: float_reg_names_def NumFloatRegs_def NumMMXRegs_def NumXMMRegs_def NumMicroFpRegs_def)
  have placed: "v ! (FLOATREG_XMM_LOW i + 8) = lo i" "v ! (FLOATREG_XMM_HIGH i + 8) = hi i"
    if i: "i < 16" for i
  proof -
    have "FLOATREG_XMM_LOW i + 8 < NumFloatRegs" "FLOATREG_XMM_HIGH i + 8 < NumFloatRegs"
      using i by (simp_all add: FLOATREG_XMM_LOW_def FLOATREG_XMM_HIGH_def FLOATREG_XMM_BASE_def
          FLOATREG_MMX_BASE_def NumFloatRegs_def NumMMXRegs_def NumXMMRegs_def NumMicroFpRegs_def)
    then show "v ! (FLOATREG_XMM_LOW i + 8) = lo i" "v ! (FLOATREG_XMM_HIGH i + 8) = hi i"
      using read_xmms [OF i, of floats "lo i" "hi i"] assms(2) i
      by (simp_all add: v_def get_float_reg_string_def len float_names_xmm getitem_def RegisterValues_def)
  qed
  have "FLOATREG_XMM_LOW (i + 4) = FLOATREG_XMM_LOW i + 8"
    "FLOATREG_XMM_HIGH (i + 4) = FLOATREG_XMM_HIGH i + 8" for i
    by (simp_all add: FLOATREG_XMM_LOW_def FLOATREG_XMM_HIGH_def)
  then show ?thesis using placed by (simp add: v_def get_float_reg_string_def len)
qed

theorem xmm_registers_shifted_witness:
  "get_float_reg_string (RegisterValues 0 [] (\<lambda>i. Some (100 + i, 200 + i))) ! FLOATREG_XMM_LOW 5 = 101"
proof -
  have "\<forall>i < 12. get_float_reg_string (RegisterValues 0 [] (\<lambda>i. Some (100 + i, 200 + i))) !
      FLOATREG_XMM_LOW (i + 4) = 100 + i"
    using xmm_registers_shifted [of "\<lambda>i. Some (100 + i, 200 + i)" "\<lambda>i. 100 + i" "\<lambda>i. 200 + i" 0 "[]"]
    by blast
  from spec [OF this, of 1] show ?thesis by simp
qed

end
