(* ===== verification/Checkpoint.thy ===== *)
theory Checkpoint
  imports CheckpointRegs "HOL-Library.AList" "HOL-Library.Sublist"
begin

text \<open>
  The memory of a checkpoint: \<open>src/lapidary/checkpoint/GDBEngine.py\<close> lays the mapped regions of a
  stopped process out in physical memory, writes the page table into a gem5 checkpoint, and
  \<open>CheckpointConvert.py\<close> copies the core file into the physical memory image.  Python integers that
  gdb prints as addresses and sizes are natural numbers; a Python \<open>dict\<close> is an association list in
  insertion order.  Read from outside and therefore arguments: the matched lines of
  \<open>info proc mappings\<close>, the segments that the ELF library finds in the core file, the files on disk.
  \<open>None\<close> is a failed \<open>assert\<close>.
\<close>

section \<open>Regions and mappings (GDBEngine.py)\<close>

type_synonym byte = "8 word"

record Region =
  rg_vaddr :: nat
  rg_size :: nat
  rg_offset :: nat
  rg_name :: string

record MemoryMapping =
  mm_index :: nat
  mm_paddr :: nat
  mm_vaddr :: nat
  mm_size :: nat
  mm_offset :: nat
  mm_flags :: nat
  mm_name :: string

definition MemoryMapping :: "nat \<Rightarrow> nat \<Rightarrow> nat \<Rightarrow> nat \<Rightarrow> nat \<Rightarrow> nat \<Rightarrow> string \<Rightarrow> MemoryMapping" where
  "MemoryMapping i p v s ofs f name = \<lparr>mm_index = i, mm_paddr = p, mm_vaddr = v, mm_size = s,
     mm_offset = ofs, mm_flags = f, mm_name = name\<rparr>"

definition mm_contains :: "MemoryMapping \<Rightarrow> nat \<Rightarrow> bool" where
  "mm_contains m vaddr = (mm_vaddr m \<le> vaddr \<and> vaddr < mm_vaddr m + mm_size m)"

type_synonym mappings = "(nat \<times> MemoryMapping) list"

text \<open>\<open>resource.getpagesize()\<close> on the host, the page size of the simulated machine.\<close>

definition pgsize :: nat where "pgsize = 2 ^ PageShift"

definition get_virtual_addresses :: "Region list \<Rightarrow> nat list \<times> nat list \<times> nat list \<times> string list" where
  "get_virtual_addresses rs =
     (0 # map rg_vaddr rs, pgsize # map rg_size rs, 0 # map rg_offset rs, ''null'' # map rg_name rs)"

fun next_paddrs :: "nat \<Rightarrow> nat list \<Rightarrow> nat list" where
  "next_paddrs next_paddr [] = []"
| "next_paddrs next_paddr (s # sizes) = next_paddr # next_paddrs (next_paddr + s) sizes"

definition get_memory_regions ::
  "Region list \<Rightarrow> nat list \<times> nat list \<times> nat list \<times> nat list \<times> nat list \<times> string list" where
  "get_memory_regions rs =
     (let (vaddrs, sizes, offsets, names) = get_virtual_addresses rs;
          zipped = zip vaddrs sizes
      in (next_paddrs 0 (map snd zipped), vaddrs, sizes, offsets, replicate (length zipped) 0, names))"

text \<open>\<open>range(0, s, pgsize)\<close>\<close>

definition page_range :: "nat \<Rightarrow> nat list" where
  "page_range s = map (\<lambda>i. i * pgsize) [0..<(s + pgsize - 1) div pgsize]"

definition expand_region ::
  "nat \<Rightarrow> nat \<Rightarrow> nat \<Rightarrow> nat \<Rightarrow> nat \<Rightarrow> nat \<Rightarrow> string \<Rightarrow> mappings \<Rightarrow> mappings" where
  "expand_region index p v s ofs f name d =
     fold (\<lambda>off. AList.update (v + off)
       (MemoryMapping index (if p \<noteq> 0 then p + off else 0) (v + off) pgsize (ofs + off) f name))
       (page_range s) d"

fun map_regions ::
  "bool \<Rightarrow> nat \<Rightarrow> (nat \<times> nat \<times> nat \<times> nat \<times> nat \<times> string) list \<Rightarrow> mappings \<Rightarrow> mappings" where
  "map_regions expand index [] d = d"
| "map_regions expand index ((p, v, s, ofs, f, name) # rest) d =
     map_regions expand (index + 1) rest
       (if expand then expand_region index p v s ofs f name d
        else AList.update v (MemoryMapping index p v s ofs f name) d)"

definition create_mappings :: "Region list \<Rightarrow> bool \<Rightarrow> mappings option" where
  "create_mappings rs expand =
     (let (paddrs, vaddrs, sizes, offsets, flags, names) = get_memory_regions rs in do {
       assert_that (length paddrs = length vaddrs);
       assert_that (length paddrs = length sizes);
       assert_that (length paddrs = length flags);
       assert_that (length paddrs = length names);
       Some (map_regions expand 0
         (zip paddrs (zip vaddrs (zip sizes (zip offsets (zip flags names))))) [])
     })"

definition calculate_memory_size :: "mappings \<Rightarrow> nat" where
  "calculate_memory_size d = 2 * fold (\<lambda>(_, m) mem_size. max (mm_paddr m + mm_size m) mem_size) d 0"

definition BAD_MEM_REGIONS :: "string list" where
  "BAD_MEM_REGIONS = [''[vvar]'', ''[vsyscall]'']"

definition can_create_valid_checkpoint :: "mappings \<Rightarrow> nat \<Rightarrow> bool" where
  "can_create_valid_checkpoint d pc =
     list_all (\<lambda>(_, m). \<not> (mm_contains m pc \<and> mm_name m \<in> set BAD_MEM_REGIONS)) d"

definition get_mmap_end :: nat where "get_mmap_end = 18446744073692774400"

section \<open>The checkpoint file\<close>

text \<open>The parameters that the template \<open>check.tmpl/m5.cpt\<close> takes from the process.\<close>

record M5Cpt =
  cpt_floatRegs :: "nat list"
  cpt_intRegs :: "nat list"
  cpt_regVal :: "nat list"
  cpt_pc :: nat
  cpt_brkPoint :: nat
  cpt_stackBase :: nat
  cpt_stackSize :: nat
  cpt_maxStackSize :: nat
  cpt_stackMin :: nat
  cpt_mmapEnd :: nat
  cpt_entries :: "(nat \<times> nat \<times> nat) list"
  cpt_pagePtr :: nat
  cpt_range_size :: nat

definition fill_checkpoint_template ::
  "mappings \<Rightarrow> RegisterValues \<Rightarrow> nat \<Rightarrow> MemoryMapping \<Rightarrow> nat \<Rightarrow> nat \<Rightarrow> M5Cpt" where
  "fill_checkpoint_template d regs mem_size stack brk mmap_end =
     \<lparr>cpt_floatRegs = get_float_reg_string regs, cpt_intRegs = get_int_reg_string regs,
      cpt_regVal = get_misc_reg_string regs, cpt_pc = get_pc_string regs, cpt_brkPoint = brk,
      cpt_stackBase = mm_vaddr stack + mm_size stack, cpt_stackSize = mm_size stack,
      cpt_maxStackSize = 8388608, cpt_stackMin = mm_vaddr stack, cpt_mmapEnd = mmap_end,
      cpt_entries = map (\<lambda>(_, m). (mm_vaddr m, mm_paddr m, 0)) d,
      cpt_pagePtr = length d, cpt_range_size = mem_size\<rparr>"

text \<open>
  \<open>_create_gem5_checkpoint\<close>: the checkpoint, and the contents of \<open>mappings.json\<close> (the memory size
  and the unexpanded mappings).
\<close>

definition create_gem5_checkpoint ::
  "Region list \<Rightarrow> RegisterValues \<Rightarrow> nat \<Rightarrow> (M5Cpt \<times> nat \<times> mappings) option" where
  "create_gem5_checkpoint rs regs brk = do {
     template_mappings \<leftarrow> create_mappings rs True;
     let total_mem_size = calculate_memory_size template_mappings;
     file_mappings \<leftarrow> create_mappings rs False;
     let stack_mapping = filter (\<lambda>m. sublist ''stack'' (mm_name m)) (map snd file_mappings);
     assert_that (length stack_mapping = 1);
     Some (fill_checkpoint_template template_mappings regs total_mem_size (hd stack_mapping) brk
             get_mmap_end,
           total_mem_size, file_mappings)
   }"

section \<open>The memory image (CheckpointConvert.py)\<close>

text \<open>\<open>seek(pos)\<close> and \<open>write(buf)\<close> on a file: a gap before the position is filled with zeros.\<close>

definition seek_write :: "nat \<Rightarrow> byte list \<Rightarrow> byte list \<Rightarrow> byte list" where
  "seek_write pos buf img =
     take pos (img @ replicate (pos - length img) 0) @ buf @ drop (pos + length buf) img"

datatype p_type = PT_LOAD | PT_OTHER

record Segment =
  seg_type :: p_type
  p_vaddr :: nat
  p_filesz :: nat
  p_memsz :: nat
  seg_data :: "byte list"

definition write_shared :: "Segment list \<Rightarrow> byte list \<Rightarrow> nat \<Rightarrow> MemoryMapping \<Rightarrow> byte list \<Rightarrow> byte list" where
  "write_shared core content vaddr m img =
     fold (\<lambda>s img.
       if seg_type s \<noteq> PT_LOAD then img
       else if p_vaddr s \<le> vaddr \<and> vaddr < p_vaddr s + p_memsz s then img
       else seek_write (mm_paddr m) (take (mm_size m) (drop (mm_offset m) content)) img)
     core img"

definition write_shared_objects ::
  "(string \<Rightarrow> byte list option) \<Rightarrow> Segment list \<Rightarrow> mappings \<Rightarrow> byte list \<Rightarrow> byte list" where
  "write_shared_objects files core d img =
     fold (\<lambda>(vaddr, m) img.
       if vaddr = 0 then img
       else (case files (mm_name m) of
               None \<Rightarrow> img
             | Some content \<Rightarrow> write_shared core content vaddr m img))
     d img"

definition write_segment :: "mappings \<Rightarrow> Segment \<Rightarrow> byte list \<Rightarrow> byte list option" where
  "write_segment d s img =
     (if seg_type s \<noteq> PT_LOAD then Some img
      else do {
        assert_that (p_filesz s = p_memsz s);
        assert_that (p_memsz s mod pgsize = 0);
        (case map_of d (p_vaddr s) of
           None \<Rightarrow> Some img
         | Some mapping \<Rightarrow> do {
             assert_that (length (seg_data s) = p_memsz s);
             Some (seek_write (mm_paddr mapping) (seg_data s) img)
           })
      })"

definition create_pmem_file ::
  "(string \<Rightarrow> byte list option) \<Rightarrow> Segment list \<Rightarrow> nat \<Rightarrow> mappings \<Rightarrow> byte list option" where
  "create_pmem_file files core mem_size d =
     foldM (write_segment d) core (write_shared_objects files core d (replicate mem_size 0))"

section \<open>Restoring in the simulator\<close>

definition restore_process :: "M5Cpt \<Rightarrow> Process option" where
  "restore_process cpt = do {
     pt \<leftarrow> EmulationPageTable PageBytes;
     Some \<lparr>proc_pTable = pt_unserialize
         (map (\<lambda>(v, p, f). (word_of_nat v, word_of_nat p, word_of_nat f)) (cpt_entries cpt)) pt,
       proc_system = \<lparr>pagePtr = word_of_nat (cpt_pagePtr cpt),
                      physmem_size = word_of_nat (cpt_range_size cpt)\<rparr>,
       brkPoint = word_of_nat (cpt_brkPoint cpt), stackBase = word_of_nat (cpt_stackBase cpt),
       stackSize = word_of_nat (cpt_stackSize cpt),
       maxStackSize = word_of_nat (cpt_maxStackSize cpt),
       stackMin = word_of_nat (cpt_stackMin cpt), mmapEnd = word_of_nat (cpt_mmapEnd cpt)\<rparr>
   }"

end
