(* ===== verification/CheckpointOk.thy ===== *)
theory CheckpointOk
  imports Checkpoint
begin

text \<open>
  What a restored process sees: the layout that the checkpoint writer chooses is a dense sequence
  of physical pages, the page table of the checkpoint leads every virtual address to the byte that
  the core file holds for it, and the pages allocated after the restore are fresh.
\<close>

section \<open>The physical layout\<close>

definition null_region :: Region where
  "null_region = \<lparr>rg_vaddr = 0, rg_size = pgsize, rg_offset = 0, rg_name = ''null''\<rparr>"

fun place :: "nat \<Rightarrow> Region list \<Rightarrow> (nat \<times> Region) list" where
  "place p [] = []"
| "place p (r # rs) = (p, r) # place (p + rg_size r) rs"

text \<open>
  A process layout as \<open>info proc mappings\<close> prints it: page-aligned, non-empty regions in ascending
  order that do not overlap and end inside the 64-bit address space; the page at address 0 that the
  checkpoint adds comes first.
\<close>

definition layout_ok :: "Region list \<Rightarrow> bool" where
  "layout_ok rs = (list_all (\<lambda>r. 0 < rg_size r \<and> pgsize dvd rg_size r \<and> pgsize dvd rg_vaddr r \<and>
       rg_vaddr r + rg_size r \<le> 2 ^ 64) rs \<and>
     sorted_wrt (\<lambda>r r'. rg_vaddr r + rg_size r \<le> rg_vaddr r') rs)"

definition regions_ok :: "Region list \<Rightarrow> bool" where
  "regions_ok rs = layout_ok (null_region # rs)"

definition total_size :: "Region list \<Rightarrow> nat" where
  "total_size rs = sum_list (map rg_size rs)"

lemma pgsize_pos [simp]: "0 < pgsize" "pgsize \<noteq> 0" by (simp_all add: pgsize_def)

lemma layout_ok_Cons:
  "layout_ok (r # rs) = (0 < rg_size r \<and> pgsize dvd rg_size r \<and> pgsize dvd rg_vaddr r \<and>
     rg_vaddr r + rg_size r \<le> 2 ^ 64 \<and> (\<forall>r'\<in>set rs. rg_vaddr r + rg_size r \<le> rg_vaddr r') \<and>
     layout_ok rs)"
  by (auto simp: layout_ok_def)

text \<open>One row per region, as the zip of the six lists delivers them.\<close>

definition row :: "nat \<times> Region \<Rightarrow> nat \<times> nat \<times> nat \<times> nat \<times> nat \<times> string" where
  "row = (\<lambda>(p, r). (p, rg_vaddr r, rg_size r, rg_offset r, 0, rg_name r))"

lemma length_next_paddrs [simp]: "length (next_paddrs p ss) = length ss"
  by (induction ss arbitrary: p) auto

lemma zip_rows:
  "zip (next_paddrs p (map rg_size rs)) (zip (map rg_vaddr rs) (zip (map rg_size rs)
     (zip (map rg_offset rs) (zip (replicate (length rs) 0) (map rg_name rs))))) =
   map row (place p rs)"
  by (induction rs arbitrary: p) (auto simp: row_def)

lemma create_mappings_rows:
  "create_mappings rs e = Some (map_regions e 0 (map row (place 0 (null_region # rs))) [])"
proof -
  have "get_memory_regions rs = (next_paddrs 0 (map rg_size (null_region # rs)),
      map rg_vaddr (null_region # rs), map rg_size (null_region # rs),
      map rg_offset (null_region # rs), replicate (length (null_region # rs)) 0,
      map rg_name (null_region # rs))"
    by (simp add: get_memory_regions_def get_virtual_addresses_def null_region_def)
  then show ?thesis
    using zip_rows [of 0 "null_region # rs"] by (simp add: create_mappings_def Let_def)
qed

section \<open>Mappings as plain lists\<close>

definition pages_of_region :: "nat \<Rightarrow> nat \<times> Region \<Rightarrow> mappings" where
  "pages_of_region i = (\<lambda>(p, r). map (\<lambda>off. (rg_vaddr r + off,
     MemoryMapping i (if p \<noteq> 0 then p + off else 0) (rg_vaddr r + off) pgsize (rg_offset r + off) 0
       (rg_name r))) (page_range (rg_size r)))"

fun all_pages :: "nat \<Rightarrow> (nat \<times> Region) list \<Rightarrow> mappings" where
  "all_pages i [] = []"
| "all_pages i (pr # prs) = pages_of_region i pr @ all_pages (i + 1) prs"

fun all_regions :: "nat \<Rightarrow> (nat \<times> Region) list \<Rightarrow> mappings" where
  "all_regions i [] = []"
| "all_regions i ((p, r) # prs) = (rg_vaddr r, MemoryMapping i p (rg_vaddr r) (rg_size r)
     (rg_offset r) 0 (rg_name r)) # all_regions (i + 1) prs"

abbreviation update_all :: "mappings \<Rightarrow> mappings \<Rightarrow> mappings" where
  "update_all \<equiv> fold (\<lambda>(k, v). AList.update k v)"

lemma map_regions_pages:
  "map_regions True i (map row prs) d = update_all (all_pages i prs) d"
  by (induction prs arbitrary: i d)
    (auto simp: row_def expand_region_def pages_of_region_def fold_map comp_def)

lemma map_regions_regions:
  "map_regions False i (map row prs) d = update_all (all_regions i prs) d"
  by (induction prs arbitrary: i d) (auto simp: row_def)

lemma update_fresh: "k \<notin> fst ` set d \<Longrightarrow> AList.update k v d = d @ [(k, v)]"
  by (induction d) auto

lemma update_all_fresh:
  "distinct (map fst (d @ ps)) \<Longrightarrow> update_all ps d = d @ ps"
  by (induction ps arbitrary: d) (auto simp: update_fresh)

lemma page_range_dvd: "page_range (c * pgsize) = map (\<lambda>i. i * pgsize) [0..<c]"
proof -
  have "c * pgsize + pgsize - 1 = (pgsize - 1) + c * pgsize" using pgsize_pos(1) by linarith
  then have "(c * pgsize + pgsize - 1) div pgsize = c"
    by (simp only: div_mult_self1 pgsize_pos not_False_eq_True) simp
  then show ?thesis by (simp add: page_range_def)
qed

lemma page_keys:
  assumes "layout_ok rs" and "k \<in> fst ` set (all_pages i (place p rs))"
  shows "pgsize dvd k \<and> (\<exists>r\<in>set rs. rg_vaddr r \<le> k \<and> k < rg_vaddr r + rg_size r)"
  using assms
proof (induction rs arbitrary: i p)
  case (Cons r rs)
  then obtain c where c: "rg_size r = c * pgsize" and v: "pgsize dvd rg_vaddr r"
    by (auto simp: layout_ok_Cons dvd_def mult.commute)
  from Cons.prems(2) consider "k \<in> fst ` set (pages_of_region i (p, r))"
    | "k \<in> fst ` set (all_pages (i + 1) (place (p + rg_size r) rs))" by (auto simp: image_Un)
  then show ?case
  proof cases
    case 1
    with v have "pgsize dvd k \<and> rg_vaddr r \<le> k \<and> k < rg_vaddr r + rg_size r"
      by (auto simp: pages_of_region_def c page_range_dvd)
    then show ?thesis by simp
  next
    case 2
    with Cons show ?thesis by (auto simp: layout_ok_Cons)
  qed
qed simp

lemma page_keys_distinct:
  "layout_ok rs \<Longrightarrow> distinct (map fst (all_pages i (place p rs)))"
proof (induction rs arbitrary: i p)
  case (Cons r rs)
  then obtain c where c: "rg_size r = c * pgsize" by (auto simp: layout_ok_Cons dvd_def mult.commute)
  have own: "distinct (map fst (pages_of_region i (p, r)))"
    by (auto simp: pages_of_region_def c page_range_dvd distinct_map inj_on_def)
  have "k < rg_vaddr r + rg_size r" if "k \<in> fst ` set (pages_of_region i (p, r))" for k
    using that by (auto simp: pages_of_region_def c page_range_dvd)
  moreover have "rg_vaddr r + rg_size r \<le> k"
    if "k \<in> fst ` set (all_pages (i + 1) (place (p + rg_size r) rs))" for k
    using page_keys [OF _ that] Cons.prems by (fastforce simp: layout_ok_Cons)
  ultimately have "fst ` set (pages_of_region i (p, r)) \<inter>
      fst ` set (all_pages (i + 1) (place (p + rg_size r) rs)) = {}" by fastforce
  with own Cons show ?case by (simp add: layout_ok_Cons)
qed simp

lemma region_keys: "fst ` set (all_regions i (place p rs)) = rg_vaddr ` set rs"
  by (induction rs arbitrary: i p) auto

lemma region_keys_distinct:
  "layout_ok rs \<Longrightarrow> distinct (map fst (all_regions i (place p rs)))"
  by (induction rs arbitrary: i p) (fastforce simp: layout_ok_Cons region_keys)+

text \<open>The two dictionaries that the writer builds.\<close>

lemma create_mappings_lists:
  assumes "regions_ok rs"
  shows "create_mappings rs True = Some (all_pages 0 (place 0 (null_region # rs)))"
    and "create_mappings rs False = Some (all_regions 0 (place 0 (null_region # rs)))"
proof -
  have "update_all ps [] = ps" if "distinct (map fst ps)" for ps
    using update_all_fresh [of "[]" ps] that by simp
  note this [OF page_keys_distinct] this [OF region_keys_distinct]
  then show "create_mappings rs True = Some (all_pages 0 (place 0 (null_region # rs)))"
    and "create_mappings rs False = Some (all_regions 0 (place 0 (null_region # rs)))"
    using assms unfolding create_mappings_rows map_regions_pages map_regions_regions regions_ok_def
    by blast+
qed

section \<open>Physical pages are numbered densely\<close>

lemma pages_of_region_dense:
  assumes "0 < k" and "rg_size r = c * pgsize"
  shows "map (\<lambda>x. mm_paddr (snd x)) (pages_of_region i (k * pgsize, r)) = map (\<lambda>j. j * pgsize) [k..<k + c]"
proof (rule nth_equalityI)
  show "length (map (\<lambda>x. mm_paddr (snd x)) (pages_of_region i (k * pgsize, r))) =
      length (map (\<lambda>j. j * pgsize) [k..<k + c])"
    by (simp add: pages_of_region_def assms(2) page_range_dvd)
next
  fix j
  assume "j < length (map (\<lambda>x. mm_paddr (snd x)) (pages_of_region i (k * pgsize, r)))"
  then have "j < c" by (simp add: pages_of_region_def assms(2) page_range_dvd)
  with assms show "map (\<lambda>x. mm_paddr (snd x)) (pages_of_region i (k * pgsize, r)) ! j =
      map (\<lambda>j. j * pgsize) [k..<k + c] ! j"
    by (simp add: pages_of_region_def page_range_dvd MemoryMapping_def add_mult_distrib)
qed

lemma all_pages_dense:
  assumes "layout_ok rs" and "0 < k"
  shows "map (\<lambda>x. mm_paddr (snd x)) (all_pages i (place (k * pgsize) rs)) =
    map (\<lambda>j. j * pgsize) [k..<k + total_size rs div pgsize]"
  using assms
proof (induction rs arbitrary: i k)
  case (Cons r rs)
  then obtain c where c: "rg_size r = c * pgsize" by (auto simp: layout_ok_Cons dvd_def mult.commute)
  have "k * pgsize + rg_size r = (k + c) * pgsize" by (simp add: c algebra_simps)
  moreover have "total_size (r # rs) div pgsize = c + total_size rs div pgsize"
    by (simp add: total_size_def c)
  moreover have "[k..<k + (c + n)] = [k..<k + c] @ [k + c..<k + c + n]" for n
    using upt_add_eq_append [of k "k + c" n] by (simp add: add.assoc)
  ultimately show ?case
    using Cons pages_of_region_dense [OF Cons.prems(2) c, of i]
    by (simp add: layout_ok_Cons)
qed (simp add: total_size_def)

text \<open>The number of pages of a checkpoint, the page at address 0 included.\<close>

definition num_pages :: "Region list \<Rightarrow> nat" where
  "num_pages rs = 1 + total_size rs div pgsize"

lemma template_dense:
  assumes "regions_ok rs"
  shows "map (\<lambda>x. mm_paddr (snd x)) (all_pages 0 (place 0 (null_region # rs))) =
    map (\<lambda>j. j * pgsize) [0..<num_pages rs]"
proof -
  have "layout_ok rs" using assms by (simp add: regions_ok_def layout_ok_Cons)
  from all_pages_dense [OF this, of 1 1]
  have rest: "map (\<lambda>x. mm_paddr (snd x)) (all_pages 1 (place pgsize rs)) =
      map (\<lambda>j. j * pgsize) [1..<num_pages rs]" by (simp add: num_pages_def)
  have "map (\<lambda>x. mm_paddr (snd x)) (pages_of_region 0 (0, null_region)) = [0]"
    using page_range_dvd [of 1]
    by (simp add: pages_of_region_def null_region_def MemoryMapping_def)
  moreover have "[0..<num_pages rs] = 0 # [1..<num_pages rs]"
    by (simp add: num_pages_def upt_conv_Cons)
  ultimately show ?thesis using rest by (simp add: null_region_def)
qed

lemma num_pages_size:
  assumes "regions_ok rs"
  shows "num_pages rs * pgsize = total_size (null_region # rs)"
proof -
  have "pgsize dvd total_size rs"
    using assms unfolding regions_ok_def
    by (induction rs) (auto simp: layout_ok_Cons total_size_def null_region_def)
  then show ?thesis by (simp add: num_pages_def total_size_def null_region_def)
qed

lemma all_pages_fields:
  assumes "(k, m) \<in> set (all_pages i prs)"
  shows "mm_vaddr m = k \<and> mm_size m = pgsize"
  using assms by (induction prs arbitrary: i) (auto simp: pages_of_region_def MemoryMapping_def)

lemma fold_max_dense:
  "fold (\<lambda>x a. max x a) (map (\<lambda>j. j * pgsize + pgsize) [0..<n]) 0 = n * pgsize"
  by (induction n) (auto simp: max_def)

lemma memory_size:
  assumes "regions_ok rs"
  shows "calculate_memory_size (all_pages 0 (place 0 (null_region # rs))) = 2 * (num_pages rs * pgsize)"
proof -
  define d where "d = all_pages 0 (place 0 (null_region # rs))"
  have "mm_size (snd x) = pgsize" if "x \<in> set d" for x
    using that unfolding d_def by (metis all_pages_fields prod.collapse)
  then have "map (\<lambda>x. mm_paddr (snd x) + mm_size (snd x)) d =
      map (\<lambda>p. p + pgsize) (map (\<lambda>x. mm_paddr (snd x)) d)" by simp
  also have "\<dots> = map (\<lambda>j. j * pgsize + pgsize) [0..<num_pages rs]"
    unfolding template_dense [OF assms, folded d_def] by simp
  finally have "fold (\<lambda>x a. max x a) (map (\<lambda>x. mm_paddr (snd x) + mm_size (snd x)) d) 0 =
      num_pages rs * pgsize" by (simp only: fold_max_dense)
  then show ?thesis
    unfolding d_def [symmetric] by (simp add: calculate_memory_size_def fold_map comp_def case_prod_unfold)
qed

section \<open>Following a virtual address\<close>

lemma place_in_bounds:
  "(q, r) \<in> set (place p rs) \<Longrightarrow> r \<in> set rs \<and> p \<le> q \<and> q + rg_size r \<le> p + total_size rs"
  by (induction rs arbitrary: p) (fastforce simp: total_size_def)+

lemma place_member: "r \<in> set rs \<Longrightarrow> \<exists>q. (q, r) \<in> set (place p rs)"
  by (induction rs arbitrary: p) auto

lemma place_disjoint:
  assumes "(q, r) \<in> set (place p rs)" and "(q', r') \<in> set (place p rs)"
    and "distinct (map rg_vaddr rs)" and "rg_vaddr r \<noteq> rg_vaddr r'"
  shows "q + rg_size r \<le> q' \<or> q' + rg_size r' \<le> q"
  using assms
  by (induction rs arbitrary: p) (auto dest: place_in_bounds)

lemma page_of_address:
  assumes "layout_ok rs" and "(q, r) \<in> set (place p rs)" and "j < rg_size r"
    and "q \<noteq> 0 \<or> j < pgsize"
  shows "\<exists>m. (rg_vaddr r + j div pgsize * pgsize, m) \<in> set (all_pages i (place p rs)) \<and>
    mm_paddr m = q + j div pgsize * pgsize"
  using assms(1,2)
proof (induction rs arbitrary: i p)
  case (Cons r' rs)
  show ?case
  proof (cases "(q, r) = (p, r')")
    case True
    obtain c where c: "rg_size r = c * pgsize"
      using True Cons.prems(1) by (auto simp: layout_ok_Cons dvd_def mult.commute)
    have "j div pgsize < c" using assms(3) by (simp add: c less_mult_imp_div_less)
    then have "j div pgsize * pgsize \<in> set (page_range (rg_size r))" by (simp add: c page_range_dvd)
    moreover have "(if q \<noteq> 0 then q + j div pgsize * pgsize else 0) = q + j div pgsize * pgsize"
      using assms(4) by auto
    ultimately have "(rg_vaddr r + j div pgsize * pgsize, MemoryMapping i (q + j div pgsize * pgsize)
        (rg_vaddr r + j div pgsize * pgsize) pgsize (rg_offset r + j div pgsize * pgsize) 0 (rg_name r))
        \<in> set (pages_of_region i (q, r))"
      unfolding pages_of_region_def by (auto simp: image_iff intro!: bexI)
    with True show ?thesis by (auto simp: MemoryMapping_def)
  next
    case False
    with Cons.prems have "(q, r) \<in> set (place (p + rg_size r') rs)" "layout_ok rs"
      by (auto simp: layout_ok_Cons)
    from Cons.IH [OF this(2,1), of "i + 1"] show ?thesis by auto
  qed
qed simp

text \<open>Reading the sections of a checkpoint into an empty table.\<close>

lemma pt_unserialize_map_of:
  "pTable (pt_unserialize es pt) =
     (\<lambda>a. case pTable pt a of Some e \<Rightarrow> Some e
          | None \<Rightarrow> map_of (map (\<lambda>(v, p, f). (v, PTEntry p f)) es) a)"
  by (induction es pt rule: pt_unserialize.induct)
    (auto simp: fun_eq_iff split: option.splits)

lemma pt_unserialize_geometry:
  "pageSize (pt_unserialize es pt) = pageSize pt" "offsetMask (pt_unserialize es pt) = offsetMask pt"
  by (induction es pt rule: pt_unserialize.induct) auto

lemma unat_of_nat_Addr: "n < 2 ^ 64 \<Longrightarrow> unat (word_of_nat n :: Addr) = n"
  by (simp add: unat_of_nat)

lemma word_of_nat_inj:
  "n < 2 ^ 64 \<Longrightarrow> m < 2 ^ 64 \<Longrightarrow> (word_of_nat n :: Addr) = word_of_nat m \<longleftrightarrow> n = m"
  by (metis unat_of_nat_Addr)

lemma take_page_of_nat:
  assumes "n < 2 ^ 64"
  shows "take_bit PageShift (word_of_nat n :: Addr) = word_of_nat (n mod pgsize)"
proof -
  have "unat (take_bit PageShift (word_of_nat n :: Addr)) = n mod pgsize"
    unfolding unsigned_take_bit_eq unat_of_nat_Addr [OF assms] by (simp add: take_bit_eq_mod pgsize_def)
  moreover have "n mod pgsize < 2 ^ 64" by (simp add: pgsize_def PageShift_def)
  ultimately show ?thesis by (metis unat_of_nat_Addr unsigned_word_eqI)
qed

lemma align_of_nat:
  assumes "pt_wf PageShift pt" and "n < 2 ^ 64"
  shows "pageAlign pt (word_of_nat n) = word_of_nat (n div pgsize * pgsize)"
    and "pageOffset pt (word_of_nat n) = word_of_nat (n mod pgsize)"
proof -
  show "pageOffset pt (word_of_nat n) = word_of_nat (n mod pgsize)"
    unfolding pageOffset_take_bit [OF assms(1)] take_page_of_nat [OF assms(2)] ..
  have "(word_of_nat n :: Addr) = word_of_nat (n div pgsize * pgsize) + word_of_nat (n mod pgsize)"
    by (simp only: of_nat_add [symmetric] div_mult_mod_eq)
  then show "pageAlign pt (word_of_nat n) = word_of_nat (n div pgsize * pgsize)"
    unfolding pageAlign_take_bit [OF assms(1)] take_page_of_nat [OF assms(2)] by (metis add_diff_cancel_right')
qed

lemma total_fits: "layout_ok (r # rs) \<Longrightarrow> rg_vaddr r + total_size (r # rs) \<le> 2 ^ 64"
proof (induction rs arbitrary: r)
  case (Cons r' rs)
  then have "rg_vaddr r' + total_size (r' # rs) \<le> 2 ^ 64" "rg_vaddr r + rg_size r \<le> rg_vaddr r'"
    by (auto simp: layout_ok_Cons)
  then show ?case by (simp add: total_size_def)
qed (simp add: layout_ok_Cons total_size_def)

definition template_of :: "Region list \<Rightarrow> mappings" where
  "template_of rs = all_pages 0 (place 0 (null_region # rs))"

lemma length_template: "regions_ok rs \<Longrightarrow> length (template_of rs) = num_pages rs"
  using arg_cong [OF template_dense, of rs length] by (simp add: template_of_def del: all_pages.simps place.simps)

lemma checkpoint_contents:
  assumes "regions_ok rs" and "create_gem5_checkpoint rs regs brk = Some (cpt, mem_size, d)"
  shows "d = all_regions 0 (place 0 (null_region # rs))"
    and "mem_size = 2 * (num_pages rs * pgsize)"
    and "cpt_entries cpt = map (\<lambda>(_, m). (mm_vaddr m, mm_paddr m, 0)) (template_of rs)"
    and "cpt_pagePtr cpt = num_pages rs"
    and "cpt_range_size cpt = mem_size"
  using assms(2) memory_size [OF assms(1)] create_mappings_lists [OF assms(1)]
    length_template [OF assms(1)]
  unfolding create_gem5_checkpoint_def fill_checkpoint_template_def template_of_def
  by (auto simp: bind_eq_Some_conv Let_def simp del: all_pages.simps all_regions.simps place.simps)

lemma template_keys:
  assumes "regions_ok rs" and "(k, m) \<in> set (template_of rs)"
  shows "k < 2 ^ 64" and "mm_vaddr m = k" and "pgsize dvd k"
    and "\<exists>j < num_pages rs. mm_paddr m = j * pgsize"
proof -
  have ok: "layout_ok (null_region # rs)" using assms(1) by (simp only: regions_ok_def)
  have key: "k \<in> fst ` set (template_of rs)" using assms(2) by force
  from page_keys [OF ok key [unfolded template_of_def]] obtain r
    where "r \<in> set (null_region # rs)" "k < rg_vaddr r + rg_size r" and dvd: "pgsize dvd k" by blast
  then show "k < 2 ^ 64" using ok by (fastforce simp: layout_ok_def list_all_iff)
  show "mm_vaddr m = k" using all_pages_fields assms(2) unfolding template_of_def by blast
  show "pgsize dvd k" by (rule dvd)
  have "mm_paddr m \<in> set (map (\<lambda>x. mm_paddr (snd x)) (template_of rs))" using assms(2) by force
  then show "\<exists>j < num_pages rs. mm_paddr m = j * pgsize"
    unfolding template_of_def template_dense [OF assms(1)] by auto
qed

lemma template_paddr_inj:
  assumes "regions_ok rs" and "(k, m) \<in> set (template_of rs)" and "(k', m') \<in> set (template_of rs)"
    and "mm_paddr m = mm_paddr m'"
  shows "k = k'"
proof -
  have "distinct (map (\<lambda>x. mm_paddr (snd x)) (template_of rs))"
    unfolding template_of_def template_dense [OF assms(1)] by (simp add: distinct_map inj_on_def)
  then have "inj_on (\<lambda>x. mm_paddr (snd x)) (set (template_of rs))" by (simp add: distinct_map)
  from inj_onD [OF this _ assms(2,3)] assms(4) show ?thesis by simp
qed

text \<open>The restored page table holds exactly the pages of the checkpoint.\<close>

lemma restored_table:
  assumes ok: "regions_ok rs" and "create_gem5_checkpoint rs regs brk = Some (cpt, mem_size, d)"
    and "restore_process cpt = Some p"
  shows "pt_wf PageShift (proc_pTable p)"
    and "(k, m) \<in> set (template_of rs) \<Longrightarrow>
      pTable (proc_pTable p) (word_of_nat k) = Some (PTEntry (word_of_nat (mm_paddr m)) 0)"
    and "pTable (proc_pTable p) a = Some e \<Longrightarrow> \<exists>k m. (k, m) \<in> set (template_of rs) \<and>
      a = word_of_nat k \<and> e = PTEntry (word_of_nat (mm_paddr m)) 0"
    and "proc_system p = \<lparr>pagePtr = word_of_nat (num_pages rs), physmem_size = word_of_nat mem_size\<rparr>"
proof -
  note cpt = checkpoint_contents [OF ok assms(2)]
  have "PageBytes = 2 ^ PageShift" by (simp add: PageBytes_def push_bit_eq_mult)
  then obtain pt0 where pt0: "EmulationPageTable PageBytes = Some pt0" "pt_wf PageShift pt0"
      "pTable pt0 = Map.empty"
    using EmulationPageTable_wf [of PageShift] by (auto simp: PageShift_def)
  let ?es = "map (\<lambda>(k, m). (word_of_nat k :: Addr, PTEntry (word_of_nat (mm_paddr m)) 0)) (template_of rs)"
  define es where "es = map (\<lambda>(v, p, f). (word_of_nat v :: Addr, word_of_nat p :: Addr, word_of_nat f :: Addr))
    (cpt_entries cpt)"
  have p: "proc_pTable p = pt_unserialize es pt0" and
    sys: "proc_system p = \<lparr>pagePtr = word_of_nat (num_pages rs), physmem_size = word_of_nat mem_size\<rparr>"
    using assms(3) pt0(1) cpt(4,5) by (auto simp: restore_process_def es_def)
  show "proc_system p = \<lparr>pagePtr = word_of_nat (num_pages rs), physmem_size = word_of_nat mem_size\<rparr>"
    by (rule sys)
  show "pt_wf PageShift (proc_pTable p)"
    using pt0(2) by (simp add: p pt_wf_def pt_unserialize_geometry)
  have "map (\<lambda>(v, p, f). (v, PTEntry p f)) es = ?es"
    using template_keys(2) [OF ok] by (auto simp: es_def cpt(3))
  then have tab: "pTable (proc_pTable p) = map_of ?es"
    unfolding p pt_unserialize_map_of pt0(3) by simp
  have "distinct (map fst (template_of rs))"
    unfolding template_of_def using ok page_keys_distinct by (simp only: regions_ok_def)
  moreover have "inj_on (word_of_nat :: nat \<Rightarrow> Addr) (fst ` set (template_of rs))"
    using template_keys(1) [OF ok] word_of_nat_inj by (auto simp: inj_on_def)
  ultimately have "distinct (map (word_of_nat :: nat \<Rightarrow> Addr) (map fst (template_of rs)))"
    by (auto simp: distinct_map intro: comp_inj_on)
  then have "distinct (map fst ?es)" by (simp add: comp_def case_prod_unfold)
  then show "(k, m) \<in> set (template_of rs) \<Longrightarrow>
      pTable (proc_pTable p) (word_of_nat k) = Some (PTEntry (word_of_nat (mm_paddr m)) 0)"
    unfolding tab by (intro map_of_is_SomeI) force+
  show "pTable (proc_pTable p) a = Some e \<Longrightarrow> \<exists>k m. (k, m) \<in> set (template_of rs) \<and>
      a = word_of_nat k \<and> e = PTEntry (word_of_nat (mm_paddr m)) 0"
    unfolding tab by (fastforce dest!: map_of_SomeD)
qed

lemma restored_translate:
  assumes "regions_ok rs" and "create_gem5_checkpoint rs regs brk = Some (cpt, mem_size, d)"
    and "restore_process cpt = Some p"
    and "(q, r) \<in> set (place 0 (null_region # rs))" and "j < rg_size r"
  shows "translate (proc_pTable p) (word_of_nat (rg_vaddr r + j)) = Some (word_of_nat (q + j))"
proof -
  note tab = restored_table [OF assms(1-3)]
  have ok: "layout_ok (null_region # rs)" using assms(1) by (simp only: regions_ok_def)
  have r: "r \<in> set (null_region # rs)" using place_in_bounds [OF assms(4)] by blast
  then have v: "pgsize dvd rg_vaddr r" "rg_vaddr r + j < 2 ^ 64"
    using ok assms(5) by (fastforce simp: layout_ok_def list_all_iff)+
  have "q \<noteq> 0 \<or> j < pgsize"
    using assms(4,5) place_in_bounds [of q r pgsize rs] less_le_trans [OF pgsize_pos(1)]
    by (auto simp: null_region_def)
  from page_of_address [OF ok assms(4,5) this, of 0, folded template_of_def] obtain m
    where m: "(rg_vaddr r + j div pgsize * pgsize, m) \<in> set (template_of rs)"
      "mm_paddr m = q + j div pgsize * pgsize" by blast
  have "(rg_vaddr r + j) div pgsize * pgsize = rg_vaddr r + j div pgsize * pgsize"
    "(rg_vaddr r + j) mod pgsize = j mod pgsize"
    using v(1) by (auto simp: dvd_def algebra_simps)
  then have "translate (proc_pTable p) (word_of_nat (rg_vaddr r + j)) =
      Some (word_of_nat (j mod pgsize) + word_of_nat (q + j div pgsize * pgsize))"
    using tab(2) [OF m(1)] align_of_nat [OF tab(1) v(2)]
    by (simp add: translate_def pt_lookup_def m(2) PTEntry_def)
  also have "\<dots> = Some (word_of_nat (j mod pgsize + (q + j div pgsize * pgsize)))"
    by (simp only: of_nat_add)
  also have "j mod pgsize + (q + j div pgsize * pgsize) = q + j"
    using div_mult_mod_eq [of j pgsize] by linarith
  finally show ?thesis .
qed

section \<open>The memory image\<close>

lemma seek_write_props:
  assumes "pos + length buf \<le> length img"
  shows "length (seek_write pos buf img) = length img"
    and "x < length img \<Longrightarrow> seek_write pos buf img ! x =
      (if pos \<le> x \<and> x < pos + length buf then buf ! (x - pos) else img ! x)"
  using assms by (auto simp: seek_write_def nth_append min_def)

lemma write_shared_length:
  assumes "mm_paddr m + mm_size m \<le> length img"
  shows "length (write_shared core content v m img) = length img"
  using assms unfolding write_shared_def
  by (induction core arbitrary: img) (auto simp: seek_write_props(1))

lemma write_shared_objects_length:
  assumes "\<forall>(v, m) \<in> set d. mm_paddr m + mm_size m \<le> length img"
  shows "length (write_shared_objects files core d img) = length img"
  using assms unfolding write_shared_objects_def
  by (induction d arbitrary: img) (auto simp: write_shared_length split: option.split)

text \<open>
  A core file as gdb writes it: the loadable segments hold whole pages and start at different
  addresses, and one that starts at a region is not longer than the region.
\<close>

definition core_ok :: "Segment list \<Rightarrow> Region list \<Rightarrow> bool" where
  "core_ok core rs = (list_all (\<lambda>s. seg_type s = PT_LOAD \<longrightarrow>
       p_filesz s = p_memsz s \<and> p_memsz s mod pgsize = 0 \<and> length (seg_data s) = p_memsz s \<and>
       list_all (\<lambda>r. rg_vaddr r = p_vaddr s \<longrightarrow> p_memsz s \<le> rg_size r) rs) core \<and>
     distinct (map p_vaddr (filter (\<lambda>s. seg_type s = PT_LOAD) core)))"

definition placed :: "Region list \<Rightarrow> Segment \<Rightarrow> nat \<Rightarrow> bool" where
  "placed rs s q = (seg_type s = PT_LOAD \<and> (\<exists>r. (q, r) \<in> set (place 0 rs) \<and> rg_vaddr r = p_vaddr s))"

lemma place_vaddr: "(q, r) \<in> set (place p rs) \<Longrightarrow> rg_vaddr r \<in> rg_vaddr ` set rs"
  using place_in_bounds by blast

lemma all_regions_map_of:
  assumes "(q, r) \<in> set (place p rs)" and "distinct (map rg_vaddr rs)"
  shows "\<exists>m. map_of (all_regions i (place p rs)) (rg_vaddr r) = Some m \<and> mm_paddr m = q \<and>
    mm_size m = rg_size r"
  using assms
proof (induction rs arbitrary: i p)
  case (Cons r' rs)
  show ?case
  proof (cases "(q, r) = (p, r')")
    case False
    then have tail: "(q, r) \<in> set (place (p + rg_size r') rs)" using Cons.prems(1) by auto
    then have "rg_vaddr r \<noteq> rg_vaddr r'" using place_vaddr [OF tail] Cons.prems(2) by auto
    with Cons.IH [OF tail] Cons.prems(2) show ?thesis by simp
  qed (simp add: MemoryMapping_def)
qed simp

lemma regions_in_bounds:
  "(v, m) \<in> set (all_regions i (place p rs)) \<Longrightarrow> mm_paddr m + mm_size m \<le> p + total_size rs"
  by (induction rs arbitrary: i p) (fastforce simp: MemoryMapping_def total_size_def)+

lemma all_regions_None:
  "v \<notin> rg_vaddr ` set rs \<Longrightarrow> map_of (all_regions i (place p rs)) v = None"
  by (simp add: map_of_eq_None_iff region_keys)

lemma layout_distinct: "layout_ok rs \<Longrightarrow> distinct (map rg_vaddr rs)"
  by (induction rs) (fastforce simp: layout_ok_Cons)+

lemma write_segment_placed:
  assumes "layout_ok rs" and "core_ok (s # core) rs" and "length img = n" and "total_size rs \<le> n"
  shows "\<exists>img'. write_segment (all_regions 0 (place 0 rs)) s img = Some img' \<and> length img' = n \<and>
    (\<forall>q. placed rs s q \<longrightarrow> (\<forall>j < p_memsz s. img' ! (q + j) = seg_data s ! j)) \<and>
    (\<forall>x < n. (\<forall>q. placed rs s q \<longrightarrow> x < q \<or> q + p_memsz s \<le> x) \<longrightarrow> img' ! x = img ! x)"
proof (cases "\<exists>q. placed rs s q")
  case True
  then obtain q r where q: "seg_type s = PT_LOAD" "(q, r) \<in> set (place 0 rs)" "rg_vaddr r = p_vaddr s"
    by (auto simp: placed_def)
  note dist = layout_distinct [OF assms(1)]
  from all_regions_map_of [OF q(2) dist, of 0] obtain m where
    m: "map_of (all_regions 0 (place 0 rs)) (p_vaddr s) = Some m" "mm_paddr m = q" by (auto simp: q(3))
  have seg: "p_filesz s = p_memsz s" "p_memsz s mod pgsize = 0" "length (seg_data s) = p_memsz s"
    "p_memsz s \<le> rg_size r"
    using assms(2) q place_in_bounds [OF q(2)] by (auto simp: core_ok_def list_all_iff)
  have fits: "q + length (seg_data s) \<le> length img"
    using place_in_bounds [OF q(2)] seg assms(3,4) by simp
  have only: "q' = q" if "placed rs s q'" for q'
    using that all_regions_map_of [OF _ dist, of q' _ 0 0] m by (fastforce simp: placed_def)
  have "write_segment (all_regions 0 (place 0 rs)) s img = Some (seek_write q (seg_data s) img)"
    using q(1) m seg by (simp add: write_segment_def)
  moreover have "seek_write q (seg_data s) img ! (q + j) = seg_data s ! j" if "j < p_memsz s" for j
    using seek_write_props(2) [OF fits, of "q + j"] fits seg(3) that by simp
  moreover have "seek_write q (seg_data s) img ! x = img ! x"
    if "x < n" "x < q \<or> q + p_memsz s \<le> x" for x
    using seek_write_props(2) [OF fits, of x] seg(3) assms(3) that by auto
  moreover have "placed rs s q" using q by (auto simp: placed_def)
  ultimately show ?thesis using seek_write_props(1) [OF fits] only assms(3) by blast
next
  case False
  have "write_segment (all_regions 0 (place 0 rs)) s img = Some img"
  proof (cases "seg_type s = PT_LOAD")
    case True
    then have "p_vaddr s \<notin> rg_vaddr ` set rs"
      using False place_member [of _ rs 0] by (fastforce simp: placed_def)
    with True assms(2) show ?thesis
      by (auto simp: write_segment_def all_regions_None core_ok_def)
  qed (simp add: write_segment_def)
  with False assms(3) show ?thesis by auto
qed

lemma placed_bounds:
  assumes "layout_ok rs" and "core_ok core rs" and "s \<in> set core" and "placed rs s q"
  shows "q + p_memsz s \<le> total_size rs"
    and "s' \<in> set core \<Longrightarrow> placed rs s' q' \<Longrightarrow> p_vaddr s \<noteq> p_vaddr s' \<Longrightarrow>
      q + p_memsz s \<le> q' \<or> q' + p_memsz s' \<le> q"
proof -
  have fits: "\<exists>r. (q, r) \<in> set (place 0 rs) \<and> rg_vaddr r = p_vaddr s \<and> p_memsz s \<le> rg_size r"
    if "s \<in> set core" "placed rs s q" for s q
    using that assms(2) place_in_bounds [of q _ 0 rs] by (fastforce simp: placed_def core_ok_def list_all_iff)
  from fits [OF assms(3,4)] obtain r where r: "(q, r) \<in> set (place 0 rs)" "rg_vaddr r = p_vaddr s"
    "p_memsz s \<le> rg_size r" by blast
  show "q + p_memsz s \<le> total_size rs" using place_in_bounds [OF r(1)] r(3) by simp
  assume s': "s' \<in> set core" "placed rs s' q'" and ne: "p_vaddr s \<noteq> p_vaddr s'"
  from fits [OF s'] obtain r' where r': "(q', r') \<in> set (place 0 rs)" "rg_vaddr r' = p_vaddr s'"
    "p_memsz s' \<le> rg_size r'" by blast
  from place_disjoint [OF r(1) r'(1) layout_distinct [OF assms(1)]] ne r r'
  show "q + p_memsz s \<le> q' \<or> q' + p_memsz s' \<le> q" by auto
qed

lemma core_ok_Cons:
  assumes "core_ok (s # core) rs"
  shows "core_ok core rs"
    and "seg_type s = PT_LOAD \<Longrightarrow> s' \<in> set core \<Longrightarrow> seg_type s' = PT_LOAD \<Longrightarrow> p_vaddr s \<noteq> p_vaddr s'"
  using assms by (auto simp: core_ok_def split: if_splits)

lemma write_segments:
  assumes "layout_ok rs" and "core_ok core rs" and "length img = n" and "total_size rs \<le> n"
  shows "\<exists>img'. foldM (write_segment (all_regions 0 (place 0 rs))) core img = Some img' \<and>
    length img' = n \<and>
    (\<forall>s\<in>set core. \<forall>q. placed rs s q \<longrightarrow> (\<forall>j < p_memsz s. img' ! (q + j) = seg_data s ! j)) \<and>
    (\<forall>x < n. (\<forall>s\<in>set core. \<forall>q. placed rs s q \<longrightarrow> x < q \<or> q + p_memsz s \<le> x) \<longrightarrow> img' ! x = img ! x)"
  using assms(2,3)
proof (induction core arbitrary: img)
  case (Cons s core)
  from write_segment_placed [OF assms(1) Cons.prems assms(4)] obtain img1 where
    step: "write_segment (all_regions 0 (place 0 rs)) s img = Some img1" "length img1 = n"
    and own: "\<And>q j. placed rs s q \<Longrightarrow> j < p_memsz s \<Longrightarrow> img1 ! (q + j) = seg_data s ! j"
    and frame: "\<And>x. x < n \<Longrightarrow> (\<forall>q. placed rs s q \<longrightarrow> x < q \<or> q + p_memsz s \<le> x) \<Longrightarrow> img1 ! x = img ! x"
    by blast
  from Cons.IH [OF core_ok_Cons(1) [OF Cons.prems(1)] step(2)] obtain img' where
    rest: "foldM (write_segment (all_regions 0 (place 0 rs))) core img1 = Some img'" "length img' = n"
    and segs: "\<And>s q j. s \<in> set core \<Longrightarrow> placed rs s q \<Longrightarrow> j < p_memsz s \<Longrightarrow> img' ! (q + j) = seg_data s ! j"
    and frame': "\<And>x. x < n \<Longrightarrow> (\<forall>s\<in>set core. \<forall>q. placed rs s q \<longrightarrow> x < q \<or> q + p_memsz s \<le> x) \<Longrightarrow>
      img' ! x = img1 ! x" by blast
  have keep: "img' ! (q + j) = seg_data s ! j" if q: "placed rs s q" and j: "j < p_memsz s" for q j
  proof -
    have "s \<in> set (s # core)" by simp
    note b = placed_bounds [OF assms(1) Cons.prems(1) this q]
    have "q + j < q' \<or> q' + p_memsz s' \<le> q + j" if s': "s' \<in> set core" "placed rs s' q'" for s' q'
    proof -
      have "p_vaddr s \<noteq> p_vaddr s'"
        using core_ok_Cons(2) [OF Cons.prems(1)] s' q by (auto simp: placed_def)
      with b(2) [of s' q'] s' j show ?thesis by auto
    qed
    moreover have "q + j < n" using b(1) j assms(4) by simp
    ultimately show ?thesis using frame' own [OF q j] by metis
  qed
  have "foldM (write_segment (all_regions 0 (place 0 rs))) (s # core) img = Some img'"
    using step rest by simp
  with rest(2) segs keep frame frame' show ?case by (intro exI [of _ img']) auto
qed simp

section \<open>The restored process\<close>

lemma restore_succeeds: "\<exists>p. restore_process cpt = Some p"
proof -
  have "PageBytes = 2 ^ PageShift" by (simp add: PageBytes_def push_bit_eq_mult)
  then show ?thesis
    using EmulationPageTable_wf [of PageShift] by (auto simp: restore_process_def PageShift_def)
qed

lemma region_names: "map (\<lambda>x. mm_name (snd x)) (all_regions i (place p rs)) = map rg_name rs"
  by (induction rs arbitrary: i p) (auto simp: MemoryMapping_def)

text \<open>A checkpoint is written exactly when one region has \<open>stack\<close> in its name.\<close>

lemma checkpoint_succeeds:
  assumes "regions_ok rs"
  shows "(\<exists>c. create_gem5_checkpoint rs regs brk = Some c) =
    (length (filter (sublist ''stack'') (map rg_name (null_region # rs))) = 1)"
proof -
  let ?d = "all_regions 0 (place 0 (null_region # rs))"
  have "filter (sublist ''stack'') (map (\<lambda>x. mm_name (snd x)) ?d) =
      map mm_name (filter (\<lambda>m. sublist ''stack'' (mm_name m)) (map snd ?d))"
    by (simp add: filter_map comp_def del: all_regions.simps place.simps)
  then have "length (filter (\<lambda>m. sublist ''stack'' (mm_name m)) (map snd ?d)) =
      length (filter (sublist ''stack'') (map rg_name (null_region # rs)))"
    unfolding region_names by (metis length_map)
  then show ?thesis
    unfolding create_gem5_checkpoint_def create_mappings_lists [OF assms] Let_def
    by (simp del: all_pages.simps all_regions.simps place.simps add: bind_eq_Some_conv)
qed

text \<open>
  C29. The image and the page table of a checkpoint fit together: the conversion succeeds, and for
  every loadable segment of the core file that starts at a mapped region, translating any of its
  virtual addresses in the restored process gives a physical address inside the memory image, where
  the byte of the core file is stored.
\<close>

theorem checkpoint_memory_faithful:
  assumes "regions_ok rs" and "core_ok core (null_region # rs)"
    and "create_gem5_checkpoint rs regs brk = Some (cpt, mem_size, d)"
    and "restore_process cpt = Some p"
  shows "\<exists>img. create_pmem_file files core mem_size d = Some img \<and> length img = mem_size \<and>
    (\<forall>s\<in>set core. seg_type s = PT_LOAD \<longrightarrow> p_vaddr s \<in> rg_vaddr ` set rs \<longrightarrow>
      (\<forall>j < p_memsz s. \<exists>pa.
        translate (proc_pTable p) (word_of_nat (p_vaddr s + j)) = Some pa \<and>
        unat pa < mem_size \<and> img ! unat pa = seg_data s ! j))"
proof -
  let ?L = "null_region # rs" and ?d = "all_regions 0 (place 0 (null_region # rs))"
  note cpt = checkpoint_contents [OF assms(1,3)]
  have ok: "layout_ok ?L" using assms(1) by (simp only: regions_ok_def)
  have total: "total_size ?L \<le> mem_size" "total_size ?L \<le> 2 ^ 64"
    using num_pages_size [OF assms(1)] total_fits [OF ok] by (simp_all add: cpt(2))
  have "mm_paddr m + mm_size m \<le> mem_size" if "(v, m) \<in> set ?d" for v m
    using regions_in_bounds [OF that] total(1) by simp
  then have "length (write_shared_objects files core ?d (replicate mem_size 0)) = mem_size"
    by (subst write_shared_objects_length) auto
  from write_segments [OF ok assms(2) this total(1)] obtain img where
    img: "create_pmem_file files core mem_size d = Some img" "length img = mem_size"
    and segs: "\<And>s q j. s \<in> set core \<Longrightarrow> placed ?L s q \<Longrightarrow> j < p_memsz s \<Longrightarrow> img ! (q + j) = seg_data s ! j"
    unfolding create_pmem_file_def cpt(1) by blast
  have "\<exists>pa. translate (proc_pTable p) (word_of_nat (p_vaddr s + j)) = Some pa \<and>
      unat pa < mem_size \<and> img ! unat pa = seg_data s ! j"
    if s: "s \<in> set core" "seg_type s = PT_LOAD" "p_vaddr s \<in> rg_vaddr ` set rs" and j: "j < p_memsz s"
    for s j
  proof -
    obtain r where "r \<in> set ?L" and r: "rg_vaddr r = p_vaddr s"
      using s(3) by (metis imageE list.set_intros(2))
    then obtain q where q: "(q, r) \<in> set (place 0 ?L)" using place_member by blast
    then have placed: "placed ?L s q" using s(2) r by (auto simp: placed_def)
    have "j < rg_size r"
      using assms(2) s(1,2) \<open>r \<in> set ?L\<close> r j by (fastforce simp: core_ok_def list_all_iff)
    note tr = restored_translate [OF assms(1,3,4) q this, unfolded r]
    have "q + j < total_size ?L" using placed_bounds(1) [OF ok assms(2) s(1) placed] j by simp
    then have "q + j < 2 ^ 64" "q + j < mem_size" using total by linarith+
    with unat_of_nat_Addr [OF this(1)] tr segs [OF s(1) placed j] show ?thesis by metis
  qed
  with img show ?thesis by blast
qed

text \<open>A process with one page of code and one page of stack, and its core file.\<close>

definition demo_regions :: "Region list" where
  "demo_regions = [\<lparr>rg_vaddr = 0x400000, rg_size = pgsize, rg_offset = 0, rg_name = ''a.out''\<rparr>,
     \<lparr>rg_vaddr = 0x7ff000, rg_size = pgsize, rg_offset = 0, rg_name = ''[stack]''\<rparr>]"

definition demo_core :: "Segment list" where
  "demo_core = [\<lparr>seg_type = PT_OTHER, p_vaddr = 0, p_filesz = 0, p_memsz = 0, seg_data = []\<rparr>,
     \<lparr>seg_type = PT_LOAD, p_vaddr = 0x7ff000, p_filesz = pgsize, p_memsz = pgsize,
      seg_data = replicate pgsize 0x2a\<rparr>]"

lemma demo_regions_ok: "regions_ok demo_regions"
  by (simp add: regions_ok_def layout_ok_def demo_regions_def null_region_def pgsize_def PageShift_def)

lemma demo_core_ok: "core_ok demo_core (null_region # demo_regions)"
  by (simp add: core_ok_def demo_core_def demo_regions_def null_region_def)

lemma demo_stack: "length (filter (sublist ''stack'') (map rg_name (null_region # demo_regions))) = 1"
proof -
  have "sublist ''stack'' ''[stack]''" unfolding sublist_def by (intro exI [of _ "''[''"] exI [of _ "'']''"]) simp
  moreover have "\<not> sublist ''stack'' ''null''" "\<not> sublist ''stack'' ''a.out''"
    using set_mono_sublist [of "''stack''" "''null''"] set_mono_sublist [of "''stack''" "''a.out''"]
    by auto
  ultimately show ?thesis by (simp add: demo_regions_def null_region_def)
qed

theorem checkpoint_memory_faithful_witness:
  "\<exists>cpt mem_size d p img.
     create_gem5_checkpoint demo_regions (RegisterValues 0 [] (\<lambda>_. None)) 0x500000 =
       Some (cpt, mem_size, d) \<and> restore_process cpt = Some p \<and>
     create_pmem_file (\<lambda>_. None) demo_core mem_size d = Some img \<and>
     (\<exists>pa. translate (proc_pTable p) (word_of_nat (0x7ff000 + 5)) = Some pa \<and> img ! unat pa = 0x2a)"
proof -
  let ?regs = "RegisterValues 0 [] (\<lambda>_. None)"
  obtain cpt mem_size d where c: "create_gem5_checkpoint demo_regions ?regs 0x500000 = Some (cpt, mem_size, d)"
    using checkpoint_succeeds [OF demo_regions_ok, of ?regs "0x500000"] demo_stack by auto
  obtain p where p: "restore_process cpt = Some p" using restore_succeeds by blast
  from checkpoint_memory_faithful [OF demo_regions_ok demo_core_ok c p, of "\<lambda>_. None"] obtain img
    where img: "create_pmem_file (\<lambda>_. None) demo_core mem_size d = Some img"
    and "\<forall>s\<in>set demo_core. seg_type s = PT_LOAD \<longrightarrow> p_vaddr s \<in> rg_vaddr ` set demo_regions \<longrightarrow>
      (\<forall>j < p_memsz s. \<exists>pa. translate (proc_pTable p) (word_of_nat (p_vaddr s + j)) = Some pa \<and>
        unat pa < mem_size \<and> img ! unat pa = seg_data s ! j)" by blast
  then have "\<forall>j < pgsize. \<exists>pa. translate (proc_pTable p) (word_of_nat (0x7ff000 + j)) = Some pa \<and>
      unat pa < mem_size \<and> img ! unat pa = replicate pgsize 0x2a ! j"
    by (simp add: demo_core_def demo_regions_def)
  then have "\<exists>pa. translate (proc_pTable p) (word_of_nat (0x7ff000 + 5)) = Some pa \<and> img ! unat pa = 0x2a"
    by (auto simp: pgsize_def PageShift_def dest!: spec [of _ 5])
  with c p img show ?thesis by blast
qed

lemma restored_frames:
  assumes "regions_ok rs" and "create_gem5_checkpoint rs regs brk = Some (cpt, mem_size, d)"
    and "restore_process cpt = Some p" and "mem_size < 0xffff0000"
  shows "frames_ok p"
proof -
  note cpt = checkpoint_contents [OF assms(1,2)] and tab = restored_table [OF assms(1-3)]
  let ?N = "num_pages rs"
  have N: "2 * (?N * pgsize) < 0xffff0000" using assms(4) cpt(2) by simp
  have "M < 2 ^ 64" if "2 * M < 0xffff0000" for M :: nat using that by simp
  from this [OF N] have fits: "?N * pgsize < 2 ^ 64" .
  have "?N * 1 \<le> ?N * pgsize" using pgsize_pos(1) by (intro mult_le_mono2) (simp add: Suc_le_eq)
  then have "?N < 2 ^ 64" using fits by linarith
  then have un: "unat (word_of_nat ?N :: Addr) = ?N" "unat (word_of_nat mem_size :: Addr) = mem_size"
    using assms(4) by (auto intro!: unat_of_nat_Addr)
  have entry: "\<exists>k m j. (k, m) \<in> set (template_of rs) \<and> a = word_of_nat k \<and> j < ?N \<and>
      mm_paddr m = j * pgsize \<and> unat (pte_paddr e) = j * pgsize \<and> pte_paddr e = word_of_nat (j * pgsize)"
    if ent: "pTable (proc_pTable p) a = Some e" for a e
  proof -
    obtain k m where km: "(k, m) \<in> set (template_of rs)" "a = word_of_nat k"
        "e = PTEntry (word_of_nat (mm_paddr m)) 0" using tab(3) [OF ent] by blast
    obtain j where j: "j < ?N" "mm_paddr m = j * pgsize" using template_keys(4) [OF assms(1) km(1)] by blast
    have "j * pgsize < ?N * pgsize" using j(1) by simp
    then have "unat (word_of_nat (j * pgsize) :: Addr) = j * pgsize"
      using fits by (intro unat_of_nat_Addr) (rule less_trans)
    with km j show ?thesis by (auto simp: PTEntry_def)
  qed
  have below: "take_bit PageShift a = 0 \<and> take_bit PageShift (pte_paddr e) = 0 \<and>
      unat (pte_paddr e) < ?N * 2 ^ PageShift" if e: "pTable (proc_pTable p) a = Some e" for a e
  proof -
    from entry [OF e] obtain k m j where kmj: "(k, m) \<in> set (template_of rs)" "a = word_of_nat k"
      "j < ?N" "unat (pte_paddr e) = j * pgsize" "pte_paddr e = word_of_nat (j * pgsize)" by blast
    have "j * pgsize < ?N * pgsize" using kmj(3) by simp
    then have "take_bit PageShift (pte_paddr e) = 0"
      using take_page_of_nat [OF less_trans [OF _ fits], of "j * pgsize"] kmj(5) by simp
    moreover have "take_bit PageShift a = 0"
      using take_page_of_nat [of k] template_keys(1,3) [OF assms(1) kmj(1)] kmj(2) by simp
    ultimately show ?thesis using kmj(4) \<open>j * pgsize < ?N * pgsize\<close> by (simp add: pgsize_def)
  qed
  have inj: "a = a'" if e: "pTable (proc_pTable p) a = Some e" and e': "pTable (proc_pTable p) a' = Some e'"
    and eq: "pte_paddr e = pte_paddr e'" for a a' e e'
    using entry [OF e] entry [OF e'] eq template_paddr_inj [OF assms(1)] by metis
  show ?thesis
    unfolding frames_ok_def Let_def tab(4) using tab(1) below inj un N assms(4) cpt(2)
    by (simp add: pgsize_def)
qed



end
