(* ===== verification/TimeBuf.thy ===== *)
theory TimeBuf
  imports Prelude
begin

text \<open>
  \<open>src/custom_gem5/src/cpu/timebuf.hh\<close>, the ring buffer through which the pipeline stages talk to
  each other: a stage writes at a position relative to the current cycle and another stage reads
  the value when enough cycles have passed.  \<open>init\<close> is the value of a freshly constructed element;
  the vector of pointers into the raw storage is the list of the elements.
\<close>

section \<open>The ring buffer\<close>

record 'a TimeBuffer =
  past :: int
  future :: int
  tb_size :: nat
  tb_data :: "'a list"
  tb_base :: nat

definition TimeBuffer :: "'a \<Rightarrow> int \<Rightarrow> int \<Rightarrow> 'a TimeBuffer option" where
  "TimeBuffer init p f = do {
     assert_that (p \<ge> 0 \<and> f \<ge> 0);
     let sz = nat (p + f + 1);
     Some \<lparr>past = p, future = f, tb_size = sz, tb_data = replicate sz init, tb_base = 0\<rparr>
   }"

definition tb_valid :: "'a TimeBuffer \<Rightarrow> int \<Rightarrow> bool" where
  "tb_valid tb idx = (idx \<ge> - past tb \<and> idx \<le> future tb)"

definition advance :: "'a \<Rightarrow> 'a TimeBuffer \<Rightarrow> 'a TimeBuffer" where
  "advance init tb =
     (let base = (if tb_base tb + 1 \<ge> tb_size tb then 0 else tb_base tb + 1);
          ptr = int base + future tb;
          ptr = (if ptr \<ge> int (tb_size tb) then ptr - int (tb_size tb) else ptr)
      in tb\<lparr>tb_base := base, tb_data := (tb_data tb)[nat ptr := init]\<rparr>)"

definition calculateVectorIndex :: "'a TimeBuffer \<Rightarrow> int \<Rightarrow> int option" where
  "calculateVectorIndex tb idx = do {
     assert_that (tb_valid tb idx);
     let vector_index = idx + int (tb_base tb);
     Some (if vector_index \<ge> int (tb_size tb) then vector_index - int (tb_size tb)
           else if vector_index < 0 then vector_index + int (tb_size tb)
           else vector_index)
   }"

text \<open>Reading and assigning through the pointer that \<open>access\<close> returns.\<close>

definition access_read :: "'a TimeBuffer \<Rightarrow> int \<Rightarrow> 'a option" where
  "access_read tb idx = do {
     i \<leftarrow> calculateVectorIndex tb idx;
     Some (tb_data tb ! nat i)
   }"

definition access_write :: "'a TimeBuffer \<Rightarrow> int \<Rightarrow> 'a \<Rightarrow> 'a TimeBuffer option" where
  "access_write tb idx v = do {
     i \<leftarrow> calculateVectorIndex tb idx;
     Some (tb\<lparr>tb_data := (tb_data tb)[nat i := v]\<rparr>)
   }"

text \<open>A wire is a checked position; its arithmetic re-checks the position.\<close>

definition getWire :: "'a TimeBuffer \<Rightarrow> int \<Rightarrow> int option" where
  "getWire tb idx = do { assert_that (tb_valid tb idx); Some idx }"

definition wire_set :: "'a TimeBuffer \<Rightarrow> int \<Rightarrow> int \<Rightarrow> int option" where
  "wire_set tb w idx = do { assert_that (tb_valid tb idx); Some idx }"

definition wire_add :: "'a TimeBuffer \<Rightarrow> int \<Rightarrow> int \<Rightarrow> int option" where
  "wire_add tb w off = wire_set tb w (w + off)"

definition wire_sub :: "'a TimeBuffer \<Rightarrow> int \<Rightarrow> int \<Rightarrow> int option" where
  "wire_sub tb w off = wire_set tb w (w - off)"

section \<open>A delay line\<close>

text \<open>
  What the stages rely on: positions between \<open>- p\<close> and \<open>f\<close> can be read and written, a write is
  read back and leaves the other positions alone, and a step moves every value one position
  towards the past and brings in a fresh one.
\<close>

locale delay_line =
  fixes ok :: "'s \<Rightarrow> bool" and read :: "'s \<Rightarrow> int \<Rightarrow> 'a option"
    and wr :: "'s \<Rightarrow> int \<Rightarrow> 'a \<Rightarrow> 's option" and step :: "'s \<Rightarrow> 's"
    and p f :: int and fresh :: 'a
  assumes write_ok: "ok s \<Longrightarrow> - p \<le> i \<Longrightarrow> i \<le> f \<Longrightarrow> \<exists>t. wr s i v = Some t \<and> ok t"
    and step_ok: "ok s \<Longrightarrow> ok (step s)"
    and read_write: "ok s \<Longrightarrow> wr s i v = Some t \<Longrightarrow>
      read t j = (if j = i then Some v else read s j)"
    and read_step: "ok s \<Longrightarrow> - p \<le> i \<Longrightarrow> i \<le> f \<Longrightarrow>
      read (step s) i = (if i = f then Some fresh else read s (i + 1))"
begin

lemma steps_ok: "ok s \<Longrightarrow> ok ((step ^^ k) s)"
  by (induction k) (auto intro: step_ok)

lemma read_steps:
  assumes "ok s" and "- p \<le> i" and "i \<le> f"
  shows "read ((step ^^ k) s) i = (if i + int k \<le> f then read s (i + int k) else Some fresh)"
  using assms(2,3)
proof (induction k arbitrary: i)
  case (Suc k)
  have "read ((step ^^ Suc k) s) i = (if i = f then Some fresh else read ((step ^^ k) s) (i + 1))"
    using read_step [OF steps_ok [OF assms(1)], of i k] Suc.prems by simp
  with Suc show ?case by (auto simp: algebra_simps)
qed simp

lemma delivered:
  assumes "ok s" and "wr s i v = Some t" and "- p \<le> i - int k" and "i \<le> f"
    and "- p \<le> i"
  shows "read ((step ^^ k) t) (i - int k) = Some v"
proof -
  have "ok t" using write_ok [OF assms(1) assms(5) assms(4), of v] assms(2) by auto
  from read_steps [OF this assms(3), of k] assms(4) read_write [OF assms(1,2), of i]
  show ?thesis by simp
qed

end

section \<open>The ring buffer is a delay line\<close>

definition tb_ok :: "int \<Rightarrow> int \<Rightarrow> 'a TimeBuffer \<Rightarrow> bool" where
  "tb_ok p f tb = (0 \<le> p \<and> 0 \<le> f \<and> past tb = p \<and> future tb = f \<and> tb_size tb = nat (p + f + 1) \<and>
     length (tb_data tb) = tb_size tb \<and> tb_base tb < tb_size tb)"

lemma TimeBuffer_ok: "0 \<le> p \<Longrightarrow> 0 \<le> f \<Longrightarrow> \<exists>tb. TimeBuffer init p f = Some tb \<and> tb_ok p f tb"
  by (simp add: TimeBuffer_def tb_ok_def Let_def)

text \<open>The slot of a position: the position relative to the base, modulo the size.\<close>

lemma vector_index_mod:
  assumes "tb_ok p f tb" and "- p \<le> i" and "i \<le> f"
  shows "calculateVectorIndex tb i = Some ((i + int (tb_base tb)) mod int (tb_size tb))"
proof -
  let ?n = "int (tb_size tb)" and ?x = "i + int (tb_base tb)"
  have n: "?n = p + f + 1" "0 \<le> int (tb_base tb)" "int (tb_base tb) < ?n" "0 \<le> p" "0 \<le> f"
    using assms(1) by (auto simp: tb_ok_def)
  have "?x mod ?n = (if ?x \<ge> ?n then ?x - ?n else if ?x < 0 then ?x + ?n else ?x)"
  proof (cases "?x \<ge> ?n")
    case True
    then have "(?x - ?n) mod ?n = ?x - ?n" using n assms(2,3) by (intro mod_pos_pos_trivial) auto
    with True show ?thesis by (simp add: minus_mod_self2)
  next
    case False
    show ?thesis
    proof (cases "?x < 0")
      case True
      then have "(?x + ?n) mod ?n = ?x + ?n" using n assms(2,3) by (intro mod_pos_pos_trivial) auto
      with True False show ?thesis by simp
    qed (use False in \<open>simp add: mod_pos_pos_trivial\<close>)
  qed
  with assms show ?thesis
    by (simp add: calculateVectorIndex_def tb_valid_def tb_ok_def Let_def)
qed

text \<open>Different positions have different slots.\<close>

lemma slot_inj:
  assumes "tb_ok p f tb" and "- p \<le> i" "i \<le> f" "- p \<le> j" "j \<le> f"
    and "nat ((i + b) mod int (tb_size tb)) = nat ((j + b) mod int (tb_size tb))"
  shows "i = j"
proof -
  have n: "int (tb_size tb) = p + f + 1" "0 < int (tb_size tb)" using assms(1) by (auto simp: tb_ok_def)
  then have "(i + b) mod int (tb_size tb) = (j + b) mod int (tb_size tb)"
    using assms(6) by (simp only: eq_nat_nat_iff pos_mod_sign)
  then have "int (tb_size tb) dvd (i + b) - (j + b)" by (simp add: mod_eq_dvd_iff)
  then have "int (tb_size tb) dvd i - j" by simp
  moreover have "\<bar>i - j\<bar> < int (tb_size tb)" unfolding n(1) using assms(2-5) by (auto simp: abs_if)
  ultimately show ?thesis using zdvd_not_zless [of "\<bar>i - j\<bar>" "int (tb_size tb)"] by force
qed

lemma slot_bounds:
  assumes "tb_ok p f tb"
  shows "nat (x mod int (tb_size tb)) < length (tb_data tb)"
proof -
  have "0 < int (tb_size tb)" "length (tb_data tb) = tb_size tb" using assms by (auto simp: tb_ok_def)
  with pos_mod_bound [of "int (tb_size tb)" x] pos_mod_sign [of "int (tb_size tb)" x]
  show ?thesis by linarith
qed

lemma tb_read:
  assumes "tb_ok p f tb" and "- p \<le> i" and "i \<le> f"
  shows "access_read tb i = Some (tb_data tb ! nat ((i + int (tb_base tb)) mod int (tb_size tb)))"
  using vector_index_mod [OF assms] by (simp add: access_read_def)

lemma tb_read_None: "tb_ok p f tb \<Longrightarrow> \<not> (- p \<le> i \<and> i \<le> f) \<Longrightarrow> access_read tb i = None"
  by (auto simp: access_read_def calculateVectorIndex_def tb_valid_def tb_ok_def)

lemma advance_eq:
  assumes "tb_ok p f tb"
  shows "advance init tb = tb\<lparr>tb_base := (tb_base tb + 1) mod tb_size tb, tb_data := (tb_data tb)
    [nat ((f + int (tb_base tb) + 1) mod int (tb_size tb)) := init]\<rparr>"
proof -
  let ?n = "tb_size tb" and ?b = "(tb_base tb + 1) mod tb_size tb"
  have pos: "0 < ?n" "tb_base tb < ?n" "future tb = f" using assms by (auto simp: tb_ok_def)
  have base: "(if tb_base tb + 1 \<ge> ?n then 0 else tb_base tb + 1) = ?b"
    using pos(2) by (simp add: mod_if le_Suc_eq)
  have "tb_ok p f (tb\<lparr>tb_base := ?b\<rparr>)" using assms pos by (simp add: tb_ok_def)
  from vector_index_mod [OF this, of f]
  have "(if int ?b + f \<ge> int ?n then int ?b + f - int ?n else int ?b + f) = (f + int ?b) mod int ?n"
    using assms by (simp add: calculateVectorIndex_def tb_valid_def tb_ok_def Let_def add.commute
        split: if_splits)
  also have "\<dots> = (f + int (tb_base tb) + 1) mod int ?n"
    by (simp add: zmod_int mod_add_right_eq algebra_simps)
  finally have ptr: "(if int ?b + f \<ge> int ?n then int ?b + f - int ?n else int ?b + f) =
      (f + int (tb_base tb) + 1) mod int ?n" .
  show ?thesis unfolding advance_def Let_def base pos(3) ptr ..
qed

interpretation tb: delay_line "tb_ok p f" access_read access_write "advance init" p f init
  for p f :: int and init :: 'a
proof
  fix s :: "'a TimeBuffer" and i v
  assume ok: "tb_ok p f s" and i: "- p \<le> i" "i \<le> f"
  then show "\<exists>t. access_write s i v = Some t \<and> tb_ok p f t"
    using vector_index_mod [OF ok i] by (auto simp: access_write_def tb_ok_def)
next
  fix s :: "'a TimeBuffer"
  assume "tb_ok p f s"
  then show "tb_ok p f (advance init s)" by (simp add: advance_eq) (auto simp: tb_ok_def)
next
  fix s t :: "'a TimeBuffer" and i j v
  assume ok: "tb_ok p f s" and wr: "access_write s i v = Some t"
  then have i: "- p \<le> i" "i \<le> f"
    by (auto simp: access_write_def calculateVectorIndex_def tb_valid_def tb_ok_def bind_eq_Some_conv)
  have t: "t = s\<lparr>tb_data := (tb_data s)[nat ((i + int (tb_base s)) mod int (tb_size s)) := v]\<rparr>"
    using wr vector_index_mod [OF ok i] by (simp add: access_write_def)
  have ok': "tb_ok p f t" using ok by (simp add: t tb_ok_def)
  show "access_read t j = (if j = i then Some v else access_read s j)"
  proof (cases "- p \<le> j \<and> j \<le> f")
    case True
    then show ?thesis
      using tb_read [OF ok', of j] tb_read [OF ok, of j] slot_bounds [OF ok]
        slot_inj [OF ok i, of j "int (tb_base s)"] by (auto simp: t nth_list_update)
  qed (use tb_read_None [OF ok'] tb_read_None [OF ok] i in auto)
next
  fix s :: "'a TimeBuffer" and i
  assume ok: "tb_ok p f s" and i: "- p \<le> i" "i \<le> f"
  have ok': "tb_ok p f (advance init s)"
    using ok by (simp add: advance_eq) (auto simp: tb_ok_def)
  have b: "int ((tb_base s + 1) mod tb_size s) = (int (tb_base s) + 1) mod int (tb_size s)"
    by (simp add: zmod_int add.commute)
  have slot: "(i + int ((tb_base s + 1) mod tb_size s)) mod int (tb_size s) =
      (i + 1 + int (tb_base s)) mod int (tb_size s)" for i
    unfolding b by (simp add: mod_add_right_eq algebra_simps)
  have "access_read (advance init s) i =
      Some ((tb_data s)[nat ((f + 1 + int (tb_base s)) mod int (tb_size s)) := init] !
        nat ((i + 1 + int (tb_base s)) mod int (tb_size s)))"
    using tb_read [OF ok' i] slot [of i] by (simp add: advance_eq [OF ok] algebra_simps)
  moreover have "(nat ((f + 1 + int (tb_base s)) mod int (tb_size s)) =
      nat ((i + 1 + int (tb_base s)) mod int (tb_size s))) = (i = f)"
    using slot_inj [OF ok _ order_refl i, of "1 + int (tb_base s)"] ok
    by (auto simp: algebra_simps tb_ok_def)
  ultimately show "access_read (advance init s) i = (if i = f then Some init else access_read s (i + 1))"
    using slot_bounds [OF ok] tb_read [OF ok, of "i + 1"] i by (auto simp: nth_list_update)
qed

section \<open>Whole runs\<close>

datatype 'a tb_op = Advance | Write int 'a

fun tb_run :: "'a \<Rightarrow> 'a tb_op list \<Rightarrow> 'a TimeBuffer \<Rightarrow> 'a TimeBuffer option" where
  "tb_run init [] tb = Some tb"
| "tb_run init (Advance # ops) tb = tb_run init ops (advance init tb)"
| "tb_run init (Write i v # ops) tb = Option.bind (access_write tb i v) (tb_run init ops)"

text \<open>The same run on an unbounded line of values, one per position.\<close>

fun line_run :: "'a \<Rightarrow> int \<Rightarrow> 'a tb_op list \<Rightarrow> (int \<Rightarrow> 'a) \<Rightarrow> (int \<Rightarrow> 'a)" where
  "line_run init f [] l = l"
| "line_run init f (Advance # ops) l = line_run init f ops (\<lambda>i. if i = f then init else l (i + 1))"
| "line_run init f (Write i v # ops) l = line_run init f ops (l(i := v))"

fun op_in_range :: "int \<Rightarrow> int \<Rightarrow> 'a tb_op \<Rightarrow> bool" where
  "op_in_range p f Advance = True"
| "op_in_range p f (Write i v) = (- p \<le> i \<and> i \<le> f)"

lemma tb_run_refines:
  assumes "tb_ok p f tb" and "\<forall>i. - p \<le> i \<and> i \<le> f \<longrightarrow> access_read tb i = Some (l i)"
  shows "if list_all (op_in_range p f) ops
    then \<exists>tb'. tb_run init ops tb = Some tb' \<and>
      (\<forall>i. - p \<le> i \<and> i \<le> f \<longrightarrow> access_read tb' i = Some (line_run init f ops l i))
    else tb_run init ops tb = None"
  using assms
proof (induction ops arbitrary: tb l)
  case (Cons a ops)
  show ?case
  proof (cases a)
    case Advance
    have "tb_ok p f (advance init tb)" by (rule tb.step_ok [OF Cons.prems(1)])
    moreover have "\<forall>i. - p \<le> i \<and> i \<le> f \<longrightarrow>
        access_read (advance init tb) i = Some (if i = f then init else l (i + 1))"
      using tb.read_step [OF Cons.prems(1)] Cons.prems(2) by simp
    ultimately show ?thesis
      using Cons.IH [of "advance init tb" "\<lambda>i. if i = f then init else l (i + 1)"] Advance by simp
  next
    case (Write j v)
    show ?thesis
    proof (cases "- p \<le> j \<and> j \<le> f")
      case True
      then obtain t where t: "access_write tb j v = Some t" "tb_ok p f t"
        using tb.write_ok [OF Cons.prems(1)] by blast
      have "\<forall>i. - p \<le> i \<and> i \<le> f \<longrightarrow> access_read t i = Some ((l(j := v)) i)"
        using tb.read_write [OF Cons.prems(1) t(1)] Cons.prems(2) by simp
      from Cons.IH [OF t(2) this] show ?thesis using Write t(1) True by simp
    next
      case False
      then have "access_write tb j v = None"
        using Cons.prems(1)
        by (auto simp: access_write_def calculateVectorIndex_def tb_valid_def tb_ok_def)
      then show ?thesis using Write False by (auto simp del: not_le)
    qed
  qed
qed simp

text \<open>
  C35. The ring buffer of fixed size behaves like an unbounded delay line: a sequence of cycles and
  writes runs without a failed assertion exactly when every write is inside the window, and then
  every position of the window reads as on the line, where a cycle moves all values one position
  into the past.
\<close>

theorem timebuf_is_delay_line:
  assumes "TimeBuffer init p f = Some tb"
  shows "if list_all (op_in_range p f) ops
    then \<exists>tb'. tb_run init ops tb = Some tb' \<and>
      (\<forall>i. - p \<le> i \<and> i \<le> f \<longrightarrow> access_read tb' i = Some (line_run init f ops (\<lambda>_. init) i))
    else tb_run init ops tb = None"
proof (rule tb_run_refines)
  have pf: "0 \<le> p" "0 \<le> f" and tb: "tb_data tb = replicate (nat (p + f + 1)) init"
    using assms by (auto simp: TimeBuffer_def Let_def)
  show ok: "tb_ok p f tb" using TimeBuffer_ok [OF pf, of init] assms by simp
  show "\<forall>i. - p \<le> i \<and> i \<le> f \<longrightarrow> access_read tb i = Some init"
    using tb_read [OF ok] slot_bounds [OF ok] by (simp add: tb)
qed

text \<open>A value written two cycles ahead and read back from one cycle in the past.\<close>

theorem timebuf_is_delay_line_witness:
  "\<exists>tb tb'. TimeBuffer 0 1 2 = Some tb \<and>
     tb_run 0 [Write 2 (7 :: nat), Advance, Advance, Write 0 8, Advance] tb = Some tb' \<and>
     access_read tb' (- 1) = Some 8"
proof -
  let ?ops = "[Write 2 (7 :: nat), Advance, Advance, Write 0 8, Advance]"
  obtain tb where tb: "TimeBuffer (0 :: nat) 1 2 = Some tb" using TimeBuffer_ok [of 1 2 0] by auto
  from timebuf_is_delay_line [OF tb, of ?ops] obtain tb' where
    "tb_run 0 ?ops tb = Some tb'"
    "\<forall>i. - 1 \<le> i \<and> i \<le> 2 \<longrightarrow> access_read tb' i = Some (line_run 0 2 ?ops (\<lambda>_. 0) i)" by auto
  then have "access_read tb' (- 1) = Some 8" by simp
  with tb \<open>tb_run 0 ?ops tb = Some tb'\<close> show ?thesis by blast
qed

end
