(* ===== verification/Spec2Isabelle.thy ===== *)
theory Spec2Isabelle
  imports Core RenameOk RenameOrder CheckpointOk TimeBuf
begin

text \<open>
  Verification of the out-of-order core.
\<close>

end
